(* ===== verification/Prelude.thy ===== *)
theory Prelude
  imports Main "HOL-Library.Word"
begin

text \<open>
  Shared vocabulary of the development: the widths of the C integer types the sources use, the
  outcome type that makes a failing \<^verbatim>\<open>g_assert\<close> a value, and the generic facts on
  lists, words and outcomes that the component theories rest on.
\<close>

section \<open>Machine types\<close>

type_synonym byte = "8 word"
type_synonym guint16 = "16 word"
type_synonym guint32 = "32 word"
type_synonym guint64 = "64 word"

section \<open>Assertions and aborts\<close>

text \<open>
  \<^verbatim>\<open>g_assert(cond)\<close> aborts the process when \<open>cond\<close> is false.  A function of the
  source that contains one returns an \<open>outcome\<close>: \<open>Inl\<close> is the abort, \<open>Inr\<close> the normal
  return with its value and the updated state.
\<close>

datatype abort = AssertionFailed | NullDereference | UseAfterFree | InvalidAccess | RecursionLimit

type_synonym 'a outcome = "abort + 'a"

named_theorems outcome_simps

definition g_assert :: "bool \<Rightarrow> 'a outcome \<Rightarrow> 'a outcome" where
  "g_assert c k = (if c then k else Inl AssertionFailed)"

definition bindO :: "'a outcome \<Rightarrow> ('a \<Rightarrow> 'b outcome) \<Rightarrow> 'b outcome" where
  "bindO m f = (case m of Inl e \<Rightarrow> Inl e | Inr x \<Rightarrow> f x)"

lemma g_assert_True [simp, outcome_simps]: "g_assert True k = k"
  by (simp add: g_assert_def)

lemma g_assert_False [simp, outcome_simps]: "g_assert False k = Inl AssertionFailed"
  by (simp add: g_assert_def)

lemma g_assert_eq_Inr_iff [outcome_simps]: "g_assert c k = Inr x \<longleftrightarrow> c \<and> k = Inr x"
  by (simp add: g_assert_def)

lemma bindO_Inr [simp, outcome_simps]: "bindO (Inr x) f = f x"
  by (simp add: bindO_def)

lemma bindO_Inl [simp, outcome_simps]: "bindO (Inl e) f = Inl e"
  by (simp add: bindO_def)

lemma bindO_eq_Inr_iff [outcome_simps]:
  "bindO m f = Inr y \<longleftrightarrow> (\<exists>x. m = Inr x \<and> f x = Inr y)"
  by (cases m) auto

lemma bindO_cong [fundef_cong]:
  assumes "m = m'" and "\<And>x. m' = Inr x \<Longrightarrow> f x = f' x"
  shows "bindO m f = bindO m' f'"
  using assms by (cases m') auto

section \<open>Lists\<close>

lemma takeWhile_eq_take_length:
  "takeWhile P xs = take (length (takeWhile P xs)) xs"
  by (metis append_eq_conv_conj takeWhile_dropWhile_id)

lemma nth_length_takeWhile_le:
  assumes "n = length (takeWhile P xs)" and "n < length xs"
  shows "\<not> P (xs ! n)"
  using assms nth_length_takeWhile by blast

lemma length_takeWhile_ge:
  assumes "\<And>i. i < n \<Longrightarrow> P (xs ! i)" and "n \<le> length xs"
  shows "n \<le> length (takeWhile P xs)"
proof (rule ccontr)
  assume "\<not> n \<le> length (takeWhile P xs)"
  then have "length (takeWhile P xs) < n" by simp
  moreover from this assms(2) have "\<not> P (xs ! length (takeWhile P xs))"
    by (intro nth_length_takeWhile) simp
  ultimately show False using assms(1) by blast
qed

section \<open>Words\<close>

lemma mult_less_bound:
  fixes k c e n :: nat
  assumes "k < c" and "c * e < n"
  shows "k * e < n"
  using assms by (meson le_less_trans less_imp_le mult_le_mono1)

lemma unat_plus_no_wrap:
  fixes a b :: "'a::len word"
  assumes "unat a + unat b < 2 ^ LENGTH('a)"
  shows "unat (a + b) = unat a + unat b"
  using assms by (simp add: unat_word_ariths)

lemma unat_Suc_less:
  fixes i n :: "'a::len word"
  assumes "i < n"
  shows "unat (i + 1) = Suc (unat i)"
proof -
  have "unat i < unat n" using assms by (simp add: word_less_nat_alt)
  with unsigned_less [of n, where 'a = nat] have "Suc (unat i) < 2 ^ LENGTH('a)" by linarith
  then show ?thesis by (simp add: unat_word_ariths)
qed

lemma of_nat_word_inj:
  assumes "(of_nat a :: 'a::len word) = of_nat b" and "a < 2 ^ LENGTH('a)" and "b < 2 ^ LENGTH('a)"
  shows "a = b"
proof -
  have "unat (of_nat a :: 'a word) = unat (of_nat b :: 'a word)" by (simp add: assms(1))
  then show ?thesis using assms(2,3) by (simp add: unat_of_nat)
qed

lemma mod_add_left_inj_le:
  fixes a i j c :: nat
  assumes "(a + i) mod c = (a + j) mod c" and "i \<le> j" and "j < c"
  shows "i = j"
proof -
  have "c dvd (a + j) - (a + i)"
    using assms(1,2) by (metis mod_eq_dvd_iff_nat add_le_cancel_left)
  then have "c dvd j - i" by simp
  then show ?thesis using assms(2,3) by (auto dest: dvd_imp_le)
qed

lemma mod_add_left_inj:
  fixes a i j c :: nat
  assumes "(a + i) mod c = (a + j) mod c" and "i < c" and "j < c"
  shows "i = j"
  using assms mod_add_left_inj_le [of a i c j] mod_add_left_inj_le [of a j c i]
  by (cases "i \<le> j") auto

lemma unat_mult_no_wrap:
  fixes a b :: "'a::len word"
  assumes "unat a * unat b < 2 ^ LENGTH('a)"
  shows "unat (a * b) = unat a * unat b"
  using assms by (simp add: unat_word_ariths)

lemma unat_minus_le:
  fixes a b :: "'a::len word"
  assumes "unat b \<le> unat a"
  shows "unat (a - b) = unat a - unat b"
  using assms by (simp add: unat_sub word_le_nat_alt)

lemma unat_ucast_32:
  assumes "unat (n :: guint64) < 2 ^ 32"
  shows "unat (ucast n :: guint32) = unat n"
  using assms by (simp add: unsigned_ucast_eq take_bit_nat_eq_self)

lemma unat_ucast_64 [simp]: "unat (ucast (n :: guint32) :: guint64) = unat n"
proof -
  have "unat n < 2 ^ 64" using unsigned_less [of n, where 'a = nat] by simp
  then show ?thesis by (simp add: unsigned_ucast_eq take_bit_nat_eq_self)
qed

end
