(* ===== verification/Ring_Buffer.thy ===== *)
theory Ring_Buffer
  imports Prelude
begin

text \<open>
  The fixed size ring of \<^verbatim>\<open>lib/ringbuffer.c\<close>.  The buffer is one memory block addressed by
  byte offset; an element pointer is the 32 bit offset the source computes
  (\<^verbatim>\<open>index * element_size\<close>, in \<^verbatim>\<open>guint32\<close> arithmetic).  The block is modelled as a store
  from element offsets to elements, \<open>None\<close> being the \<^verbatim>\<open>NULL\<close> buffer.

  The theory shows that under the well-formedness invariant the ring is a bounded FIFO queue: its
  contents, read in order, behave like a list under push, pop, drop and indexed access.
\<close>

section \<open>State and operations\<close>

record 'a RingBuffer =
  rb_buffer :: "(guint32 \<Rightarrow> 'a) option"
  rb_head :: guint32
  rb_tail :: guint32
  rb_count :: guint32
  rb_capacity :: guint32
  rb_element_size :: guint32

definition ring_buffer_init :: "'a RingBuffer" where
  "ring_buffer_init =
     \<lparr>rb_buffer = None, rb_head = 0, rb_tail = 0, rb_count = 0, rb_capacity = 0,
      rb_element_size = 0\<rparr>"

definition ring_buffer_alloc :: "'a \<Rightarrow> guint32 \<Rightarrow> guint32 \<Rightarrow> 'a RingBuffer outcome" where
  "ring_buffer_alloc zero element_size capacity =
     g_assert (capacity > 0)
       (Inr \<lparr>rb_buffer = Some (\<lambda>_. zero), rb_head = 0, rb_tail = 0, rb_count = 0,
             rb_capacity = capacity, rb_element_size = element_size\<rparr>)"

definition ring_buffer_is_allocated :: "'a RingBuffer \<Rightarrow> bool" where
  "ring_buffer_is_allocated self = (rb_buffer self \<noteq> None)"

definition ring_buffer_free :: "'a RingBuffer \<Rightarrow> 'a RingBuffer" where
  "ring_buffer_free self =
     self\<lparr>rb_buffer := None, rb_head := 0, rb_tail := 0, rb_count := 0, rb_capacity := 0,
          rb_element_size := 0\<rparr>"

definition ring_buffer_is_full :: "'a RingBuffer \<Rightarrow> bool" where
  "ring_buffer_is_full self = (rb_capacity self = rb_count self)"

definition ring_buffer_is_empty :: "'a RingBuffer \<Rightarrow> bool" where
  "ring_buffer_is_empty self = (rb_count self = 0)"

definition ring_buffer_tail :: "'a RingBuffer \<Rightarrow> guint32 option outcome" where
  "ring_buffer_tail self =
     g_assert (rb_buffer self \<noteq> None)
       (if ring_buffer_is_full self then Inr None
        else Inr (Some (rb_tail self * rb_element_size self)))"

definition ring_buffer_push :: "'a RingBuffer \<Rightarrow> (guint32 option \<times> 'a RingBuffer) outcome" where
  "ring_buffer_push self =
     bindO (ring_buffer_tail self) (\<lambda>r.
       case r of
         None \<Rightarrow> Inr (None, self)
       | Some p \<Rightarrow>
           Inr (Some p, self\<lparr>rb_count := rb_count self + 1,
                             rb_tail := (rb_tail self + 1) mod rb_capacity self\<rparr>))"

definition ring_buffer_pop :: "'a RingBuffer \<Rightarrow> (guint32 option \<times> 'a RingBuffer) outcome" where
  "ring_buffer_pop self =
     g_assert (rb_buffer self \<noteq> None)
       (if ring_buffer_is_empty self then Inr (None, self)
        else Inr (Some (rb_head self * rb_element_size self),
                  self\<lparr>rb_count := rb_count self - 1,
                       rb_head := (rb_head self + 1) mod rb_capacity self\<rparr>))"

definition ring_buffer_count :: "'a RingBuffer \<Rightarrow> guint32" where
  "ring_buffer_count self = rb_count self"

definition ring_buffer_capacity :: "'a RingBuffer \<Rightarrow> guint32" where
  "ring_buffer_capacity self = (if rb_buffer self \<noteq> None then rb_capacity self else 0)"

definition ring_buffer_drop :: "'a RingBuffer \<Rightarrow> guint32 \<Rightarrow> (bool \<times> 'a RingBuffer) outcome" where
  "ring_buffer_drop self n =
     g_assert (rb_buffer self \<noteq> None)
       (if ring_buffer_count self < n then Inr (False, self)
        else Inr (True, self\<lparr>rb_count := rb_count self - n,
                             rb_head := (rb_head self + n) mod rb_capacity self\<rparr>))"

definition ring_buffer_element_at :: "'a RingBuffer \<Rightarrow> guint32 \<Rightarrow> guint32 option outcome" where
  "ring_buffer_element_at self idx =
     g_assert (rb_buffer self \<noteq> None)
       (if idx \<ge> rb_count self then Inr None
        else Inr (Some (((rb_head self + idx) mod rb_capacity self) * rb_element_size self)))"

text \<open>Reading and writing through an element pointer.\<close>

definition ring_buffer_deref :: "'a RingBuffer \<Rightarrow> guint32 option \<Rightarrow> 'a outcome" where
  "ring_buffer_deref self p =
     (case (rb_buffer self, p) of
        (Some m, Some ofs) \<Rightarrow> Inr (m ofs)
      | _ \<Rightarrow> Inl NullDereference)"

definition ring_buffer_store :: "'a RingBuffer \<Rightarrow> guint32 option \<Rightarrow> 'a \<Rightarrow> 'a RingBuffer outcome" where
  "ring_buffer_store self p x =
     (case (rb_buffer self, p) of
        (Some m, Some ofs) \<Rightarrow> Inr (self\<lparr>rb_buffer := Some (m(ofs := x))\<rparr>)
      | _ \<Rightarrow> Inl NullDereference)"

function ring_buffer_range_loop ::
  "'a RingBuffer \<Rightarrow> ('a \<Rightarrow> bool) \<Rightarrow> guint32 \<Rightarrow> guint32 \<Rightarrow> guint32 outcome" where
  "ring_buffer_range_loop self pred i r =
     (if i < ring_buffer_count self
      then bindO (ring_buffer_element_at self i) (\<lambda>p.
             bindO (ring_buffer_deref self p) (\<lambda>e.
               if \<not> pred e then Inr r
               else ring_buffer_range_loop self pred (i + 1) (r + 1)))
      else Inr r)"
  by pat_completeness auto
termination
proof (relation "measure (\<lambda>(self, pred, i, r). unat (ring_buffer_count self) - unat i)", goal_cases)
  case 1
  show ?case by simp
next
  case (2 self pred i r p e)
  then have "unat (i + 1) = Suc (unat i)" by (simp add: unat_Suc_less)
  with 2 show ?case by (simp add: word_less_nat_alt)
qed

definition ring_buffer_get_continual_range_length ::
  "'a RingBuffer \<Rightarrow> ('a \<Rightarrow> bool) \<Rightarrow> guint32 outcome" where
  "ring_buffer_get_continual_range_length self pred =
     g_assert (rb_buffer self \<noteq> None) (ring_buffer_range_loop self pred 0 0)"

declare ring_buffer_range_loop.simps [simp del]

section \<open>Invariant and contents\<close>

text \<open>
  The bounds on capacity keep the 32 bit sums and products of the source below \<open>2 ^ 32\<close>:
  \<^verbatim>\<open>head + idx\<close> needs \<open>capacity \<le> 2 ^ 31\<close>, \<^verbatim>\<open>index * element_size\<close> needs the whole
  buffer to be smaller than \<open>2 ^ 32\<close> bytes.
\<close>

definition ring_buffer_wf :: "'a RingBuffer \<Rightarrow> bool" where
  "ring_buffer_wf self \<longleftrightarrow>
     rb_buffer self \<noteq> None \<and>
     0 < unat (rb_capacity self) \<and> unat (rb_capacity self) \<le> 2 ^ 31 \<and>
     0 < unat (rb_element_size self) \<and>
     unat (rb_capacity self) * unat (rb_element_size self) < 2 ^ 32 \<and>
     unat (rb_count self) \<le> unat (rb_capacity self) \<and>
     unat (rb_head self) < unat (rb_capacity self) \<and>
     unat (rb_tail self) = (unat (rb_head self) + unat (rb_count self)) mod unat (rb_capacity self)"

definition ring_buffer_ptr :: "'a RingBuffer \<Rightarrow> nat \<Rightarrow> guint32" where
  "ring_buffer_ptr self i =
     of_nat (((unat (rb_head self) + i) mod unat (rb_capacity self)) * unat (rb_element_size self))"

definition ring_buffer_contents :: "'a RingBuffer \<Rightarrow> 'a list" where
  "ring_buffer_contents self =
     (case rb_buffer self of
        None \<Rightarrow> []
      | Some m \<Rightarrow> map (\<lambda>i. m (ring_buffer_ptr self i)) [0..<unat (rb_count self)])"

section \<open>Sequences of calls and their abstract counterpart\<close>

text \<open>
  A client pushes an element by filling the slot \<^verbatim>\<open>ring_buffer_push\<close> returns and reads one
  through the pointer \<^verbatim>\<open>ring_buffer_pop\<close> or \<^verbatim>\<open>ring_buffer_element_at\<close> returns.
  \<open>ring_exec\<close> is one such call, \<open>queue_exec\<close> the same call on a list bounded by \<open>cap\<close>.
\<close>

datatype 'a ring_op = Push 'a | Pop | Drop guint32 | ElementAt guint32 | RangeLength "'a \<Rightarrow> bool"

datatype 'a ring_out = Done bool | Element "'a option" | Range nat

definition ring_exec :: "'a ring_op \<Rightarrow> 'a RingBuffer \<Rightarrow> ('a ring_out \<times> 'a RingBuffer) outcome" where
  "ring_exec ins self =
     (case ins of
        Push x \<Rightarrow>
          bindO (ring_buffer_push self) (\<lambda>(p, self').
            if p = None then Inr (Done False, self')
            else bindO (ring_buffer_store self' p x) (\<lambda>self''. Inr (Done True, self'')))
      | Pop \<Rightarrow>
          bindO (ring_buffer_pop self) (\<lambda>(p, self').
            if p = None then Inr (Element None, self')
            else bindO (ring_buffer_deref self' p) (\<lambda>x. Inr (Element (Some x), self')))
      | Drop n \<Rightarrow> bindO (ring_buffer_drop self n) (\<lambda>(ok, self'). Inr (Done ok, self'))
      | ElementAt i \<Rightarrow>
          bindO (ring_buffer_element_at self i) (\<lambda>p.
            if p = None then Inr (Element None, self)
            else bindO (ring_buffer_deref self p) (\<lambda>x. Inr (Element (Some x), self)))
      | RangeLength pred \<Rightarrow>
          bindO (ring_buffer_get_continual_range_length self pred) (\<lambda>n. Inr (Range (unat n), self)))"

fun ring_run :: "'a ring_op list \<Rightarrow> 'a RingBuffer \<Rightarrow> ('a ring_out list \<times> 'a RingBuffer) outcome" where
  "ring_run [] self = Inr ([], self)"
| "ring_run (ins # rest) self =
     bindO (ring_exec ins self) (\<lambda>(out, self').
       bindO (ring_run rest self') (\<lambda>(outs, self''). Inr (out # outs, self'')))"

definition queue_exec :: "nat \<Rightarrow> 'a ring_op \<Rightarrow> 'a list \<Rightarrow> 'a ring_out \<times> 'a list" where
  "queue_exec cap ins q =
     (case ins of
        Push x \<Rightarrow> if length q < cap then (Done True, q @ [x]) else (Done False, q)
      | Pop \<Rightarrow> (case q of [] \<Rightarrow> (Element None, q) | x # q' \<Rightarrow> (Element (Some x), q'))
      | Drop n \<Rightarrow> if unat n \<le> length q then (Done True, drop (unat n) q) else (Done False, q)
      | ElementAt i \<Rightarrow> (Element (if unat i < length q then Some (q ! unat i) else None), q)
      | RangeLength pred \<Rightarrow> (Range (length (takeWhile pred q)), q))"

fun queue_run :: "nat \<Rightarrow> 'a ring_op list \<Rightarrow> 'a list \<Rightarrow> 'a ring_out list \<times> 'a list" where
  "queue_run cap [] q = ([], q)"
| "queue_run cap (ins # rest) q =
     (let (out, q') = queue_exec cap ins q; (outs, q'') = queue_run cap rest q' in (out # outs, q''))"

section \<open>The ring is a bounded FIFO queue\<close>

named_theorems ring_simps

lemma unat_mod_word [ring_simps]:
  "unat ((a :: guint32) mod b) = unat a mod unat b"
  by (simp add: unat_mod)

lemma ring_wfD:
  assumes "ring_buffer_wf self"
  shows "\<exists>m. rb_buffer self = Some m"
    and "0 < unat (rb_capacity self)"
    and "unat (rb_head self) < unat (rb_capacity self)"
    and "unat (rb_tail self) < unat (rb_capacity self)"
    and "unat (rb_count self) \<le> unat (rb_capacity self)"
    and "unat (rb_capacity self) * unat (rb_element_size self) < 2 ^ 32"
    and "unat (rb_capacity self) \<le> 2 ^ 31"
    and "0 < unat (rb_element_size self)"
  using assms by (auto simp: ring_buffer_wf_def)

lemma slot_offset_no_wrap:
  assumes "ring_buffer_wf self" and "unat k < unat (rb_capacity self)"
  shows "k * rb_element_size self = of_nat (unat k * unat (rb_element_size self))"
    and "unat (k * rb_element_size self) = unat k * unat (rb_element_size self)"
proof -
  have lt: "unat k * unat (rb_element_size self) < 2 ^ LENGTH(32)"
    using mult_less_bound [OF assms(2) ring_wfD(6) [OF assms(1)]] by simp
  then show "unat (k * rb_element_size self) = unat k * unat (rb_element_size self)"
    by (rule unat_mult_no_wrap)
  show "k * rb_element_size self = of_nat (unat k * unat (rb_element_size self))"
    by simp
qed

lemma ring_ptr_element_at:
  assumes "ring_buffer_wf self" and "idx < rb_count self"
  shows "((rb_head self + idx) mod rb_capacity self) * rb_element_size self
           = ring_buffer_ptr self (unat idx)"
proof -
  note wf = ring_wfD [OF assms(1)]
  have "unat idx < unat (rb_count self)" using assms(2) by (simp add: word_less_nat_alt)
  then have "unat (rb_head self) + unat idx < 2 ^ LENGTH(32)" using wf by simp
  then have "unat (rb_head self + idx) = unat (rb_head self) + unat idx"
    by (rule unat_plus_no_wrap)
  then have eq: "unat ((rb_head self + idx) mod rb_capacity self)
      = (unat (rb_head self) + unat idx) mod unat (rb_capacity self)"
    by (simp add: ring_simps)
  have "unat ((rb_head self + idx) mod rb_capacity self) < unat (rb_capacity self)"
    using wf(2) by (simp add: eq)
  from slot_offset_no_wrap(1) [OF assms(1) this] show ?thesis
    by (simp add: ring_buffer_ptr_def eq)
qed

lemma ring_ptr_tail:
  assumes "ring_buffer_wf self"
  shows "rb_tail self * rb_element_size self = ring_buffer_ptr self (unat (rb_count self))"
proof -
  have "unat (rb_tail self)
          = (unat (rb_head self) + unat (rb_count self)) mod unat (rb_capacity self)"
    using assms by (simp add: ring_buffer_wf_def)
  then show ?thesis
    using slot_offset_no_wrap(1) [OF assms ring_wfD(4) [OF assms]]
    by (simp only: ring_buffer_ptr_def)
qed

lemma ring_ptr_head:
  assumes "ring_buffer_wf self"
  shows "rb_head self * rb_element_size self = ring_buffer_ptr self 0"
  using slot_offset_no_wrap(1) [OF assms ring_wfD(3) [OF assms]] ring_wfD(3) [OF assms]
  by (simp add: ring_buffer_ptr_def)

text \<open>Two different slots never share an element offset.\<close>

lemma ring_ptr_inj:
  assumes wf: "ring_buffer_wf self"
    and ij: "i < unat (rb_capacity self)" "j < unat (rb_capacity self)"
    and eq: "ring_buffer_ptr self i = ring_buffer_ptr self j"
  shows "i = j"
proof -
  let ?c = "unat (rb_capacity self)" and ?e = "unat (rb_element_size self)"
  have lt: "((unat (rb_head self) + k) mod ?c) * ?e < 2 ^ LENGTH(32)" for k
  proof -
    have "(unat (rb_head self) + k) mod ?c < ?c" using ring_wfD(2) [OF wf] by simp
    from mult_less_bound [OF this ring_wfD(6) [OF wf]] show ?thesis by simp
  qed
  have "((unat (rb_head self) + i) mod ?c) * ?e = ((unat (rb_head self) + j) mod ?c) * ?e"
    using eq lt [of i] lt [of j] unfolding ring_buffer_ptr_def by (rule of_nat_word_inj)
  then have "(unat (rb_head self) + i) mod ?c = (unat (rb_head self) + j) mod ?c"
    using wf by (simp add: ring_buffer_wf_def)
  then show ?thesis using ij by (rule mod_add_left_inj)
qed

lemma length_ring_contents [simp]:
  "ring_buffer_wf self \<Longrightarrow> length (ring_buffer_contents self) = unat (rb_count self)"
  by (auto simp: ring_buffer_contents_def ring_buffer_wf_def)

lemma ring_contents_nth:
  "rb_buffer self = Some m \<Longrightarrow> i < unat (rb_count self) \<Longrightarrow>
     ring_buffer_contents self ! i = m (ring_buffer_ptr self i)"
  by (simp add: ring_buffer_contents_def)

text \<open>The effect of each operation on the invariant, the element pointers and the contents.\<close>

lemma ring_alloc:
  assumes "0 < unat capacity" and "unat capacity \<le> 2 ^ 31" and "0 < unat element_size"
    and "unat capacity * unat element_size < 2 ^ 32"
  shows "\<exists>rb. ring_buffer_alloc zero element_size capacity = Inr rb \<and> ring_buffer_wf rb \<and>
              ring_buffer_contents rb = [] \<and> rb_capacity rb = capacity"
  using assms
  by (auto simp: ring_buffer_alloc_def ring_buffer_wf_def ring_buffer_contents_def
        word_less_nat_alt)

lemma ring_element_at:
  assumes "ring_buffer_wf self"
  shows "ring_buffer_element_at self idx =
           Inr (if unat idx < unat (rb_count self) then Some (ring_buffer_ptr self (unat idx))
                else None)"
  using assms ring_ptr_element_at [OF assms, of idx] ring_wfD(1) [OF assms]
  by (auto simp: ring_buffer_element_at_def word_le_nat_alt word_less_nat_alt)

lemma ring_not_full_iff:
  assumes "ring_buffer_wf self"
  shows "\<not> ring_buffer_is_full self \<longleftrightarrow> unat (rb_count self) < unat (rb_capacity self)"
proof -
  have "rb_capacity self = rb_count self \<longleftrightarrow> unat (rb_capacity self) = unat (rb_count self)"
    by (rule word_unat_eq_iff)
  then show ?thesis using ring_wfD(5) [OF assms] by (auto simp: ring_buffer_is_full_def)
qed

lemma ring_tail:
  assumes "ring_buffer_wf self"
  shows "ring_buffer_tail self =
           Inr (if ring_buffer_is_full self then None
                else Some (ring_buffer_ptr self (unat (rb_count self))))"
  using ring_wfD(1) [OF assms] ring_ptr_tail [OF assms] by (auto simp: ring_buffer_tail_def)

lemma ring_push_full:
  assumes "ring_buffer_wf self" and "ring_buffer_is_full self"
  shows "ring_buffer_push self = Inr (None, self)"
  using assms by (simp add: ring_buffer_push_def ring_tail)

lemma ring_push:
  assumes wf: "ring_buffer_wf self" and nf: "\<not> ring_buffer_is_full self"
  obtains self' where
    "ring_buffer_push self = Inr (Some (ring_buffer_ptr self (unat (rb_count self))), self')"
    and "ring_buffer_wf self'"
    and "rb_buffer self' = rb_buffer self" and "rb_capacity self' = rb_capacity self"
    and "unat (rb_count self') = Suc (unat (rb_count self))"
    and "ring_buffer_ptr self' = ring_buffer_ptr self"
proof -
  let ?self' = "self\<lparr>rb_count := rb_count self + 1,
                     rb_tail := (rb_tail self + 1) mod rb_capacity self\<rparr>"
  note wfD = ring_wfD [OF wf]
  have lt: "rb_count self < rb_capacity self"
    using nf by (simp add: ring_not_full_iff [OF wf] word_less_nat_alt)
  have cnt: "unat (rb_count self + 1) = Suc (unat (rb_count self))"
    by (rule unat_Suc_less [OF lt])
  have tl: "unat (rb_tail self + 1) = Suc (unat (rb_tail self))"
    using wfD(4) by (intro unat_Suc_less [of _ "rb_capacity self"]) (simp add: word_less_nat_alt)
  have "unat ((rb_tail self + 1) mod rb_capacity self)
          = Suc (unat (rb_tail self)) mod unat (rb_capacity self)"
    by (simp add: ring_simps tl)
  also have "\<dots> = (unat (rb_head self) + Suc (unat (rb_count self))) mod unat (rb_capacity self)"
    using wf by (simp add: ring_buffer_wf_def mod_Suc_eq)
  finally have "ring_buffer_wf ?self'"
    using wf lt by (simp add: ring_buffer_wf_def cnt word_less_nat_alt)
  moreover have "ring_buffer_push self
      = Inr (Some (ring_buffer_ptr self (unat (rb_count self))), ?self')"
    using nf by (simp add: ring_buffer_push_def ring_tail [OF wf])
  moreover have "ring_buffer_ptr ?self' = ring_buffer_ptr self"
    by (simp add: ring_buffer_ptr_def fun_eq_iff)
  ultimately show ?thesis
    by (intro that [of ?self']) (simp_all add: cnt)
qed

lemma ring_push_contents:
  assumes "ring_buffer_wf self" and "ring_buffer_wf self'"
    and "rb_buffer self = Some m" and "rb_buffer self' = Some m"
    and "unat (rb_count self') = Suc (unat (rb_count self))"
    and "ring_buffer_ptr self' = ring_buffer_ptr self"
  shows "ring_buffer_contents self'
           = ring_buffer_contents self @ [m (ring_buffer_ptr self (unat (rb_count self)))]"
  using assms by (simp add: ring_buffer_contents_def)

lemma ring_drop_ptr:
  assumes wf: "ring_buffer_wf self" and n: "unat n \<le> unat (rb_count self)"
  defines "self' \<equiv> self\<lparr>rb_count := rb_count self - n,
                          rb_head := (rb_head self + n) mod rb_capacity self\<rparr>"
  shows "ring_buffer_drop self n = Inr (True, self')"
    and "ring_buffer_wf self'"
    and "unat (rb_count self') = unat (rb_count self) - unat n"
    and "ring_buffer_ptr self' i = ring_buffer_ptr self (i + unat n)"
proof -
  note wfD = ring_wfD [OF wf]
  show "ring_buffer_drop self n = Inr (True, self')"
    using wfD(1) n
    by (auto simp: ring_buffer_drop_def ring_buffer_count_def self'_def word_less_nat_alt)
  have hd_sum: "unat (rb_head self + n) = unat (rb_head self) + unat n"
    using n wfD by (intro unat_plus_no_wrap) simp
  have hd: "unat ((rb_head self + n) mod rb_capacity self)
        = (unat (rb_head self) + unat n) mod unat (rb_capacity self)"
    by (simp add: ring_simps hd_sum)
  have head': "unat (rb_head self') = (unat (rb_head self) + unat n) mod unat (rb_capacity self)"
    using hd by (simp add: self'_def)
  have caps: "rb_capacity self' = rb_capacity self" "rb_element_size self' = rb_element_size self"
    by (simp_all add: self'_def)
  show cnt: "unat (rb_count self') = unat (rb_count self) - unat n"
    using n by (simp add: self'_def unat_minus_le)
  have "unat (rb_tail self)
      = (unat (rb_head self) + unat n + (unat (rb_count self) - unat n)) mod unat (rb_capacity self)"
    using wf n by (simp add: ring_buffer_wf_def)
  also have "\<dots> = ((unat (rb_head self) + unat n) mod unat (rb_capacity self)
      + (unat (rb_count self) - unat n)) mod unat (rb_capacity self)"
    by (rule mod_add_left_eq [symmetric])
  finally show "ring_buffer_wf self'"
    using wfD unfolding ring_buffer_wf_def self'_def
    by (simp add: hd unat_minus_le [OF n] le_diff_conv trans_le_add1)
  show "ring_buffer_ptr self' i = ring_buffer_ptr self (i + unat n)"
    unfolding ring_buffer_ptr_def
    by (simp only: head' caps mod_add_left_eq add.assoc add.commute [of i])
qed

lemma ring_drop_contents:
  assumes wf: "ring_buffer_wf self" and n: "unat n \<le> unat (rb_count self)"
  obtains self' where "ring_buffer_drop self n = Inr (True, self')"
    and "ring_buffer_wf self'"
    and "rb_buffer self' = rb_buffer self" and "rb_capacity self' = rb_capacity self"
    and "\<forall>i. ring_buffer_ptr self' i = ring_buffer_ptr self (i + unat n)"
    and "ring_buffer_contents self' = drop (unat n) (ring_buffer_contents self)"
proof -
  let ?self' = "self\<lparr>rb_count := rb_count self - n,
                     rb_head := (rb_head self + n) mod rb_capacity self\<rparr>"
  note d = ring_drop_ptr [OF wf n]
  obtain m where m: "rb_buffer self = Some m" using ring_wfD(1) [OF wf] by blast
  have m': "rb_buffer ?self' = Some m" using m by simp
  have len: "length (ring_buffer_contents ?self') = unat (rb_count self) - unat n"
    using length_ring_contents [OF d(2)] d(3) by simp
  have "ring_buffer_contents ?self' = drop (unat n) (ring_buffer_contents self)"
  proof (rule nth_equalityI)
    fix i
    assume "i < length (ring_buffer_contents ?self')"
    then have i: "i < unat (rb_count self) - unat n" by (simp only: len)
    have "ring_buffer_contents ?self' ! i = m (ring_buffer_ptr self (i + unat n))"
      using i by (simp only: ring_contents_nth [OF m'] d(3) d(4))
    then show "ring_buffer_contents ?self' ! i = drop (unat n) (ring_buffer_contents self) ! i"
      using i n by (simp add: wf ring_contents_nth [OF m] add.commute)
  qed (simp only: len length_drop length_ring_contents [OF wf])
  with d show ?thesis by (intro that [of ?self']) simp_all
qed

lemma ring_pop:
  assumes wf: "ring_buffer_wf self" and ne: "\<not> ring_buffer_is_empty self"
  obtains self' where
    "ring_buffer_pop self = Inr (Some (ring_buffer_ptr self 0), self')"
    and "ring_buffer_wf self'"
    and "ring_buffer_contents self' = tl (ring_buffer_contents self)"
proof -
  have "unat (1 :: guint32) \<le> unat (rb_count self)"
    using ne by (simp add: ring_buffer_is_empty_def word_unat_eq_iff)
  from ring_drop_contents [OF wf this] obtain self' where self':
    "ring_buffer_drop self 1 = Inr (True, self')" "ring_buffer_wf self'"
    "ring_buffer_contents self' = drop (unat (1 :: guint32)) (ring_buffer_contents self)" by blast
  have "ring_buffer_pop self = Inr (Some (ring_buffer_ptr self 0), self')"
    using ne self'(1) ring_ptr_head [OF wf] ring_wfD(1) [OF wf]
    by (auto simp: ring_buffer_pop_def ring_buffer_drop_def split: if_splits)
  with self' show ?thesis by (intro that) (simp_all add: drop_Suc)
qed

lemma ring_store:
  assumes wf: "ring_buffer_wf self" and i: "i < unat (rb_capacity self)"
  obtains self' where "ring_buffer_store self (Some (ring_buffer_ptr self i)) x = Inr self'"
    and "ring_buffer_wf self'"
    and "rb_count self' = rb_count self" and "rb_capacity self' = rb_capacity self"
    and "ring_buffer_ptr self' = ring_buffer_ptr self"
    and "\<exists>m. rb_buffer self' = Some m \<and> m (ring_buffer_ptr self i) = x"
    and "ring_buffer_contents self' = (ring_buffer_contents self)[i := x]"
proof -
  obtain m where m: "rb_buffer self = Some m" using ring_wfD(1) [OF wf] by blast
  let ?self' = "self\<lparr>rb_buffer := Some (m(ring_buffer_ptr self i := x))\<rparr>"
  have st: "ring_buffer_store self (Some (ring_buffer_ptr self i)) x = Inr ?self'"
    by (simp add: ring_buffer_store_def m)
  have wf': "ring_buffer_wf ?self'" using wf by (simp add: ring_buffer_wf_def)
  have ptr: "ring_buffer_ptr ?self' = ring_buffer_ptr self"
    by (simp add: ring_buffer_ptr_def fun_eq_iff)
  have "ring_buffer_contents ?self' ! j = (ring_buffer_contents self)[i := x] ! j"
    if "j < unat (rb_count self)" for j
  proof -
    have "j < unat (rb_capacity self)" using that ring_wfD(5) [OF wf] by simp
    then have "ring_buffer_ptr self j = ring_buffer_ptr self i \<longleftrightarrow> j = i"
      using ring_ptr_inj [OF wf _ i] by auto
    then show ?thesis
      using that by (simp add: ring_buffer_contents_def m ptr nth_list_update)
  qed
  then have "ring_buffer_contents ?self' = (ring_buffer_contents self)[i := x]"
    by (intro nth_equalityI) (simp_all add: wf wf')
  with st wf' ptr show ?thesis by (intro that) simp_all
qed

text \<open>The ring slot by slot, counted from the head; the slots from \<open>rb_count\<close> on are free.\<close>

definition ring_slot :: "'a RingBuffer \<Rightarrow> nat \<Rightarrow> 'a" where
  "ring_slot self i = the (rb_buffer self) (ring_buffer_ptr self i)"

lemma ring_contents_slots:
  assumes "ring_buffer_wf self"
  shows "ring_buffer_contents self = map (ring_slot self) [0..<unat (rb_count self)]"
  using ring_wfD(1) [OF assms] by (auto simp: ring_buffer_contents_def ring_slot_def)

lemma ring_deref_slot:
  assumes "ring_buffer_wf self"
  shows "ring_buffer_deref self (Some (ring_buffer_ptr self i)) = Inr (ring_slot self i)"
  using ring_wfD(1) [OF assms] by (auto simp: ring_buffer_deref_def ring_slot_def)

lemma ring_store_slot:
  assumes wf: "ring_buffer_wf self" and i: "i < unat (rb_capacity self)"
  obtains self' where "ring_buffer_store self (Some (ring_buffer_ptr self i)) x = Inr self'"
    and "ring_buffer_wf self'"
    and "rb_count self' = rb_count self" and "rb_capacity self' = rb_capacity self"
    and "ring_buffer_ptr self' = ring_buffer_ptr self"
    and "\<forall>j < unat (rb_capacity self). ring_slot self' j = (if j = i then x else ring_slot self j)"
proof -
  obtain m where m: "rb_buffer self = Some m" using ring_wfD(1) [OF wf] by blast
  let ?self' = "self\<lparr>rb_buffer := Some (m(ring_buffer_ptr self i := x))\<rparr>"
  have ptr: "ring_buffer_ptr ?self' = ring_buffer_ptr self"
    by (simp add: ring_buffer_ptr_def fun_eq_iff)
  have "ring_slot ?self' j = (if j = i then x else ring_slot self j)"
    if "j < unat (rb_capacity self)" for j
    using ring_ptr_inj [OF wf that i] by (auto simp: ring_slot_def ptr m)
  moreover have "ring_buffer_wf ?self'" using wf by (simp add: ring_buffer_wf_def)
  ultimately show ?thesis
    by (intro that [of ?self']) (simp_all add: ring_buffer_store_def m ptr)
qed

text \<open>The loop of \<open>ring_buffer_get_continual_range_length\<close> counts the longest prefix that satisfies
  the predicate.\<close>

lemma ring_range_loop:
  assumes wf: "ring_buffer_wf self" and "unat i \<le> unat (rb_count self)"
    and "unat r = unat i"
  shows "\<exists>n. ring_buffer_range_loop self pred i r = Inr n \<and>
           unat n = unat i + length (takeWhile pred (drop (unat i) (ring_buffer_contents self)))"
  using assms
proof (induction self pred i r rule: ring_buffer_range_loop.induct)
  case (1 self pred i r)
  obtain m where m: "rb_buffer self = Some m" using ring_wfD(1) [OF "1.prems"(1)] by blast
  show ?case
  proof (cases "i < rb_count self")
    case False
    with "1.prems" show ?thesis
      by (simp add: ring_buffer_range_loop.simps ring_buffer_count_def word_less_nat_alt)
  next
    case True
    then have lt: "unat i < unat (rb_count self)" by (simp add: word_less_nat_alt)
    have sc: "unat (i + 1) = Suc (unat i)" by (rule unat_Suc_less [OF True])
    have "r = i" using "1.prems"(3) by (simp add: word_unat_eq_iff)
    then have scr: "unat (r + 1) = Suc (unat i)" using sc by simp
    have at: "ring_buffer_element_at self i = Inr (Some (ring_buffer_ptr self (unat i)))"
      using lt by (simp add: ring_element_at [OF "1.prems"(1)])
    let ?e = "m (ring_buffer_ptr self (unat i))"
    have df: "ring_buffer_deref self (Some (ring_buffer_ptr self (unat i))) = Inr ?e"
      by (simp add: ring_buffer_deref_def m)
    have dr: "drop (unat i) (ring_buffer_contents self)
                = ?e # drop (Suc (unat i)) (ring_buffer_contents self)"
      using lt "1.prems"(1) by (simp add: Cons_nth_drop_Suc [symmetric] ring_contents_nth [OF m])
    show ?thesis
    proof (cases "pred ?e")
      case False
      then show ?thesis
        using True "1.prems"(3)
        by (simp add: ring_buffer_range_loop.simps [of self pred i r] ring_buffer_count_def at df dr)
    next
      case pe: True
      have "\<exists>n. ring_buffer_range_loop self pred (i + 1) (r + 1) = Inr n \<and>
          unat n = unat (i + 1)
            + length (takeWhile pred (drop (unat (i + 1)) (ring_buffer_contents self)))"
        using "1.IH" [OF _ at df] True pe lt sc scr "1.prems"(1)
        by (simp add: ring_buffer_count_def)
      then show ?thesis
        using True pe sc
        by (simp add: ring_buffer_range_loop.simps [of self pred i r] ring_buffer_count_def at df dr)
    qed
  qed
qed

lemma ring_continual_range_length:
  assumes "ring_buffer_wf self"
  shows "\<exists>n. ring_buffer_get_continual_range_length self pred = Inr n \<and>
           unat n = length (takeWhile pred (ring_buffer_contents self))"
  using ring_range_loop [OF assms, of 0 0 pred] ring_wfD(1) [OF assms]
  by (auto simp: ring_buffer_get_continual_range_length_def)

section \<open>Refinement of the bounded queue\<close>

lemma ring_exec_push:
  assumes wf: "ring_buffer_wf self"
  shows "\<exists>out self'. ring_exec (Push x) self = Inr (out, self') \<and> ring_buffer_wf self' \<and>
           rb_capacity self' = rb_capacity self \<and>
           (out, ring_buffer_contents self')
             = queue_exec (unat (rb_capacity self)) (Push x) (ring_buffer_contents self)"
proof (cases "ring_buffer_is_full self")
  case True
  then show ?thesis
    using wf ring_not_full_iff [OF wf] by (simp add: ring_exec_def ring_push_full queue_exec_def)
next
  case False
  let ?p = "ring_buffer_ptr self (unat (rb_count self))"
  obtain m where m: "rb_buffer self = Some m" using ring_wfD(1) [OF wf] by blast
  from ring_push [OF wf False] obtain s1 where s1:
    "ring_buffer_push self = Inr (Some ?p, s1)" "ring_buffer_wf s1" "rb_buffer s1 = rb_buffer self"
    "rb_capacity s1 = rb_capacity self" "unat (rb_count s1) = Suc (unat (rb_count self))"
    "ring_buffer_ptr s1 = ring_buffer_ptr self" .
  have room: "unat (rb_count self) < unat (rb_capacity s1)"
    using False s1(4) by (simp add: ring_not_full_iff [OF wf])
  from ring_store [OF s1(2) room, of x] obtain s2 where s2:
    "ring_buffer_store s1 (Some ?p) x = Inr s2" "ring_buffer_wf s2" "rb_capacity s2 = rb_capacity s1"
    "ring_buffer_contents s2 = (ring_buffer_contents s1)[unat (rb_count self) := x]"
    by (metis s1(6))
  have "ring_buffer_contents s2 = ring_buffer_contents self @ [x]"
    using ring_push_contents [OF wf s1(2) m _ s1(5,6)] s1(3) m s2(4)
    by (simp add: length_ring_contents [OF wf, symmetric] del: length_ring_contents)
  then show ?thesis
    using s1 s2 room wf by (simp add: ring_exec_def queue_exec_def)
qed

lemma ring_exec_pop:
  assumes wf: "ring_buffer_wf self"
  shows "\<exists>out self'. ring_exec Pop self = Inr (out, self') \<and> ring_buffer_wf self' \<and>
           rb_capacity self' = rb_capacity self \<and>
           (out, ring_buffer_contents self')
             = queue_exec (unat (rb_capacity self)) Pop (ring_buffer_contents self)"
proof (cases "ring_buffer_is_empty self")
  case True
  then have "ring_buffer_contents self = []"
    using length_ring_contents [OF wf] by (simp add: ring_buffer_is_empty_def)
  with True show ?thesis
    using wf ring_wfD(1) [OF wf] by (auto simp: ring_exec_def ring_buffer_pop_def queue_exec_def)
next
  case False
  obtain m where m: "rb_buffer self = Some m" using ring_wfD(1) [OF wf] by blast
  from ring_pop [OF wf False] obtain self' where self':
    "ring_buffer_pop self = Inr (Some (ring_buffer_ptr self 0), self')" "ring_buffer_wf self'"
    "ring_buffer_contents self' = tl (ring_buffer_contents self)" .
  have rest: "rb_buffer self' = Some m" "rb_capacity self' = rb_capacity self"
    using self'(1) False m by (auto simp: ring_buffer_pop_def)
  have cnt: "0 < unat (rb_count self)"
    using False by (simp add: ring_buffer_is_empty_def word_unat_eq_iff)
  then obtain x xs where xs: "ring_buffer_contents self = x # xs"
    using length_ring_contents [OF wf] by (cases "ring_buffer_contents self") auto
  have "m (ring_buffer_ptr self 0) = x"
    using ring_contents_nth [OF m cnt] xs by simp
  then show ?thesis
    using self' rest xs by (simp add: ring_exec_def ring_buffer_deref_def queue_exec_def)
qed

lemma ring_exec_drop:
  assumes wf: "ring_buffer_wf self"
  shows "\<exists>out self'. ring_exec (Drop n) self = Inr (out, self') \<and> ring_buffer_wf self' \<and>
           rb_capacity self' = rb_capacity self \<and>
           (out, ring_buffer_contents self')
             = queue_exec (unat (rb_capacity self)) (Drop n) (ring_buffer_contents self)"
proof (cases "unat n \<le> unat (rb_count self)")
  case True
  from ring_drop_contents [OF wf True] obtain self' where
    "ring_buffer_drop self n = Inr (True, self')" "ring_buffer_wf self'"
    "rb_capacity self' = rb_capacity self"
    "ring_buffer_contents self' = drop (unat n) (ring_buffer_contents self)" .
  then show ?thesis
    using True wf by (simp add: ring_exec_def queue_exec_def)
next
  case False
  then have "rb_count self < n" by (simp add: word_less_nat_alt)
  then show ?thesis
    using False wf ring_wfD(1) [OF wf]
    by (auto simp: ring_exec_def ring_buffer_drop_def ring_buffer_count_def queue_exec_def)
qed

lemma ring_exec_refines:
  assumes wf: "ring_buffer_wf self"
  shows "\<exists>out self'. ring_exec ins self = Inr (out, self') \<and> ring_buffer_wf self' \<and>
           rb_capacity self' = rb_capacity self \<and>
           (out, ring_buffer_contents self')
             = queue_exec (unat (rb_capacity self)) ins (ring_buffer_contents self)"
proof (cases ins)
  case (ElementAt i)
  obtain m where m: "rb_buffer self = Some m" using ring_wfD(1) [OF wf] by blast
  show ?thesis
    using wf ring_contents_nth [OF m, of "unat i"]
    by (simp add: ElementAt ring_exec_def ring_element_at [OF wf] ring_buffer_deref_def m queue_exec_def)
next
  case (RangeLength pred)
  then show ?thesis
    using wf ring_continual_range_length [OF wf, of pred] by (auto simp: ring_exec_def queue_exec_def)
qed (use ring_exec_push [OF wf] ring_exec_pop [OF wf] ring_exec_drop [OF wf] in blast)+

lemma ring_run_refines:
  assumes "ring_buffer_wf self"
  shows "\<exists>outs self'. ring_run ops self = Inr (outs, self') \<and> ring_buffer_wf self' \<and>
           (outs, ring_buffer_contents self')
             = queue_run (unat (rb_capacity self)) ops (ring_buffer_contents self)"
  using assms
proof (induction ops arbitrary: self)
  case (Cons ins ops)
  from ring_exec_refines [OF Cons.prems, of ins] obtain out s1 where s1:
    "ring_exec ins self = Inr (out, s1)" "ring_buffer_wf s1" "rb_capacity s1 = rb_capacity self"
    "(out, ring_buffer_contents s1)
       = queue_exec (unat (rb_capacity self)) ins (ring_buffer_contents self)"
    by (elim exE conjE)
  from Cons.IH [OF s1(2)] obtain outs s2 where s2:
    "ring_run ops s1 = Inr (outs, s2)" "ring_buffer_wf s2"
    "(outs, ring_buffer_contents s2) = queue_run (unat (rb_capacity s1)) ops (ring_buffer_contents s1)"
    by (elim exE conjE)
  show ?case
    by (simp add: s1(1-3) s2(1,2) s1(4) [symmetric] s2(3) [symmetric, unfolded s1(3)])
qed simp

text \<open>C11: A ring of \<open>capacity\<close> elements, from its allocation on, answers every sequence of push,
  pop, drop, indexed access and range-length calls exactly like a list bounded by \<open>capacity\<close>: no
  call aborts, an element is refused only when the ring is full, elements leave in the order they
  entered, and wrapping around the end of the buffer is never visible.  The allocation has to stay
  below \<open>2 ^ 32\<close> bytes and \<open>2 ^ 31\<close> elements.\<close>

theorem ring_buffer_refines_queue:
  assumes "0 < unat capacity" and "unat capacity \<le> 2 ^ 31" and "0 < unat element_size"
    and "unat capacity * unat element_size < 2 ^ 32"
  shows "\<exists>outs self.
           bindO (ring_buffer_alloc zero element_size capacity) (ring_run ops) = Inr (outs, self) \<and>
           ring_buffer_wf self \<and>
           (outs, ring_buffer_contents self) = queue_run (unat capacity) ops []"
proof -
  from ring_alloc [OF assms, of zero] obtain rb where rb:
    "ring_buffer_alloc zero element_size capacity = Inr rb" "ring_buffer_wf rb"
    "ring_buffer_contents rb = []" "rb_capacity rb = capacity" by (elim exE conjE)
  show ?thesis
    unfolding rb(1) bindO_Inr by (rule ring_run_refines [OF rb(2), of ops, unfolded rb(3,4)])
qed

theorem ring_buffer_refines_queue_witness:
  "\<exists>outs self.
     bindO (ring_buffer_alloc (0::nat) 16 2)
       (ring_run [Push 5, Push 6, Push 7, Pop, Push 8, ElementAt 1, Pop, Pop, Pop]) = Inr (outs, self) \<and>
     ring_buffer_wf self \<and>
     (outs, ring_buffer_contents self)
       = ([Done True, Done True, Done False, Element (Some 5), Done True, Element (Some 8),
           Element (Some 6), Element (Some 8), Element None], [])"
  using ring_buffer_refines_queue [of 2 16 "0::nat"
      "[Push 5, Push 6, Push 7, Pop, Push 8, ElementAt 1, Pop, Pop, Pop]"]
  by (simp add: queue_exec_def)

text \<open>C30: The bound on the allocation is needed.  The source multiplies slot number and element size
  in 32 bits although the allocation is sized in 64 bits: whenever \<open>d\<close> elements take a multiple of
  \<open>2 ^ 32\<close> bytes, the elements \<open>i\<close> and \<open>i + d\<close> of a ring (whose stored elements do not run past the
  end of the array up to there) have the same address, so filling the ring overwrites an element.\<close>

theorem ring_buffer_slots_alias:
  assumes "i + d < unat (rb_count self)" and "unat (rb_count self) \<le> unat (rb_capacity self)"
    and "unat (rb_head self) + i + d < unat (rb_capacity self)"
    and "rb_buffer self \<noteq> None" and "2 ^ 32 dvd d * unat (rb_element_size self)"
  shows "ring_buffer_element_at self (of_nat i) = ring_buffer_element_at self (of_nat (i + d))"
proof -
  have "unat (rb_capacity self) < 2 ^ 32" "unat (rb_count self) < 2 ^ 32"
    using unsigned_less [of "rb_capacity self", where 'a = nat] unsigned_less [of "rb_count self", where 'a = nat]
    by simp_all
  then have u: "unat (of_nat k :: guint32) = k" "unat (rb_head self + of_nat k) = unat (rb_head self) + k"
    if "k \<le> i + d" for k
    using that assms(1-3) by (simp_all add: unat_word_ariths unat_of_nat)
  have slot: "(rb_head self + of_nat k) mod rb_capacity self = rb_head self + of_nat k"
    "\<not> rb_count self \<le> of_nat k" if "k \<le> i + d" for k
    using u [OF that] that assms(1,3) by (simp_all add: word_unat_eq_iff word_le_nat_alt unat_mod)
  have "(of_nat (d * unat (rb_element_size self)) :: guint32) = 0"
    using assms(5) by (simp only: word_of_nat_eq_0_iff) simp
  then have "of_nat d * rb_element_size self = 0" by simp
  then have "(rb_head self + of_nat (i + d)) * rb_element_size self = (rb_head self + of_nat i) * rb_element_size self"
    by (simp add: distrib_right)
  then show ?thesis
    using slot [of i] slot [of "i + d"] assms(4) by (simp add: ring_buffer_element_at_def del: of_nat_add)
qed

definition huge_ring :: "nat RingBuffer" where
  "huge_ring =
     \<lparr>rb_buffer = Some (\<lambda>_. 0), rb_head = 0, rb_tail = 70000, rb_count = 70000, rb_capacity = 80000,
      rb_element_size = 2 ^ 16\<rparr>"

theorem ring_buffer_slots_alias_witness:
  "ring_buffer_element_at huge_ring 3 = ring_buffer_element_at huge_ring 65539"
  using ring_buffer_slots_alias [of 3 "2 ^ 16" huge_ring] by (simp add: huge_ring_def)

end
