(* ===== verification/Ack_Types.thy ===== *)
theory Ack_Types
  imports Prelude
begin

text \<open>
  Bookmarks and acknowledgement records, shared by the acknowledgement trackers:
  \<^verbatim>\<open>lib/ack-tracker/bookmark.h\<close>, \<^verbatim>\<open>ack_tracker.h\<close> and the record type of
  \<^verbatim>\<open>consecutive_ack_record_container.h\<close>.  Calls to code outside the trackers (bookmark
  callbacks, flow control of the source) are recorded as effects.
\<close>

section \<open>Bookmarks and acknowledgement records\<close>

text \<open>Addresses of objects and functions outside this component are numbers, \<open>None\<close> is
  \<^verbatim>\<open>NULL\<close>.\<close>

type_synonym address = "nat option"

record Bookmark =
  bm_persist_state :: address
  bm_save :: address
  bm_destroy :: address
  bm_container :: "64 word list"

record AckRecord =
  ar_tracker :: address
  ar_bookmark :: Bookmark

record ConsecutiveAckRecord = AckRecord +
  car_acked :: bool

datatype AckType = AT_UNDEFINED | AT_PROCESSED | AT_ABORTED | AT_SUSPENDED

text \<open>The calls that leave the component are recorded in the order they are made.\<close>

datatype effect =
  CallSave nat Bookmark
| CallDestroy nat Bookmark
| FlowControlSuspend
| FlowControlAdjust guint32
| FlowControlAdjustWhenSuspended guint32
| CallOnAllAcked nat address
| CallUserDataFree nat address

definition bookmark_save :: "Bookmark \<Rightarrow> effect list" where
  "bookmark_save self = (case bm_save self of None \<Rightarrow> [] | Some f \<Rightarrow> [CallSave f self])"

definition bookmark_destroy :: "Bookmark \<Rightarrow> effect list" where
  "bookmark_destroy self = (case bm_destroy self of None \<Rightarrow> [] | Some f \<Rightarrow> [CallDestroy f self])"

definition consecutive_ack_record_destroy :: "ConsecutiveAckRecord \<Rightarrow> effect list" where
  "consecutive_ack_record_destroy self = bookmark_destroy (ar_bookmark self)"

definition zero_bookmark :: Bookmark where
  "zero_bookmark =
     \<lparr>bm_persist_state = None, bm_save = None, bm_destroy = None, bm_container = replicate 16 0\<rparr>"

definition zero_record :: ConsecutiveAckRecord where
  "zero_record = \<lparr>ar_tracker = None, ar_bookmark = zero_bookmark, car_acked = False\<rparr>"

end
