(* ===== verification/Ack_Records.thy ===== *)
theory Ack_Records
  imports Ring_Buffer Ack_Types
begin

text \<open>
  The containers of acknowledgement records: the interface of
  \<^verbatim>\<open>lib/ack-tracker/consecutive_ack_record_container.h\<close> and its two implementations, the ring of
  \<^verbatim>\<open>consecutive_ack_record_container_static.c\<close> and the linked list of
  \<^verbatim>\<open>consecutive_ack_record_container_dynamic.c\<close>.  The table of function pointers of the
  source is a record of functions; its contract is the locale \<open>ack_record_container\<close>, which both
  tables are shown to satisfy.
\<close>

section \<open>The table of operations\<close>

text \<open>
  \<open>'s\<close> is the state of a container and \<open>'r\<close> a record address.  The last two components read and
  write the record behind an address: the tracker and the messages keep such addresses.
\<close>

record ('s, 'r) ConsecutiveAckRecordContainer =
  is_empty_fn :: "'s \<Rightarrow> bool"
  request_pending_fn :: "'s \<Rightarrow> ('r option \<times> 's) outcome"
  store_pending_fn :: "'s \<Rightarrow> 's outcome"
  drop_fn :: "'s \<Rightarrow> guint64 \<Rightarrow> (effect list \<times> 's) outcome"
  at_fn :: "'s \<Rightarrow> guint64 \<Rightarrow> 'r option outcome"
  free_fn :: "'s \<Rightarrow> effect list outcome"
  size_fn :: "'s \<Rightarrow> guint64"
  get_continual_range_length_fn :: "'s \<Rightarrow> guint64 outcome"
  read_record :: "'s \<Rightarrow> 'r option \<Rightarrow> ConsecutiveAckRecord outcome"
  write_record :: "'s \<Rightarrow> 'r option \<Rightarrow> ConsecutiveAckRecord \<Rightarrow> 's outcome"

definition consecutive_ack_record_container_drop ::
  "('s, 'r) ConsecutiveAckRecordContainer \<Rightarrow> 's \<Rightarrow> guint64 \<Rightarrow> (effect list \<times> 's) outcome" where
  "consecutive_ack_record_container_drop vt s n = g_assert (n \<le> size_fn vt s) (drop_fn vt s n)"

section \<open>The static container\<close>

record StaticConsecutiveAckRecordContainer =
  st_ack_records :: "ConsecutiveAckRecord RingBuffer"
  st_pending :: "guint32 option"

definition static_is_empty :: "StaticConsecutiveAckRecordContainer \<Rightarrow> bool" where
  "static_is_empty self = ring_buffer_is_empty (st_ack_records self)"

definition static_request_pending ::
  "StaticConsecutiveAckRecordContainer
     \<Rightarrow> (guint32 option \<times> StaticConsecutiveAckRecordContainer) outcome" where
  "static_request_pending self =
     (if st_pending self \<noteq> None then Inr (st_pending self, self)
      else bindO (ring_buffer_tail (st_ack_records self)) (\<lambda>p. Inr (p, self\<lparr>st_pending := p\<rparr>)))"

definition static_store_pending ::
  "StaticConsecutiveAckRecordContainer \<Rightarrow> StaticConsecutiveAckRecordContainer outcome" where
  "static_store_pending self =
     bindO (ring_buffer_push (st_ack_records self)) (\<lambda>(p, ring).
       g_assert (p = st_pending self) (Inr (self\<lparr>st_ack_records := ring, st_pending := None\<rparr>)))"

text \<open>The loop of \<^verbatim>\<open>_drop\<close>: each dropped slot is reset before the ring releases it.\<close>

function static_drop_loop ::
  "ConsecutiveAckRecord RingBuffer \<Rightarrow> nat \<Rightarrow> nat
     \<Rightarrow> (effect list \<times> ConsecutiveAckRecord RingBuffer) outcome" where
  "static_drop_loop ring n i =
     (if i < n
      then bindO (ring_buffer_element_at ring (of_nat i)) (\<lambda>p.
             bindO (ring_buffer_deref ring p) (\<lambda>ack_rec.
               bindO (ring_buffer_store ring p
                        (ack_rec\<lparr>car_acked := False,
                                 ar_bookmark := (ar_bookmark ack_rec)
                                   \<lparr>bm_save := None, bm_destroy := None\<rparr>\<rparr>)) (\<lambda>ring'.
                 bindO (static_drop_loop ring' n (Suc i)) (\<lambda>(effs, ring'').
                   Inr (consecutive_ack_record_destroy ack_rec @ effs, ring'')))))
      else Inr ([], ring))"
  by pat_completeness auto
termination
  by (relation "measure (\<lambda>(ring, n, i). n - i)") auto

declare static_drop_loop.simps [simp del]

definition static_drop ::
  "StaticConsecutiveAckRecordContainer \<Rightarrow> guint64
     \<Rightarrow> (effect list \<times> StaticConsecutiveAckRecordContainer) outcome" where
  "static_drop self n =
     bindO (static_drop_loop (st_ack_records self) (unat n) 0) (\<lambda>(effs, ring).
       bindO (ring_buffer_drop ring (ucast n)) (\<lambda>(_, ring').
         Inr (effs, self\<lparr>st_ack_records := ring'\<rparr>)))"

definition static_at ::
  "StaticConsecutiveAckRecordContainer \<Rightarrow> guint64 \<Rightarrow> guint32 option outcome" where
  "static_at self idx = ring_buffer_element_at (st_ack_records self) (ucast idx)"

definition static_free :: "StaticConsecutiveAckRecordContainer \<Rightarrow> effect list outcome" where
  "static_free self =
     bindO (static_drop self (ucast (ring_buffer_count (st_ack_records self)))) (\<lambda>(effs, _). Inr effs)"

definition static_size :: "StaticConsecutiveAckRecordContainer \<Rightarrow> guint64" where
  "static_size self = ucast (ring_buffer_count (st_ack_records self))"

definition static_get_continual_range_length ::
  "StaticConsecutiveAckRecordContainer \<Rightarrow> guint64 outcome" where
  "static_get_continual_range_length self =
     bindO (ring_buffer_get_continual_range_length (st_ack_records self) car_acked)
       (\<lambda>n. Inr (ucast n))"

definition static_write ::
  "StaticConsecutiveAckRecordContainer \<Rightarrow> guint32 option \<Rightarrow> ConsecutiveAckRecord
     \<Rightarrow> StaticConsecutiveAckRecordContainer outcome" where
  "static_write self p x =
     bindO (ring_buffer_store (st_ack_records self) p x)
       (\<lambda>ring. Inr (self\<lparr>st_ack_records := ring\<rparr>))"

definition static_ops ::
  "(StaticConsecutiveAckRecordContainer, guint32) ConsecutiveAckRecordContainer" where
  "static_ops =
     \<lparr>is_empty_fn = static_is_empty, request_pending_fn = static_request_pending,
      store_pending_fn = static_store_pending, drop_fn = static_drop, at_fn = static_at,
      free_fn = static_free, size_fn = static_size,
      get_continual_range_length_fn = static_get_continual_range_length,
      read_record = (\<lambda>self. ring_buffer_deref (st_ack_records self)), write_record = static_write\<rparr>"

text \<open>\<^verbatim>\<open>sizeof(ConsecutiveAckRecord)\<close> on a 64 bit target: the tracker pointer, three pointers and
  128 bytes of the bookmark, and the flag with its padding.\<close>

definition sizeof_ConsecutiveAckRecord :: guint32 where
  "sizeof_ConsecutiveAckRecord = 8 + (3 * 8 + 128) + 8"

definition consecutive_ack_record_container_static_new ::
  "guint64 \<Rightarrow> StaticConsecutiveAckRecordContainer outcome" where
  "consecutive_ack_record_container_static_new sz =
     bindO (ring_buffer_alloc zero_record sizeof_ConsecutiveAckRecord (ucast sz))
       (\<lambda>ring. Inr \<lparr>st_ack_records = ring, st_pending = None\<rparr>)"

section \<open>The dynamic container\<close>

text \<open>
  The records live in a heap; \<open>dy_head\<close> is the chain of list cells from the head pointer on, each
  cell with its own address and the record address it carries; \<open>dy_tail\<close> is the address of a cell.
  Freed records leave the heap, so a stale access is the abort \<open>UseAfterFree\<close>.
\<close>

record DynamicConsecutiveAckRecordContainer =
  dy_heap :: "nat \<Rightarrow> ConsecutiveAckRecord option"
  dy_brk :: nat
  dy_head :: "(nat \<times> address) list"
  dy_tail :: address
  dy_size :: guint64
  dy_pending :: address

definition heap_read :: "(nat \<Rightarrow> ConsecutiveAckRecord option) \<Rightarrow> address \<Rightarrow> ConsecutiveAckRecord outcome" where
  "heap_read h p =
     (case p of
        None \<Rightarrow> Inl NullDereference
      | Some a \<Rightarrow> (case h a of None \<Rightarrow> Inl UseAfterFree | Some x \<Rightarrow> Inr x))"

definition dynamic_is_empty :: "DynamicConsecutiveAckRecordContainer \<Rightarrow> bool" where
  "dynamic_is_empty self = (dy_head self = [] \<or> dy_size self = 0)"

definition dynamic_request_pending ::
  "DynamicConsecutiveAckRecordContainer
     \<Rightarrow> (address \<times> DynamicConsecutiveAckRecordContainer) outcome" where
  "dynamic_request_pending self =
     (if dy_pending self \<noteq> None then Inr (dy_pending self, self)
      else Inr (Some (dy_brk self),
                self\<lparr>dy_heap := (dy_heap self)(dy_brk self \<mapsto> zero_record),
                     dy_pending := Some (dy_brk self), dy_brk := Suc (dy_brk self)\<rparr>))"

fun cell_after :: "nat \<Rightarrow> (nat \<times> address) list \<Rightarrow> address" where
  "cell_after c (x # y # cells) = (if fst x = c then Some (fst y) else cell_after c (y # cells))"
| "cell_after c cells = None"

definition dynamic_store_pending ::
  "DynamicConsecutiveAckRecordContainer \<Rightarrow> DynamicConsecutiveAckRecordContainer outcome" where
  "dynamic_store_pending self =
     (let cell = dy_brk self;
          head = dy_head self @ [(cell, dy_pending self)];
          self' = self\<lparr>dy_brk := Suc cell, dy_head := head, dy_size := dy_size self + 1,
                       dy_pending := None\<rparr>
      in if dy_head self = [] then Inr (self'\<lparr>dy_tail := Some cell\<rparr>)
         else (case dy_tail self of
                 None \<Rightarrow> Inl AssertionFailed
               | Some t \<Rightarrow> Inr (self'\<lparr>dy_tail := cell_after t head\<rparr>)))"

fun free_and_destroy_ack_records ::
  "(nat \<times> address) list \<Rightarrow> (nat \<Rightarrow> ConsecutiveAckRecord option)
     \<Rightarrow> (effect list \<times> (nat \<Rightarrow> ConsecutiveAckRecord option)) outcome" where
  "free_and_destroy_ack_records [] h = Inr ([], h)"
| "free_and_destroy_ack_records ((_, p) # cells) h =
     bindO (heap_read h p) (\<lambda>rec.
       bindO (free_and_destroy_ack_records cells (h(the p := None))) (\<lambda>(effs, h').
         Inr (consecutive_ack_record_destroy rec @ effs, h')))"

definition dynamic_drop ::
  "DynamicConsecutiveAckRecordContainer \<Rightarrow> guint64
     \<Rightarrow> (effect list \<times> DynamicConsecutiveAckRecordContainer) outcome" where
  "dynamic_drop self n =
     (if n = dy_size self
      then bindO (free_and_destroy_ack_records (dy_head self) (dy_heap self)) (\<lambda>(effs, h).
             Inr (effs, self\<lparr>dy_heap := h, dy_head := [], dy_tail := None, dy_size := 0\<rparr>))
      else let last = unat (ucast (n - 1) :: guint32) in
           if Suc last < length (dy_head self)
           then bindO (free_and_destroy_ack_records (take (Suc last) (dy_head self)) (dy_heap self))
                  (\<lambda>(effs, h).
                     Inr (effs, self\<lparr>dy_heap := h, dy_head := drop (Suc last) (dy_head self),
                                     dy_size := dy_size self - n\<rparr>))
           else Inl NullDereference)"

definition dynamic_at ::
  "DynamicConsecutiveAckRecordContainer \<Rightarrow> guint64 \<Rightarrow> address outcome" where
  "dynamic_at self idx =
     (let i = unat (ucast idx :: guint32) in
      if i < length (dy_head self) then Inr (snd (dy_head self ! i)) else Inl NullDereference)"

definition dynamic_free :: "DynamicConsecutiveAckRecordContainer \<Rightarrow> effect list outcome" where
  "dynamic_free self =
     bindO (if dy_pending self = None then Inr ([], dy_heap self)
            else free_and_destroy_ack_records [(0, dy_pending self)] (dy_heap self)) (\<lambda>(effs, h).
       bindO (free_and_destroy_ack_records (dy_head self) h) (\<lambda>(effs', _). Inr (effs @ effs')))"

definition dynamic_size :: "DynamicConsecutiveAckRecordContainer \<Rightarrow> guint64" where
  "dynamic_size self = dy_size self"

fun dynamic_range_loop ::
  "(nat \<Rightarrow> ConsecutiveAckRecord option) \<Rightarrow> (nat \<times> address) list \<Rightarrow> guint32 \<Rightarrow> guint32 outcome" where
  "dynamic_range_loop h [] n = Inr n"
| "dynamic_range_loop h ((_, p) # cells) n =
     bindO (heap_read h p) (\<lambda>rec.
       if car_acked rec then dynamic_range_loop h cells (n + 1) else Inr n)"

definition dynamic_get_continual_range_length ::
  "DynamicConsecutiveAckRecordContainer \<Rightarrow> guint64 outcome" where
  "dynamic_get_continual_range_length self =
     bindO (dynamic_range_loop (dy_heap self) (dy_head self) 0) (\<lambda>n. Inr (ucast n))"

definition dynamic_write ::
  "DynamicConsecutiveAckRecordContainer \<Rightarrow> address \<Rightarrow> ConsecutiveAckRecord
     \<Rightarrow> DynamicConsecutiveAckRecordContainer outcome" where
  "dynamic_write self p x =
     bindO (heap_read (dy_heap self) p) (\<lambda>_.
       Inr (self\<lparr>dy_heap := (dy_heap self)(the p \<mapsto> x)\<rparr>))"

definition dynamic_ops ::
  "(DynamicConsecutiveAckRecordContainer, nat) ConsecutiveAckRecordContainer" where
  "dynamic_ops =
     \<lparr>is_empty_fn = dynamic_is_empty, request_pending_fn = dynamic_request_pending,
      store_pending_fn = dynamic_store_pending, drop_fn = dynamic_drop, at_fn = dynamic_at,
      free_fn = dynamic_free, size_fn = dynamic_size,
      get_continual_range_length_fn = dynamic_get_continual_range_length,
      read_record = (\<lambda>self. heap_read (dy_heap self)), write_record = dynamic_write\<rparr>"

definition consecutive_ack_record_container_dynamic_new :: DynamicConsecutiveAckRecordContainer where
  "consecutive_ack_record_container_dynamic_new =
     \<lparr>dy_heap = Map.empty, dy_brk = 0, dy_head = [], dy_tail = None, dy_size = 0,
      dy_pending = None\<rparr>"

section \<open>The contract\<close>

text \<open>
  \<open>records\<close> is the sequence of stored records with their addresses, \<open>pending\<close> the address handed
  out by \<^verbatim>\<open>request_pending\<close> and not stored yet, \<open>limit\<close> the number of records after which a
  request is refused (\<open>None\<close>: never).  A pending record is never marked as acknowledged.
\<close>

locale ack_record_container =
  fixes vt :: "('s, 'r) ConsecutiveAckRecordContainer"
    and invar :: "'s \<Rightarrow> bool"
    and records :: "'s \<Rightarrow> ('r \<times> ConsecutiveAckRecord) list"
    and pending :: "'s \<Rightarrow> 'r option"
    and limit :: "'s \<Rightarrow> nat option"
  assumes records_distinct: "invar s \<Longrightarrow> distinct (map fst (records s))"
    and records_short: "invar s \<Longrightarrow> length (records s) < 2 ^ 32"
    and pending_record:
      "invar s \<Longrightarrow> pending s = Some r \<Longrightarrow>
         r \<notin> fst ` set (records s) \<and> (\<exists>x. read_record vt s (Some r) = Inr x \<and> \<not> car_acked x)"
    and is_empty_law: "invar s \<Longrightarrow> is_empty_fn vt s \<longleftrightarrow> records s = []"
    and size_law: "invar s \<Longrightarrow> unat (size_fn vt s) = length (records s)"
    and at_law:
      "invar s \<Longrightarrow> unat idx < length (records s) \<Longrightarrow>
         at_fn vt s idx = Inr (Some (fst (records s ! unat idx)))"
    and range_law:
      "invar s \<Longrightarrow> get_continual_range_length_fn vt s
         = Inr (of_nat (length (takeWhile (car_acked \<circ> snd) (records s))))"
    and read_law: "invar s \<Longrightarrow> (r, x) \<in> set (records s) \<Longrightarrow> read_record vt s (Some r) = Inr x"
    and write_stored_law:
      "invar s \<Longrightarrow> i < length (records s) \<Longrightarrow> r = fst (records s ! i) \<Longrightarrow>
         \<exists>s'. write_record vt s (Some r) x = Inr s' \<and> invar s' \<and>
              records s' = (records s)[i := (r, x)] \<and> pending s' = pending s \<and> limit s' = limit s \<and>
              (pending s \<noteq> None \<longrightarrow> read_record vt s' (pending s) = read_record vt s (pending s))"
    and write_pending_law:
      "invar s \<Longrightarrow> pending s = Some r \<Longrightarrow> \<not> car_acked x \<Longrightarrow>
         \<exists>s'. write_record vt s (Some r) x = Inr s' \<and> invar s' \<and> records s' = records s \<and>
              pending s' = Some r \<and> read_record vt s' (Some r) = Inr x \<and> limit s' = limit s"
    and request_law:
      "invar s \<Longrightarrow>
         \<exists>r s'. request_pending_fn vt s = Inr (r, s') \<and> invar s' \<and> records s' = records s \<and>
                pending s' = r \<and> limit s' = limit s \<and>
                (r = None \<longleftrightarrow> pending s = None \<and> limit s \<noteq> None \<and> the (limit s) \<le> length (records s)) \<and>
                (pending s = None \<or> s' = s)"
    and store_law:
      "invar s \<Longrightarrow> pending s = Some r \<Longrightarrow> read_record vt s (Some r) = Inr x \<Longrightarrow>
       length (records s) + 1 < 2 ^ 32 \<Longrightarrow>
         \<exists>s'. store_pending_fn vt s = Inr s' \<and> invar s' \<and> records s' = records s @ [(r, x)] \<and>
              pending s' = None \<and> limit s' = limit s"
    and drop_law:
      "invar s \<Longrightarrow> 0 < unat n \<Longrightarrow> unat n \<le> length (records s) \<Longrightarrow>
         \<exists>s'. drop_fn vt s n
                = Inr (concat (map (consecutive_ack_record_destroy \<circ> snd) (take (unat n) (records s))), s') \<and>
              invar s' \<and> records s' = drop (unat n) (records s) \<and> pending s' = pending s \<and>
              limit s' = limit s \<and>
              (pending s \<noteq> None \<longrightarrow> read_record vt s' (pending s) = read_record vt s (pending s))"

section \<open>The static container satisfies the contract\<close>

definition static_invar :: "StaticConsecutiveAckRecordContainer \<Rightarrow> bool" where
  "static_invar s \<longleftrightarrow>
     (let ring = st_ack_records s in
      ring_buffer_wf ring \<and>
      (\<forall>p. st_pending s = Some p \<longrightarrow>
         \<not> ring_buffer_is_full ring \<and> p = ring_buffer_ptr ring (unat (rb_count ring))) \<and>
      (\<forall>i. unat (rb_count ring) \<le> i \<longrightarrow> i < unat (rb_capacity ring) \<longrightarrow>
         \<not> car_acked (ring_slot ring i)))"

definition static_records :: "StaticConsecutiveAckRecordContainer \<Rightarrow> (guint32 \<times> ConsecutiveAckRecord) list" where
  "static_records s =
     map (\<lambda>i. (ring_buffer_ptr (st_ack_records s) i, ring_slot (st_ack_records s) i))
       [0..<unat (rb_count (st_ack_records s))]"

definition static_limit :: "StaticConsecutiveAckRecordContainer \<Rightarrow> nat option" where
  "static_limit s = Some (unat (rb_capacity (st_ack_records s)))"

lemma static_invarD:
  assumes "static_invar s"
  shows "ring_buffer_wf (st_ack_records s)"
    and "st_pending s = Some p \<Longrightarrow> \<not> ring_buffer_is_full (st_ack_records s)"
    and "st_pending s = Some p \<Longrightarrow>
           p = ring_buffer_ptr (st_ack_records s) (unat (rb_count (st_ack_records s)))"
    and "unat (rb_count (st_ack_records s)) \<le> i \<Longrightarrow> i < unat (rb_capacity (st_ack_records s)) \<Longrightarrow>
           \<not> car_acked (ring_slot (st_ack_records s) i)"
  using assms by (auto simp: static_invar_def Let_def)

lemma length_static_records [simp]:
  "length (static_records s) = unat (rb_count (st_ack_records s))"
  by (simp add: static_records_def)

lemma nth_static_records:
  "i < unat (rb_count (st_ack_records s)) \<Longrightarrow>
     static_records s ! i = (ring_buffer_ptr (st_ack_records s) i, ring_slot (st_ack_records s) i)"
  by (simp add: static_records_def)

lemma static_records_distinct:
  assumes "static_invar s"
  shows "distinct (map fst (static_records s))"
proof -
  note wf = static_invarD(1) [OF assms]
  have "inj_on (ring_buffer_ptr (st_ack_records s)) {0..<unat (rb_count (st_ack_records s))}"
    using ring_ptr_inj [OF wf] ring_wfD(5) [OF wf] by (intro inj_onI) auto
  then show ?thesis by (simp add: static_records_def distinct_map comp_def)
qed

lemma static_pending_record:
  assumes inv: "static_invar s" and p: "st_pending s = Some p"
  shows "p \<notin> fst ` set (static_records s)"
    and "\<exists>x. ring_buffer_deref (st_ack_records s) (Some p) = Inr x \<and> \<not> car_acked x"
proof -
  let ?ring = "st_ack_records s"
  note wf = static_invarD(1) [OF inv]
  have room: "unat (rb_count ?ring) < unat (rb_capacity ?ring)"
    using static_invarD(2) [OF inv p] by (simp add: ring_not_full_iff [OF wf])
  have pp: "p = ring_buffer_ptr ?ring (unat (rb_count ?ring))" by (rule static_invarD(3) [OF inv p])
  show "p \<notin> fst ` set (static_records s)"
  proof
    assume "p \<in> fst ` set (static_records s)"
    then obtain j where j: "j < unat (rb_count ?ring)" "ring_buffer_ptr ?ring j = p"
      by (auto simp: static_records_def)
    then have "j = unat (rb_count ?ring)"
      using ring_ptr_inj [OF wf _ room, of j] room by (simp add: pp)
    with j(1) show False by simp
  qed
  show "\<exists>x. ring_buffer_deref ?ring (Some p) = Inr x \<and> \<not> car_acked x"
    using static_invarD(4) [OF inv _ room] by (simp add: pp ring_deref_slot [OF wf])
qed

lemma static_write_slot:
  assumes inv: "static_invar s" and i: "i < unat (rb_capacity (st_ack_records s))"
    and x: "i < unat (rb_count (st_ack_records s)) \<or> \<not> car_acked x"
  obtains s' where "static_write s (Some (ring_buffer_ptr (st_ack_records s) i)) x = Inr s'"
    and "static_invar s'" and "st_pending s' = st_pending s" and "static_limit s' = static_limit s"
    and "static_records s' =
           (if i < unat (rb_count (st_ack_records s))
            then (static_records s)[i := (ring_buffer_ptr (st_ack_records s) i, x)]
            else static_records s)"
    and "ring_buffer_deref (st_ack_records s') (Some (ring_buffer_ptr (st_ack_records s) i)) = Inr x"
    and "\<forall>j < unat (rb_capacity (st_ack_records s)). j \<noteq> i \<longrightarrow>
           ring_buffer_deref (st_ack_records s') (Some (ring_buffer_ptr (st_ack_records s) j))
             = ring_buffer_deref (st_ack_records s) (Some (ring_buffer_ptr (st_ack_records s) j))"
proof -
  let ?ring = "st_ack_records s"
  note wf = static_invarD(1) [OF inv]
  from ring_store_slot [OF wf i, of x] obtain ring' where r:
    "ring_buffer_store ?ring (Some (ring_buffer_ptr ?ring i)) x = Inr ring'" "ring_buffer_wf ring'"
    "rb_count ring' = rb_count ?ring" "rb_capacity ring' = rb_capacity ?ring"
    "ring_buffer_ptr ring' = ring_buffer_ptr ?ring"
    "\<forall>j < unat (rb_capacity ?ring). ring_slot ring' j = (if j = i then x else ring_slot ?ring j)" .
  let ?s' = "s\<lparr>st_ack_records := ring'\<rparr>"
  have cnt: "unat (rb_count ?ring) \<le> unat (rb_capacity ?ring)" by (rule ring_wfD(5) [OF wf])
  have "static_invar ?s'"
    using inv x by (auto simp: static_invar_def Let_def r ring_buffer_is_full_def split: if_splits)
  moreover have "static_records ?s' =
           (if i < unat (rb_count ?ring) then (static_records s)[i := (ring_buffer_ptr ?ring i, x)]
            else static_records s)"
    using cnt by (intro nth_equalityI) (auto simp: static_records_def r nth_list_update)
  ultimately show ?thesis
    using r i ring_deref_slot [OF r(2)] ring_deref_slot [OF wf]
    by (intro that [of ?s']) (simp_all add: static_write_def static_limit_def)
qed

lemma ring_ptr_wrap: "ring_buffer_ptr self (i + unat (rb_capacity self)) = ring_buffer_ptr self i"
  by (simp only: ring_buffer_ptr_def add.assoc [symmetric] mod_add_self2)

definition reset_record :: "ConsecutiveAckRecord \<Rightarrow> ConsecutiveAckRecord" where
  "reset_record x =
     x\<lparr>car_acked := False, ar_bookmark := (ar_bookmark x)\<lparr>bm_save := None, bm_destroy := None\<rparr>\<rparr>"

lemma reset_record_not_acked [simp]: "\<not> car_acked (reset_record x)"
  by (simp add: reset_record_def)

lemma static_drop_loop:
  assumes "ring_buffer_wf ring" and "n \<le> unat (rb_count ring)" and "i \<le> n"
  shows "\<exists>ring'. static_drop_loop ring n i
            = Inr (concat (map (\<lambda>j. consecutive_ack_record_destroy (ring_slot ring j)) [i..<n]), ring') \<and>
          ring_buffer_wf ring' \<and> rb_count ring' = rb_count ring \<and>
          rb_capacity ring' = rb_capacity ring \<and> ring_buffer_ptr ring' = ring_buffer_ptr ring \<and>
          (\<forall>j < unat (rb_capacity ring).
             ring_slot ring' j = (if i \<le> j \<and> j < n then reset_record (ring_slot ring j) else ring_slot ring j))"
  using assms
proof (induction ring n i rule: static_drop_loop.induct)
  case (1 ring n i)
  note wf = "1.prems"(1)
  show ?case
  proof (cases "i < n")
    case False
    with "1.prems" show ?thesis by (auto simp: static_drop_loop.simps)
  next
    case True
    let ?x = "ring_slot ring i"
    have cap: "i < unat (rb_capacity ring)" and cnt: "i < unat (rb_count ring)"
      using True "1.prems"(2) ring_wfD(5) [OF wf] by simp_all
    have u: "unat (of_nat i :: guint32) = i"
      using cnt unsigned_less [of "rb_count ring", where 'a = nat] by (simp add: unat_of_nat)
    have at: "ring_buffer_element_at ring (of_nat i) = Inr (Some (ring_buffer_ptr ring i))"
      using cnt by (simp add: ring_element_at [OF wf] u)
    note df = ring_deref_slot [OF wf, of i]
    from ring_store_slot [OF wf cap, of "reset_record ?x"] obtain r1 where r1:
      "ring_buffer_store ring (Some (ring_buffer_ptr ring i)) (reset_record ?x) = Inr r1"
      "ring_buffer_wf r1" "rb_count r1 = rb_count ring" "rb_capacity r1 = rb_capacity ring"
      "ring_buffer_ptr r1 = ring_buffer_ptr ring"
      "\<forall>j < unat (rb_capacity ring). ring_slot r1 j = (if j = i then reset_record ?x else ring_slot ring j)" .
    from "1.IH" [OF True at df r1(1) [unfolded reset_record_def] r1(2)] obtain r2 where r2:
      "static_drop_loop r1 n (Suc i)
         = Inr (concat (map (\<lambda>j. consecutive_ack_record_destroy (ring_slot r1 j)) [Suc i..<n]), r2)"
      "ring_buffer_wf r2" "rb_count r2 = rb_count r1" "rb_capacity r2 = rb_capacity r1"
      "ring_buffer_ptr r2 = ring_buffer_ptr r1"
      "\<forall>j < unat (rb_capacity r1). ring_slot r2 j =
         (if Suc i \<le> j \<and> j < n then reset_record (ring_slot r1 j) else ring_slot r1 j)"
      using True "1.prems"(2) r1(3) by auto
    have slots: "map (\<lambda>j. consecutive_ack_record_destroy (ring_slot r1 j)) [Suc i..<n]
        = map (\<lambda>j. consecutive_ack_record_destroy (ring_slot ring j)) [Suc i..<n]"
      using r1(6) "1.prems"(2) ring_wfD(5) [OF wf] by (intro map_cong) auto
    have "static_drop_loop ring n i
        = Inr (concat (map (\<lambda>j. consecutive_ack_record_destroy (ring_slot ring j)) [i..<n]), r2)"
      using True r1(1)
      by (simp add: static_drop_loop.simps [of ring n i] at df r2(1) slots upt_conv_Cons
          reset_record_def)
    moreover have "\<forall>j < unat (rb_capacity ring). ring_slot r2 j =
        (if i \<le> j \<and> j < n then reset_record (ring_slot ring j) else ring_slot ring j)"
      using r1(4,6) r2(6) True by auto
    ultimately show ?thesis using r1 r2 by simp
  qed
qed

lemma static_request_law:
  assumes inv: "static_invar s"
  shows "\<exists>r s'. static_request_pending s = Inr (r, s') \<and> static_invar s' \<and>
           static_records s' = static_records s \<and> st_pending s' = r \<and> static_limit s' = static_limit s \<and>
           (r = None \<longleftrightarrow> st_pending s = None \<and> static_limit s \<noteq> None \<and>
              the (static_limit s) \<le> length (static_records s)) \<and>
           (st_pending s = None \<or> s' = s)"
proof (cases "st_pending s")
  case (Some p)
  then show ?thesis using inv by (simp add: static_request_pending_def)
next
  case None
  note wf = static_invarD(1) [OF inv]
  have lim: "ring_buffer_is_full (st_ack_records s) \<longleftrightarrow>
      unat (rb_capacity (st_ack_records s)) \<le> unat (rb_count (st_ack_records s))"
    using ring_not_full_iff [OF wf] by auto
  show ?thesis
    using inv None lim
    by (auto simp: static_request_pending_def ring_tail [OF wf] static_invar_def Let_def
        static_records_def static_limit_def)
qed

lemma static_store_law:
  assumes inv: "static_invar s" and p: "st_pending s = Some r"
    and x: "ring_buffer_deref (st_ack_records s) (Some r) = Inr x"
  shows "\<exists>s'. static_store_pending s = Inr s' \<and> static_invar s' \<and>
           static_records s' = static_records s @ [(r, x)] \<and> st_pending s' = None \<and>
           static_limit s' = static_limit s"
proof -
  let ?ring = "st_ack_records s"
  note wf = static_invarD(1) [OF inv]
  have r: "r = ring_buffer_ptr ?ring (unat (rb_count ?ring))" by (rule static_invarD(3) [OF inv p])
  from ring_push [OF wf static_invarD(2) [OF inv p]] obtain ring' where ring':
    "ring_buffer_push ?ring = Inr (Some (ring_buffer_ptr ?ring (unat (rb_count ?ring))), ring')"
    "ring_buffer_wf ring'" "rb_buffer ring' = rb_buffer ?ring" "rb_capacity ring' = rb_capacity ?ring"
    "unat (rb_count ring') = Suc (unat (rb_count ?ring))"
    "ring_buffer_ptr ring' = ring_buffer_ptr ?ring" .
  have slot: "ring_slot ring' = ring_slot ?ring"
    by (simp add: ring_slot_def fun_eq_iff ring'(3,6))
  have xs: "x = ring_slot ?ring (unat (rb_count ?ring))"
    using x by (simp add: r ring_deref_slot [OF wf])
  show ?thesis
    using ring' p static_invarD(4) [OF inv]
    by (simp add: static_store_pending_def r static_invar_def Let_def static_records_def slot xs
        static_limit_def)
qed

lemma static_drop_law:
  assumes inv: "static_invar s" and n: "unat n \<le> length (static_records s)"
  shows "\<exists>s'. static_drop s n
           = Inr (concat (map (consecutive_ack_record_destroy \<circ> snd) (take (unat n) (static_records s))), s') \<and>
         static_invar s' \<and> static_records s' = drop (unat n) (static_records s) \<and>
         st_pending s' = st_pending s \<and> static_limit s' = static_limit s \<and>
         (st_pending s \<noteq> None \<longrightarrow>
            ring_buffer_deref (st_ack_records s') (st_pending s)
              = ring_buffer_deref (st_ack_records s) (st_pending s))"
proof -
  let ?ring = "st_ack_records s"
  let ?n = "unat n" and ?cap = "unat (rb_capacity ?ring)" and ?cnt = "unat (rb_count ?ring)"
  note wf = static_invarD(1) [OF inv]
  have le: "?n \<le> ?cnt" using n by simp
  have u: "unat (ucast n :: guint32) = ?n"
    using le unsigned_less [of "rb_count ?ring", where 'a = nat] by (intro unat_ucast_32) simp
  from static_drop_loop [OF wf le, of 0] obtain r1 where r1:
    "static_drop_loop ?ring ?n 0
       = Inr (concat (map (\<lambda>j. consecutive_ack_record_destroy (ring_slot ?ring j)) [0..<?n]), r1)"
    "ring_buffer_wf r1" "rb_count r1 = rb_count ?ring" "rb_capacity r1 = rb_capacity ?ring"
    "ring_buffer_ptr r1 = ring_buffer_ptr ?ring"
    "\<forall>j < ?cap. ring_slot r1 j = (if j < ?n then reset_record (ring_slot ?ring j) else ring_slot ?ring j)"
    by auto
  have le1: "unat (ucast n :: guint32) \<le> unat (rb_count r1)" using le u r1(3) by simp
  from ring_drop_contents [OF r1(2) le1] obtain r2 where r2:
    "ring_buffer_drop r1 (ucast n) = Inr (True, r2)" "ring_buffer_wf r2"
    "rb_buffer r2 = rb_buffer r1" "rb_capacity r2 = rb_capacity r1"
    "\<forall>i. ring_buffer_ptr r2 i = ring_buffer_ptr r1 (i + unat (ucast n :: guint32))"
    "ring_buffer_contents r2 = drop (unat (ucast n :: guint32)) (ring_buffer_contents r1)" .
  have cnt2: "unat (rb_count r2) = ?cnt - ?n"
    using arg_cong [OF r2(6), of length] by (simp add: r1(2,3) r2(2) u)
  have slot2: "ring_slot r2 i = ring_slot r1 (i + ?n)" for i
    by (simp add: ring_slot_def r2(3,5) u)
  have free: "\<not> car_acked (ring_slot r2 i)" if i: "?cnt - ?n \<le> i" "i < ?cap" for i
  proof (cases "i + ?n < ?cap")
    case True
    then show ?thesis using r1(6) i le static_invarD(4) [OF inv, of "i + ?n"] by (simp add: slot2)
  next
    case False
    then have "ring_slot r1 (i + ?n) = ring_slot r1 (i + ?n - ?cap)"
      using ring_ptr_wrap [of r1 "i + ?n - ?cap"] by (simp add: ring_slot_def r1(4))
    moreover have "i + ?n - ?cap < ?n" "i + ?n - ?cap < ?cap"
      using i False le ring_wfD(5) [OF wf] by linarith+
    ultimately show ?thesis using r1(6) by (simp add: slot2)
  qed
  let ?s' = "s\<lparr>st_ack_records := r2\<rparr>"
  have recs: "static_records ?s' = drop ?n (static_records s)"
    using r1(6) ring_wfD(5) [OF wf]
    by (intro nth_equalityI) (auto simp: static_records_def cnt2 slot2 r2(5) r1(5) u add.commute)
  have pend: "\<not> ring_buffer_is_full r2 \<and> p = ring_buffer_ptr r2 (unat (rb_count r2))"
    if "st_pending s = Some p" for p
    using static_invarD(2,3) [OF inv that] le
    by (simp add: ring_not_full_iff [OF wf] ring_not_full_iff [OF r2(2)] cnt2 r2(4,5) r1(4,5) u)
  have "static_invar ?s'"
    using r2(2,4) r1(4) free pend by (simp add: static_invar_def Let_def cnt2)
  moreover have "ring_buffer_deref r2 (Some p) = ring_buffer_deref ?ring (Some p)"
    if "st_pending s = Some p" for p
  proof -
    have "?cnt < ?cap" using static_invarD(2) [OF inv that] by (simp add: ring_not_full_iff [OF wf])
    moreover have "p = ring_buffer_ptr ?ring ?cnt" by (rule static_invarD(3) [OF inv that])
    ultimately show ?thesis
      using ring_deref_slot [OF r2(2), of "?cnt - ?n"] r1(6) le
      by (simp add: slot2 r2(5) u r1(5) ring_deref_slot [OF wf])
  qed
  moreover have "map (\<lambda>j. consecutive_ack_record_destroy (ring_slot ?ring j)) [0..<?n]
      = map (consecutive_ack_record_destroy \<circ> snd) (take ?n (static_records s))"
    using le by (simp add: static_records_def take_map comp_def)
  ultimately show ?thesis
    using recs by (auto simp: static_drop_def r1(1) r2(1) static_limit_def r2(4) r1(4))
qed

lemma static_write_stored_law:
  assumes inv: "static_invar s" and i: "i < length (static_records s)"
    and r: "r = fst (static_records s ! i)"
  shows "\<exists>s'. static_write s (Some r) x = Inr s' \<and> static_invar s' \<and>
           static_records s' = (static_records s)[i := (r, x)] \<and> st_pending s' = st_pending s \<and>
           static_limit s' = static_limit s \<and>
           (st_pending s \<noteq> None \<longrightarrow>
              ring_buffer_deref (st_ack_records s') (st_pending s)
                = ring_buffer_deref (st_ack_records s) (st_pending s))"
proof -
  let ?ring = "st_ack_records s"
  have c: "i < unat (rb_count ?ring)" using i by simp
  then have cap: "i < unat (rb_capacity ?ring)"
    using ring_wfD(5) [OF static_invarD(1) [OF inv]] by simp
  have pend: "\<exists>j < unat (rb_capacity ?ring). j \<noteq> i \<and> p = ring_buffer_ptr ?ring j"
    if "st_pending s = Some p" for p
    using static_invarD(2,3) [OF inv that] ring_not_full_iff [OF static_invarD(1) [OF inv]] c
    by (intro exI [of _ "unat (rb_count ?ring)"]) simp
  have r': "r = ring_buffer_ptr ?ring i" using r c by (simp add: nth_static_records)
  show ?thesis
    unfolding r' by (rule static_write_slot [OF inv cap, of x]) (use c pend in auto)
qed

lemma static_write_pending_law:
  assumes inv: "static_invar s" and r: "st_pending s = Some r" and x: "\<not> car_acked x"
  shows "\<exists>s'. static_write s (Some r) x = Inr s' \<and> static_invar s' \<and>
           static_records s' = static_records s \<and> st_pending s' = Some r \<and>
           ring_buffer_deref (st_ack_records s') (Some r) = Inr x \<and> static_limit s' = static_limit s"
proof -
  let ?i = "unat (rb_count (st_ack_records s))"
  have "?i < unat (rb_capacity (st_ack_records s))"
    using static_invarD(2) [OF inv r] ring_not_full_iff [OF static_invarD(1) [OF inv]] by simp
  from static_write_slot [OF inv this, of x] x static_invarD(3) [OF inv r] r show ?thesis
    by simp blast
qed

lemma static_range_law:
  assumes inv: "static_invar s"
  shows "static_get_continual_range_length s
           = Inr (of_nat (length (takeWhile (car_acked \<circ> snd) (static_records s))))"
proof -
  note wf = static_invarD(1) [OF inv]
  have "map snd (static_records s) = ring_buffer_contents (st_ack_records s)"
    by (simp add: static_records_def ring_contents_slots [OF wf])
  then have len: "length (takeWhile (car_acked \<circ> snd) (static_records s))
      = length (takeWhile car_acked (ring_buffer_contents (st_ack_records s)))"
    using takeWhile_map [of car_acked snd "static_records s"] by simp
  from ring_continual_range_length [OF wf, of car_acked] obtain n where
    n: "ring_buffer_get_continual_range_length (st_ack_records s) car_acked = Inr n"
    "length (takeWhile (car_acked \<circ> snd) (static_records s)) = unat n"
    by (auto simp: len)
  show ?thesis unfolding n(2) by (simp add: static_get_continual_range_length_def n(1))
qed

lemma static_at_law:
  assumes inv: "static_invar s" and i: "unat idx < length (static_records s)"
  shows "static_at s idx = Inr (Some (fst (static_records s ! unat idx)))"
proof -
  have "unat (ucast idx :: guint32) = unat idx"
    using i unsigned_less [of "rb_count (st_ack_records s)", where 'a = nat]
    by (intro unat_ucast_32) simp
  with i show ?thesis
    by (simp add: static_at_def ring_element_at [OF static_invarD(1) [OF inv]] nth_static_records)
qed

interpretation static: ack_record_container static_ops static_invar static_records st_pending
  static_limit
proof (unfold_locales, goal_cases)
  case (1 s)
  then show ?case by (rule static_records_distinct)
next
  case (2 s)
  show ?case
    using unsigned_less [of "rb_count (st_ack_records s)", where 'a = nat] by simp
next
  case (3 s r)
  then show ?case using static_pending_record by (simp add: static_ops_def)
next
  case (4 s)
  then show ?case
    by (simp add: static_ops_def static_is_empty_def ring_buffer_is_empty_def word_unat_eq_iff
        length_0_conv [symmetric] del: length_0_conv)
next
  case (5 s)
  then show ?case by (simp add: static_ops_def static_size_def ring_buffer_count_def)
next
  case (6 s idx)
  then show ?case by (simp add: static_ops_def static_at_law)
next
  case (7 s)
  then show ?case by (simp add: static_ops_def static_range_law)
next
  case (8 s r x)
  then show ?case
    using ring_deref_slot [OF static_invarD(1) [OF 8(1)]]
    by (auto simp: static_ops_def static_records_def)
next
  case (9 s i r x)
  then show ?case
    using static_write_stored_law by (simp only: static_ops_def ConsecutiveAckRecordContainer.simps)
next
  case (10 s r x)
  then show ?case
    using static_write_pending_law by (simp only: static_ops_def ConsecutiveAckRecordContainer.simps)
next
  case (11 s)
  then show ?case by (simp only: static_ops_def ConsecutiveAckRecordContainer.simps static_request_law)
next
  case (12 s r x)
  then show ?case using static_store_law by (simp add: static_ops_def)
next
  case (13 s n)
  then show ?case
    by (simp only: static_ops_def ConsecutiveAckRecordContainer.simps static_drop_law)
qed

lemma static_new_law:
  assumes "0 < sz" and "unat sz < 25000000"
  shows "\<exists>s. consecutive_ack_record_container_static_new sz = Inr s \<and> static_invar s \<and>
           static_records s = [] \<and> st_pending s = None \<and> static_limit s = Some (unat sz)"
proof -
  have u: "unat (ucast sz :: guint32) = unat sz" using assms(2) by (intro unat_ucast_32) simp
  have "0 < unat sz" using assms(1) by (simp add: word_less_nat_alt)
  then have "0 < unat (ucast sz :: guint32)" "unat (ucast sz :: guint32) \<le> 2 ^ 31"
    "0 < unat sizeof_ConsecutiveAckRecord"
    "unat (ucast sz :: guint32) * unat sizeof_ConsecutiveAckRecord < 2 ^ 32"
    using assms(2) by (simp_all add: u sizeof_ConsecutiveAckRecord_def)
  from ring_alloc [OF this, of zero_record] obtain rb where rb:
    "ring_buffer_alloc zero_record sizeof_ConsecutiveAckRecord (ucast sz) = Inr rb"
    "ring_buffer_wf rb" "ring_buffer_contents rb = []" "rb_capacity rb = ucast sz" by (elim exE conjE)
  then have slot: "ring_slot rb i = zero_record" for i
    by (auto simp: ring_buffer_alloc_def ring_slot_def g_assert_eq_Inr_iff)
  have "unat (rb_count rb) = 0" using length_ring_contents [OF rb(2)] rb(3) by simp
  then show ?thesis
    using rb by (simp add: consecutive_ack_record_container_static_new_def static_invar_def slot
        static_records_def static_limit_def u zero_record_def)
qed

section \<open>The dynamic container satisfies the contract\<close>

text \<open>A chain is sound when its cells are distinct, its data pointers are distinct and each points to
  a live record.\<close>

definition chain_ok :: "(nat \<Rightarrow> ConsecutiveAckRecord option) \<Rightarrow> (nat \<times> address) list \<Rightarrow> bool" where
  "chain_ok h cells \<longleftrightarrow>
     distinct (map fst cells) \<and> distinct (map snd cells) \<and>
     (\<forall>p \<in> set (map snd cells). \<exists>a x. p = Some a \<and> h a = Some x)"

definition chain_records ::
  "(nat \<Rightarrow> ConsecutiveAckRecord option) \<Rightarrow> (nat \<times> address) list \<Rightarrow> (nat \<times> ConsecutiveAckRecord) list" where
  "chain_records h cells = map (\<lambda>cell. (the (snd cell), the (h (the (snd cell))))) cells"

definition dynamic_invar :: "DynamicConsecutiveAckRecordContainer \<Rightarrow> bool" where
  "dynamic_invar s \<longleftrightarrow>
     chain_ok (dy_heap s) (dy_head s) \<and>
     (\<forall>c \<in> set (map fst (dy_head s)). c < dy_brk s) \<and>
     (\<forall>a \<in> dom (dy_heap s). a < dy_brk s) \<and>
     (dy_head s \<noteq> [] \<longrightarrow> dy_tail s = Some (fst (last (dy_head s)))) \<and>
     unat (dy_size s) = length (dy_head s) \<and> length (dy_head s) < 2 ^ 32 \<and>
     (\<forall>p. dy_pending s = Some p \<longrightarrow>
        Some p \<notin> set (map snd (dy_head s)) \<and>
        (\<exists>x. dy_heap s p = Some x \<and> \<not> car_acked x))"

definition dynamic_records :: "DynamicConsecutiveAckRecordContainer \<Rightarrow> (nat \<times> ConsecutiveAckRecord) list" where
  "dynamic_records s = chain_records (dy_heap s) (dy_head s)"

definition dynamic_limit :: "DynamicConsecutiveAckRecordContainer \<Rightarrow> nat option" where
  "dynamic_limit s = None"

lemma length_chain_records [simp]: "length (chain_records h cells) = length cells"
  by (simp add: chain_records_def)

lemma length_dynamic_records [simp]: "length (dynamic_records s) = length (dy_head s)"
  by (simp add: dynamic_records_def)

lemma dynamic_invarD:
  assumes "dynamic_invar s"
  shows "chain_ok (dy_heap s) (dy_head s)"
    and "unat (dy_size s) = length (dy_head s)" and "length (dy_head s) < 2 ^ 32"
    and "dy_head s \<noteq> [] \<Longrightarrow> dy_tail s = Some (fst (last (dy_head s)))"
    and "dy_pending s = Some p \<Longrightarrow> Some p \<notin> set (map snd (dy_head s))"
    and "dy_pending s = Some p \<Longrightarrow> \<exists>x. dy_heap s p = Some x \<and> \<not> car_acked x"
  using assms by (auto simp: dynamic_invar_def)

lemma chain_ok_Cons:
  "chain_ok h ((c, p) # cells) \<longleftrightarrow>
     c \<notin> set (map fst cells) \<and> p \<notin> set (map snd cells) \<and> chain_ok h cells \<and>
     (\<exists>a x. p = Some a \<and> h a = Some x)"
  by (auto simp: chain_ok_def)

lemma chain_ok_heap_cong:
  assumes "\<And>a. Some a \<in> set (map snd cells) \<Longrightarrow> (h' a = None) = (h a = None)"
  shows "chain_ok h' cells = chain_ok h cells"
  using assms unfolding chain_ok_def by (metis option.exhaust option.distinct(1))

lemma chain_records_heap_cong:
  assumes "chain_ok h cells" and "\<And>a. Some a \<in> set (map snd cells) \<Longrightarrow> h' a = h a"
  shows "chain_records h' cells = chain_records h cells"
proof -
  have "h' (the (snd cell)) = h (the (snd cell))" if "cell \<in> set cells" for cell
  proof -
    have mem: "snd cell \<in> set (map snd cells)" using that by simp
    then obtain a where "snd cell = Some a" using assms(1) by (auto simp: chain_ok_def)
    with mem assms(2) show ?thesis by simp
  qed
  then show ?thesis by (simp add: chain_records_def)
qed

lemma chain_ok_take: "chain_ok h cells \<Longrightarrow> chain_ok h (take n cells)"
  by (auto simp: chain_ok_def take_map [symmetric] simp del: set_map dest: in_set_takeD)

lemma chain_ok_drop: "chain_ok h cells \<Longrightarrow> chain_ok h (drop n cells)"
  by (auto simp: chain_ok_def drop_map [symmetric] simp del: set_map dest: in_set_dropD)

lemma nth_chain:
  assumes "chain_ok h cells" and "i < length cells"
  shows "\<exists>a x. snd (cells ! i) = Some a \<and> h a = Some x \<and> chain_records h cells ! i = (a, x)"
proof -
  have "snd (cells ! i) \<in> set (map snd cells)" using assms(2) by auto
  then show ?thesis using assms by (auto simp: chain_ok_def chain_records_def simp del: set_map)
qed

lemma cell_after_last:
  assumes "cells \<noteq> []" and "distinct (map fst cells)"
  shows "cell_after (fst (last cells)) (cells @ [new]) = Some (fst new)"
  using assms
proof (induction cells)
  case (Cons x cells)
  show ?case
  proof (cases cells)
    case Nil
    then show ?thesis by simp
  next
    case (Cons y rest)
    then have "fst x \<noteq> fst (last cells)"
      using Cons.prems(2) by (metis distinct.simps(2) last_in_set list.simps(9) image_eqI list.set_map
          list.distinct(1))
    then show ?thesis using Cons Cons.IH Cons.prems by simp
  qed
qed simp

lemma free_and_destroy_ack_records:
  assumes "chain_ok h cells"
  shows "free_and_destroy_ack_records cells h
           = Inr (concat (map (consecutive_ack_record_destroy \<circ> snd) (chain_records h cells)),
                  \<lambda>a. if Some a \<in> set (map snd cells) then None else h a)"
  using assms
proof (induction cells arbitrary: h)
  case (Cons cell cells)
  obtain c p where cell: "cell = (c, p)" by fastforce
  with Cons.prems obtain a x where p: "p = Some a" "h a = Some x" "Some a \<notin> set (map snd cells)"
    and ok: "chain_ok h cells" by (auto simp: chain_ok_Cons)
  have other: "(h(a := None)) b = h b" if "Some b \<in> set (map snd cells)" for b
    using that p(3) by auto
  have ok': "chain_ok (h(a := None)) cells"
    using ok chain_ok_heap_cong [of cells "h(a := None)" h] other by simp
  have recs: "chain_records (h(a := None)) cells = chain_records h cells"
    by (rule chain_records_heap_cong [OF ok other])
  show ?case
    unfolding cell free_and_destroy_ack_records.simps p(1) option.sel Cons.IH [OF ok'] recs
    using p(2) by (simp add: heap_read_def chain_records_def fun_eq_iff comp_def)
qed (simp add: chain_records_def)

lemma dynamic_range_loop:
  assumes "chain_ok h cells" and "unat n + length cells < 2 ^ 32"
  shows "dynamic_range_loop h cells n
           = Inr (n + of_nat (length (takeWhile (car_acked \<circ> snd) (chain_records h cells))))"
  using assms
proof (induction h cells n rule: dynamic_range_loop.induct)
  case (2 h c p cells n)
  then obtain a x where "p = Some a" "h a = Some x" by (auto simp: chain_ok_Cons)
  moreover have "unat (n + 1) = Suc (unat n)"
    using "2.prems"(2) by (simp add: unat_word_ariths)
  ultimately show ?case
    using 2 by (simp add: heap_read_def chain_ok_Cons chain_records_def)
qed (simp add: chain_records_def)

lemma dynamic_write_stored_law:
  assumes inv: "dynamic_invar s" and i: "i < length (dynamic_records s)"
    and r: "r = fst (dynamic_records s ! i)"
  shows "\<exists>s'. dynamic_write s (Some r) x = Inr s' \<and> dynamic_invar s' \<and>
           dynamic_records s' = (dynamic_records s)[i := (r, x)] \<and> dy_pending s' = dy_pending s \<and>
           dynamic_limit s' = dynamic_limit s \<and>
           (dy_pending s \<noteq> None \<longrightarrow>
              heap_read (dy_heap s') (dy_pending s) = heap_read (dy_heap s) (dy_pending s))"
proof -
  note ok = dynamic_invarD(1) [OF inv]
  have i': "i < length (dy_head s)" using i by simp
  from nth_chain [OF ok i'] r obtain y where y: "snd (dy_head s ! i) = Some r" "dy_heap s r = Some y"
    by (auto simp: dynamic_records_def)
  let ?s' = "s\<lparr>dy_heap := (dy_heap s)(r \<mapsto> x)\<rparr>"
  have np: "dy_pending s \<noteq> Some r"
    using dynamic_invarD(5) [OF inv, of r] y(1) nth_mem [of i "map snd (dy_head s)"] i' by auto
  have ok': "chain_ok ((dy_heap s)(r \<mapsto> x)) (dy_head s)"
    using ok y(2) chain_ok_heap_cong [of "dy_head s" "(dy_heap s)(r \<mapsto> x)" "dy_heap s"] by simp
  have "dynamic_invar ?s'" using inv ok' np y(2) by (auto simp: dynamic_invar_def)
  moreover have "dynamic_records ?s' = (dynamic_records s)[i := (r, x)]"
  proof (rule nth_equalityI)
    fix j assume "j < length (dynamic_records ?s')"
    then have j: "j < length (dy_head s)" by simp
    from nth_chain [OF ok j] obtain a z where a: "snd (dy_head s ! j) = Some a" "dy_heap s a = Some z"
      by blast
    have "a = r \<longleftrightarrow> j = i"
      using a(1) y(1) ok j i' unfolding chain_ok_def
      by (metis distinct_conv_nth length_map nth_map option.inject)
    then show "dynamic_records ?s' ! j = (dynamic_records s)[i := (r, x)] ! j"
      using a j by (auto simp: dynamic_records_def chain_records_def nth_list_update)
  qed simp
  ultimately show ?thesis
    using y np by (auto simp: dynamic_write_def heap_read_def dynamic_limit_def)
qed

lemma dynamic_write_pending_law:
  assumes inv: "dynamic_invar s" and r: "dy_pending s = Some r" and x: "\<not> car_acked x"
  shows "\<exists>s'. dynamic_write s (Some r) x = Inr s' \<and> dynamic_invar s' \<and>
           dynamic_records s' = dynamic_records s \<and> dy_pending s' = Some r \<and>
           heap_read (dy_heap s') (Some r) = Inr x \<and> dynamic_limit s' = dynamic_limit s"
proof -
  let ?h = "(dy_heap s)(r \<mapsto> x)"
  note ok = dynamic_invarD(1) [OF inv]
  have fresh: "Some r \<notin> set (map snd (dy_head s))" by (rule dynamic_invarD(5) [OF inv r])
  obtain y where y: "dy_heap s r = Some y" using dynamic_invarD(6) [OF inv r] by blast
  have same: "?h a = dy_heap s a" if "Some a \<in> set (map snd (dy_head s))" for a
    using that fresh by auto
  have "chain_ok ?h (dy_head s)"
    using ok chain_ok_heap_cong [of "dy_head s" ?h "dy_heap s"] same by simp
  then have "dynamic_invar (s\<lparr>dy_heap := ?h\<rparr>)"
    using inv r x y by (auto simp: dynamic_invar_def)
  moreover have "chain_records ?h (dy_head s) = chain_records (dy_heap s) (dy_head s)"
    by (rule chain_records_heap_cong [OF ok same])
  ultimately show ?thesis
    using r y by (simp add: dynamic_write_def heap_read_def dynamic_limit_def dynamic_records_def)
qed

lemma dynamic_request_law:
  assumes inv: "dynamic_invar s"
  shows "\<exists>r s'. dynamic_request_pending s = Inr (r, s') \<and> dynamic_invar s' \<and>
           dynamic_records s' = dynamic_records s \<and> dy_pending s' = r \<and>
           dynamic_limit s' = dynamic_limit s \<and> r \<noteq> None \<and> (dy_pending s = None \<or> s' = s)"
proof (cases "dy_pending s")
  case (Some p)
  then show ?thesis using inv by (simp add: dynamic_request_pending_def)
next
  case None
  let ?h = "(dy_heap s)(dy_brk s \<mapsto> zero_record)"
  note ok = dynamic_invarD(1) [OF inv]
  have fresh: "dy_heap s (dy_brk s) = None" using inv by (auto simp: dynamic_invar_def)
  then have out: "Some (dy_brk s) \<notin> set (map snd (dy_head s))"
    using ok by (auto simp: chain_ok_def simp del: set_map)
  have same: "?h a = dy_heap s a" if "Some a \<in> set (map snd (dy_head s))" for a
    using that out by auto
  have "chain_ok ?h (dy_head s)"
    using ok chain_ok_heap_cong [of "dy_head s" ?h "dy_heap s"] same by simp
  then have "dynamic_invar (s\<lparr>dy_heap := ?h, dy_pending := Some (dy_brk s), dy_brk := Suc (dy_brk s)\<rparr>)"
    using inv out unfolding dynamic_invar_def by (auto simp: zero_record_def less_Suc_eq)
  moreover have "chain_records ?h (dy_head s) = chain_records (dy_heap s) (dy_head s)"
    by (rule chain_records_heap_cong [OF ok same])
  ultimately show ?thesis
    using None by (simp add: dynamic_request_pending_def dynamic_limit_def dynamic_records_def)
qed

lemma dynamic_store_law:
  assumes inv: "dynamic_invar s" and p: "dy_pending s = Some r"
    and x: "heap_read (dy_heap s) (Some r) = Inr x" and short: "length (dynamic_records s) + 1 < 2 ^ 32"
  shows "\<exists>s'. dynamic_store_pending s = Inr s' \<and> dynamic_invar s' \<and>
           dynamic_records s' = dynamic_records s @ [(r, x)] \<and> dy_pending s' = None \<and>
           dynamic_limit s' = dynamic_limit s"
proof -
  let ?head = "dy_head s @ [(dy_brk s, Some r)]"
  let ?s' = "s\<lparr>dy_brk := Suc (dy_brk s), dy_head := ?head, dy_size := dy_size s + 1,
               dy_pending := None, dy_tail := Some (dy_brk s)\<rparr>"
  have hx: "dy_heap s r = Some x" using x by (simp add: heap_read_def split: option.splits)
  have "dynamic_store_pending s = Inr ?s'"
  proof (cases "dy_head s = []")
    case True
    then show ?thesis using p by (simp add: dynamic_store_pending_def Let_def)
  next
    case False
    then show ?thesis
      using p dynamic_invarD(1) [OF inv]
      by (simp add: dynamic_store_pending_def Let_def dynamic_invarD(4) [OF inv] cell_after_last chain_ok_def)
  qed
  moreover have "unat (dy_size s + 1) = Suc (unat (dy_size s))"
    using short dynamic_invarD(2) [OF inv] by (simp add: unat_word_ariths)
  then have "dynamic_invar ?s'"
    using inv p hx short unfolding dynamic_invar_def chain_ok_def by (auto simp: less_Suc_eq)
  moreover have "dynamic_records ?s' = dynamic_records s @ [(r, x)]"
    by (simp add: dynamic_records_def chain_records_def hx)
  ultimately show ?thesis by (simp add: dynamic_limit_def)
qed

text \<open>The heap and the chain after the first \<open>n\<close> records were freed.\<close>

definition heap_without :: "(nat \<Rightarrow> ConsecutiveAckRecord option) \<Rightarrow> (nat \<times> address) list \<Rightarrow> nat \<Rightarrow> ConsecutiveAckRecord option" where
  "heap_without h cells = (\<lambda>a. if Some a \<in> set (map snd cells) then None else h a)"

lemma heap_without_rest:
  assumes ok: "chain_ok h cells"
  shows "chain_ok (heap_without h (take n cells)) (drop n cells)"
    and "chain_records (heap_without h (take n cells)) (drop n cells) = drop n (chain_records h cells)"
proof -
  have "set (map snd (take n cells)) \<inter> set (map snd (drop n cells)) = {}"
    using ok unfolding chain_ok_def by (metis append_take_drop_id distinct_append map_append)
  then have same: "heap_without h (take n cells) a = h a" if "Some a \<in> set (map snd (drop n cells))" for a
    using that by (auto simp: heap_without_def)
  show "chain_ok (heap_without h (take n cells)) (drop n cells)"
    using chain_ok_drop [OF ok] chain_ok_heap_cong [of "drop n cells" "heap_without h (take n cells)" h]
      same by simp
  show "chain_records (heap_without h (take n cells)) (drop n cells) = drop n (chain_records h cells)"
    using chain_records_heap_cong [OF chain_ok_drop [OF ok] same] by (simp add: chain_records_def drop_map)
qed

lemma dynamic_invar_drop:
  assumes inv: "dynamic_invar s" and n: "unat n \<le> length (dy_head s)"
    and t: "unat n < length (dy_head s) \<Longrightarrow> t = dy_tail s"
  shows "dynamic_invar (s\<lparr>dy_heap := heap_without (dy_heap s) (take (unat n) (dy_head s)),
                         dy_head := drop (unat n) (dy_head s), dy_tail := t, dy_size := dy_size s - n\<rparr>)"
proof -
  let ?rest = "drop (unat n) (dy_head s)"
  let ?h = "heap_without (dy_heap s) (take (unat n) (dy_head s))"
  have "unat (dy_size s - n) = length ?rest"
    using n dynamic_invarD(2) [OF inv] by (simp add: unat_minus_le)
  moreover have "\<forall>c \<in> set (map fst ?rest). c < dy_brk s" "\<forall>a \<in> dom ?h. a < dy_brk s"
    using inv by (auto simp: dynamic_invar_def heap_without_def dest: in_set_dropD split: if_splits)
  moreover have "t = Some (fst (last ?rest))" if "?rest \<noteq> []"
    using that t dynamic_invarD(4) [OF inv] by (cases "dy_head s = []") (auto simp: last_drop)
  moreover have "Some p \<notin> set (map snd ?rest) \<and> ?h p = dy_heap s p" if "dy_pending s = Some p" for p
    using dynamic_invarD(5) [OF inv that]
    by (auto simp: heap_without_def dest: in_set_takeD in_set_dropD)
  ultimately show ?thesis
    using heap_without_rest(1) [OF dynamic_invarD(1) [OF inv]] dynamic_invarD(3,6) [OF inv]
    by (simp add: dynamic_invar_def)
qed

lemma dynamic_drop_law:
  assumes inv: "dynamic_invar s" and n: "0 < unat n" "unat n \<le> length (dynamic_records s)"
  shows "\<exists>s'. dynamic_drop s n
           = Inr (concat (map (consecutive_ack_record_destroy \<circ> snd) (take (unat n) (dynamic_records s))), s') \<and>
         dynamic_invar s' \<and> dynamic_records s' = drop (unat n) (dynamic_records s) \<and>
         dy_pending s' = dy_pending s \<and> dynamic_limit s' = dynamic_limit s \<and>
         (dy_pending s \<noteq> None \<longrightarrow>
            heap_read (dy_heap s') (dy_pending s) = heap_read (dy_heap s) (dy_pending s))"
proof -
  let ?n = "unat n"
  note ok = dynamic_invarD(1) [OF inv]
  have n': "?n \<le> length (dy_head s)" using n by simp
  have free: "free_and_destroy_ack_records (take ?n (dy_head s)) (dy_heap s)
      = Inr (concat (map (consecutive_ack_record_destroy \<circ> snd) (take ?n (dynamic_records s))),
             heap_without (dy_heap s) (take ?n (dy_head s)))"
    using free_and_destroy_ack_records [OF chain_ok_take [OF ok], of ?n]
    by (simp add: dynamic_records_def chain_records_def take_map heap_without_def)
  note recs = heap_without_rest(2) [OF ok, of ?n, folded dynamic_records_def]
  have pend: "dy_pending s \<noteq> None \<longrightarrow>
      heap_read (heap_without (dy_heap s) (take ?n (dy_head s))) (dy_pending s)
        = heap_read (dy_heap s) (dy_pending s)"
    using dynamic_invarD(5) [OF inv]
    by (auto simp: heap_read_def heap_without_def simp del: set_map dest: in_set_takeD
        simp flip: take_map)
  show ?thesis
  proof (cases "n = dy_size s")
    case True
    then have all: "?n = length (dy_head s)" using dynamic_invarD(2) [OF inv] by simp
    with dynamic_invar_drop [OF inv n', of None] free recs pend True show ?thesis
      by (simp add: dynamic_drop_def dynamic_limit_def dynamic_records_def)
  next
    case False
    then have lt: "?n < length (dy_head s)"
      using n(2) dynamic_invarD(2) [OF inv] by (simp add: word_unat_eq_iff)
    have "unat (n - 1) = ?n - 1" using n(1) by (simp add: unat_minus_le)
    then have last: "Suc (unat (ucast (n - 1) :: guint32)) = ?n"
      using n lt dynamic_invarD(3) [OF inv] by (subst unat_ucast_32) simp_all
    with dynamic_invar_drop [OF inv n', of "dy_tail s"] free recs pend False lt show ?thesis
      by (simp add: dynamic_drop_def dynamic_limit_def dynamic_records_def)
  qed
qed

lemma dynamic_at_law:
  assumes inv: "dynamic_invar s" and i: "unat idx < length (dynamic_records s)"
  shows "dynamic_at s idx = Inr (Some (fst (dynamic_records s ! unat idx)))"
proof -
  have "unat (ucast idx :: guint32) = unat idx"
    using i dynamic_invarD(3) [OF inv] by (intro unat_ucast_32) simp
  then show ?thesis
    using nth_chain [OF dynamic_invarD(1) [OF inv], of "unat idx"] i
    by (auto simp: dynamic_at_def dynamic_records_def)
qed

lemma dynamic_range_law:
  assumes inv: "dynamic_invar s"
  shows "dynamic_get_continual_range_length s
           = Inr (of_nat (length (takeWhile (car_acked \<circ> snd) (dynamic_records s))))"
proof -
  let ?n = "length (takeWhile (car_acked \<circ> snd) (dynamic_records s))"
  have "?n < 2 ^ 32"
    using length_takeWhile_le [of "car_acked \<circ> snd" "dynamic_records s"] dynamic_invarD(3) [OF inv]
    by simp
  then have "(ucast (of_nat ?n :: guint32) :: guint64) = of_nat ?n"
    by (simp add: word_unat_eq_iff unat_of_nat)
  then show ?thesis
    using dynamic_range_loop [OF dynamic_invarD(1) [OF inv], of 0] dynamic_invarD(3) [OF inv]
    by (simp add: dynamic_get_continual_range_length_def dynamic_records_def)
qed

lemma dynamic_records_addresses:
  assumes "dynamic_invar s"
  shows "map (Some \<circ> fst) (dynamic_records s) = map snd (dy_head s)"
  using dynamic_invarD(1) [OF assms] by (auto simp: dynamic_records_def chain_records_def chain_ok_def)

interpretation dynamic: ack_record_container dynamic_ops dynamic_invar dynamic_records dy_pending
  dynamic_limit
proof (unfold_locales, goal_cases)
  case (1 s)
  note ok = dynamic_invarD(1) [OF 1]
  show ?case
    using ok dynamic_records_addresses [OF 1] unfolding chain_ok_def by (metis distinct_map map_map)
next
  case (2 s)
  then show ?case using dynamic_invarD(3) [of s] by simp
next
  case (3 s r)
  have "r \<in> fst ` set (dynamic_records s) \<Longrightarrow> Some r \<in> set (map snd (dy_head s))"
    unfolding dynamic_records_addresses [OF 3(1), symmetric] by auto
  then show ?case
    using dynamic_invarD(5,6) [OF 3] by (auto simp: dynamic_ops_def heap_read_def)
next
  case (4 s)
  then show ?case
    using dynamic_invarD(2) [OF 4]
    by (auto simp: dynamic_ops_def dynamic_is_empty_def dynamic_records_def chain_records_def)
next
  case (5 s)
  then show ?case by (simp add: dynamic_ops_def dynamic_size_def dynamic_invarD(2))
next
  case (6 s idx)
  then show ?case by (simp add: dynamic_ops_def dynamic_at_law del: length_dynamic_records)
next
  case (7 s)
  then show ?case by (simp add: dynamic_ops_def dynamic_range_law)
next
  case (8 s r x)
  then show ?case
    using nth_chain [OF dynamic_invarD(1) [OF 8(1)]]
    by (fastforce simp: dynamic_ops_def dynamic_records_def heap_read_def in_set_conv_nth)
next
  case (9 s i r x)
  then show ?case
    using dynamic_write_stored_law by (simp only: dynamic_ops_def ConsecutiveAckRecordContainer.simps)
next
  case (10 s r x)
  then show ?case
    using dynamic_write_pending_law by (simp only: dynamic_ops_def ConsecutiveAckRecordContainer.simps)
next
  case (11 s)
  then show ?case
    using dynamic_request_law [of s] by (auto simp: dynamic_ops_def dynamic_limit_def)
next
  case (12 s r x)
  then show ?case
    using dynamic_store_law by (simp only: dynamic_ops_def ConsecutiveAckRecordContainer.simps)
next
  case (13 s n)
  then show ?case
    using dynamic_drop_law by (simp only: dynamic_ops_def ConsecutiveAckRecordContainer.simps)
qed

lemma dynamic_new_law:
  "dynamic_invar consecutive_ack_record_container_dynamic_new"
  "dynamic_records consecutive_ack_record_container_dynamic_new = []"
  "dy_pending consecutive_ack_record_container_dynamic_new = None"
  "dynamic_limit consecutive_ack_record_container_dynamic_new = None"
  by (simp_all add: consecutive_ack_record_container_dynamic_new_def dynamic_invar_def chain_ok_def
      dynamic_records_def chain_records_def dynamic_limit_def)

end
