(* ===== verification/Consecutive_Ack_Tracker.thy ===== *)
theory Consecutive_Ack_Tracker
  imports Ack_Records
begin

text \<open>
  \<^verbatim>\<open>lib/ack-tracker/consecutive_ack_tracker.c\<close>: messages of a source are tracked in order and
  acknowledged in any order; the tracker releases the longest acknowledged prefix, saves the bookmark
  of its last message and returns the released messages to the source's window.  The operations take
  the container's table of functions, as the source does through its function pointers.

  The specification keeps the list of all tracked messages with their acknowledgement flags.  It is
  refined by the tracker over any container that satisfies \<open>ack_record_container\<close>, hence over both
  containers of the source.
\<close>

section \<open>The tracker\<close>

record AckTrackerOnAllAcked =
  oaa_func :: address
  oaa_user_data :: address
  oaa_user_data_free_fn :: address

text \<open>\<open>cat_address\<close> is the address of the tracker itself and \<open>cat_persist_state\<close> stands for
  \<^verbatim>\<open>source->super.cfg->state\<close>.\<close>

record ('s, 'r) ConsecutiveAckTracker =
  cat_address :: address
  cat_persist_state :: address
  cat_pending_ack_record :: "'r option"
  cat_ack_records :: 's
  cat_on_all_acked :: AckTrackerOnAllAcked
  cat_bookmark_saving_disabled :: bool

definition consecutive_ack_tracker_new ::
  "address \<Rightarrow> address \<Rightarrow> 's \<Rightarrow> ('s, 'r) ConsecutiveAckTracker" where
  "consecutive_ack_tracker_new self_address state container =
     \<lparr>cat_address = self_address, cat_persist_state = state, cat_pending_ack_record = None,
      cat_ack_records = container,
      cat_on_all_acked = \<lparr>oaa_func = None, oaa_user_data = None, oaa_user_data_free_fn = None\<rparr>,
      cat_bookmark_saving_disabled = False\<rparr>"

definition consecutive_ack_tracker_set_on_all_acked ::
  "('s, 'r) ConsecutiveAckTracker \<Rightarrow> address \<Rightarrow> address \<Rightarrow> address
     \<Rightarrow> effect list \<times> ('s, 'r) ConsecutiveAckTracker" where
  "consecutive_ack_tracker_set_on_all_acked self func user_data user_data_free_fn =
     (let old = cat_on_all_acked self in
      (case oaa_user_data_free_fn old of
         None \<Rightarrow> []
       | Some f \<Rightarrow> if oaa_user_data old \<noteq> None then [CallUserDataFree f (oaa_user_data old)] else [],
       self\<lparr>cat_on_all_acked := \<lparr>oaa_func = func, oaa_user_data = user_data,
                                  oaa_user_data_free_fn = user_data_free_fn\<rparr>\<rparr>))"

definition consecutive_ack_tracker_on_all_acked_call ::
  "('s, 'r) ConsecutiveAckTracker \<Rightarrow> effect list" where
  "consecutive_ack_tracker_on_all_acked_call self =
     (case oaa_func (cat_on_all_acked self) of
        None \<Rightarrow> []
      | Some f \<Rightarrow> [CallOnAllAcked f (oaa_user_data (cat_on_all_acked self))])"

definition ack_records_track_msg ::
  "('s, 'r) ConsecutiveAckRecordContainer \<Rightarrow> ('s, 'r) ConsecutiveAckTracker
     \<Rightarrow> ('r option \<times> ('s, 'r) ConsecutiveAckTracker) outcome" where
  "ack_records_track_msg vt self =
     bindO (store_pending_fn vt (cat_ack_records self)) (\<lambda>s.
       Inr (cat_pending_ack_record self,
            self\<lparr>cat_ack_records := s, cat_pending_ack_record := None\<rparr>))"

definition consecutive_ack_tracker_track_msg ::
  "('s, 'r) ConsecutiveAckRecordContainer \<Rightarrow> ('s, 'r) ConsecutiveAckTracker
     \<Rightarrow> ('r option \<times> ('s, 'r) ConsecutiveAckTracker) outcome" where
  "consecutive_ack_tracker_track_msg vt self =
     g_assert (cat_pending_ack_record self \<noteq> None) (ack_records_track_msg vt self)"

definition is_bookmark_saving_enabled :: "('s, 'r) ConsecutiveAckTracker \<Rightarrow> bool" where
  "is_bookmark_saving_enabled self = (\<not> cat_bookmark_saving_disabled self)"

definition ack_record_save_bookmark ::
  "('s, 'r) ConsecutiveAckRecordContainer \<Rightarrow> 's \<Rightarrow> 'r option \<Rightarrow> effect list outcome" where
  "ack_record_save_bookmark vt s ack_record =
     bindO (read_record vt s ack_record) (\<lambda>rec. Inr (bookmark_save (ar_bookmark rec)))"

definition ack_records_untrack_msg ::
  "('s, 'r) ConsecutiveAckRecordContainer \<Rightarrow> ('s, 'r) ConsecutiveAckTracker \<Rightarrow> AckType
     \<Rightarrow> (guint32 \<times> effect list \<times> ('s, 'r) ConsecutiveAckTracker) outcome" where
  "ack_records_untrack_msg vt self ack_type =
     bindO (get_continual_range_length_fn vt (cat_ack_records self)) (\<lambda>len.
       let ack_range_length = ucast len :: guint32 in
       if ack_range_length > 0
       then bindO (if ack_type \<noteq> AT_ABORTED \<and> is_bookmark_saving_enabled self
                   then bindO (at_fn vt (cat_ack_records self) (ucast (ack_range_length - 1)))
                          (ack_record_save_bookmark vt (cat_ack_records self))
                   else Inr []) (\<lambda>saved.
              bindO (consecutive_ack_record_container_drop vt (cat_ack_records self)
                       (ucast ack_range_length)) (\<lambda>(dropped, s).
                Inr (ack_range_length, saved @ dropped, self\<lparr>cat_ack_records := s\<rparr>)))
       else Inr (ack_range_length, [], self))"

definition consecutive_ack_tracker_is_empty ::
  "('s, 'r) ConsecutiveAckRecordContainer \<Rightarrow> ('s, 'r) ConsecutiveAckTracker \<Rightarrow> bool" where
  "consecutive_ack_tracker_is_empty vt self = is_empty_fn vt (cat_ack_records self)"

definition consecutive_ack_tracker_manage_msg_ack ::
  "('s, 'r) ConsecutiveAckRecordContainer \<Rightarrow> ('s, 'r) ConsecutiveAckTracker \<Rightarrow> 'r option \<Rightarrow> AckType
     \<Rightarrow> (effect list \<times> ('s, 'r) ConsecutiveAckTracker) outcome" where
  "consecutive_ack_tracker_manage_msg_ack vt self ack_record ack_type =
     bindO (read_record vt (cat_ack_records self) ack_record) (\<lambda>ack_rec.
     bindO (write_record vt (cat_ack_records self) ack_record (ack_rec\<lparr>car_acked := True\<rparr>)) (\<lambda>s.
     let suspend = (if ack_type = AT_SUSPENDED then [FlowControlSuspend] else []) in
     bindO (ack_records_untrack_msg vt (self\<lparr>cat_ack_records := s\<rparr>) ack_type)
       (\<lambda>(ack_range_length, effs, self').
         if ack_range_length > 0
         then Inr (suspend @ effs
                   @ [if ack_type = AT_SUSPENDED then FlowControlAdjustWhenSuspended ack_range_length
                      else FlowControlAdjust ack_range_length]
                   @ (if consecutive_ack_tracker_is_empty vt self'
                      then consecutive_ack_tracker_on_all_acked_call self' else []), self')
         else Inr (suspend @ effs, self'))))"

definition consecutive_ack_tracker_request_bookmark ::
  "('s, 'r) ConsecutiveAckRecordContainer \<Rightarrow> ('s, 'r) ConsecutiveAckTracker
     \<Rightarrow> ('r option \<times> ('s, 'r) ConsecutiveAckTracker) outcome" where
  "consecutive_ack_tracker_request_bookmark vt self =
     bindO (if cat_pending_ack_record self = None
            then bindO (request_pending_fn vt (cat_ack_records self)) (\<lambda>(p, s).
                   Inr (self\<lparr>cat_pending_ack_record := p, cat_ack_records := s\<rparr>))
            else Inr self) (\<lambda>self'.
       case cat_pending_ack_record self' of
         None \<Rightarrow> Inr (None, self')
       | Some r \<Rightarrow>
           bindO (read_record vt (cat_ack_records self') (Some r)) (\<lambda>rec.
             bindO (write_record vt (cat_ack_records self') (Some r)
                      (rec\<lparr>ar_bookmark := (ar_bookmark rec)\<lparr>bm_persist_state := cat_persist_state self'\<rparr>,
                           ar_tracker := cat_address self'\<rparr>)) (\<lambda>s.
               Inr (Some r, self'\<lparr>cat_ack_records := s\<rparr>))))"

definition consecutive_ack_tracker_free ::
  "('s, 'r) ConsecutiveAckRecordContainer \<Rightarrow> ('s, 'r) ConsecutiveAckTracker \<Rightarrow> effect list outcome" where
  "consecutive_ack_tracker_free vt self =
     bindO (free_fn vt (cat_ack_records self)) (\<lambda>effs.
       let handler = cat_on_all_acked self in
       Inr ((case oaa_user_data_free_fn handler of
               None \<Rightarrow> []
             | Some f \<Rightarrow> if oaa_user_data handler \<noteq> None then [CallUserDataFree f (oaa_user_data handler)]
                         else []) @ effs))"

definition consecutive_ack_tracker_disable_bookmark_saving ::
  "('s, 'r) ConsecutiveAckTracker \<Rightarrow> ('s, 'r) ConsecutiveAckTracker" where
  "consecutive_ack_tracker_disable_bookmark_saving self = self\<lparr>cat_bookmark_saving_disabled := True\<rparr>"

section \<open>Runs\<close>

text \<open>
  The life of a source: it requests a bookmark and fills it (\<open>Request\<close>), posts the message
  (\<open>Track\<close>), and the destinations acknowledge the \<open>k\<close>-th posted message (\<open>Ack\<close>).  The second
  component of the state holds the \<^verbatim>\<open>ack_record\<close> address of every posted message.
\<close>

datatype tracker_op = Request Bookmark | Track | Ack nat AckType | DisableSaving

definition fill_bookmark :: "Bookmark \<Rightarrow> Bookmark \<Rightarrow> Bookmark" where
  "fill_bookmark b old =
     old\<lparr>bm_save := bm_save b, bm_destroy := bm_destroy b, bm_container := bm_container b\<rparr>"

definition tracker_step ::
  "('s, 'r) ConsecutiveAckRecordContainer \<Rightarrow> tracker_op \<Rightarrow> ('s, 'r) ConsecutiveAckTracker \<times> 'r option list
     \<Rightarrow> (effect list \<times> ('s, 'r) ConsecutiveAckTracker \<times> 'r option list) outcome" where
  "tracker_step vt ins st =
     (let (self, msgs) = st in
      case ins of
        Request b \<Rightarrow>
          bindO (consecutive_ack_tracker_request_bookmark vt self) (\<lambda>(p, self').
            case p of
              None \<Rightarrow> Inr ([], self', msgs)
            | Some r \<Rightarrow>
                bindO (read_record vt (cat_ack_records self') (Some r)) (\<lambda>rec.
                  bindO (write_record vt (cat_ack_records self') (Some r)
                           (rec\<lparr>ar_bookmark := fill_bookmark b (ar_bookmark rec)\<rparr>)) (\<lambda>s.
                    Inr ([], self'\<lparr>cat_ack_records := s\<rparr>, msgs))))
      | Track \<Rightarrow>
          bindO (consecutive_ack_tracker_track_msg vt self) (\<lambda>(r, self'). Inr ([], self', msgs @ [r]))
      | Ack k ack_type \<Rightarrow>
          bindO (consecutive_ack_tracker_manage_msg_ack vt self (msgs ! k) ack_type)
            (\<lambda>(effs, self'). Inr (effs, self', msgs))
      | DisableSaving \<Rightarrow> Inr ([], consecutive_ack_tracker_disable_bookmark_saving self, msgs))"

fun tracker_run ::
  "('s, 'r) ConsecutiveAckRecordContainer \<Rightarrow> tracker_op list \<Rightarrow> ('s, 'r) ConsecutiveAckTracker \<times> 'r option list
     \<Rightarrow> (effect list \<times> ('s, 'r) ConsecutiveAckTracker \<times> 'r option list) outcome" where
  "tracker_run vt [] st = Inr ([], st)"
| "tracker_run vt (ins # rest) st =
     bindO (tracker_step vt ins st) (\<lambda>(effs, st').
       bindO (tracker_run vt rest st') (\<lambda>(effs', st''). Inr (effs @ effs', st'')))"

section \<open>Specification\<close>

record tracker_spec =
  sp_messages :: "(Bookmark \<times> bool) list"
  sp_pending :: "Bookmark option"
  sp_disabled :: bool

definition released :: "(Bookmark \<times> bool) list \<Rightarrow> nat" where
  "released msgs = length (takeWhile snd msgs)"

definition spec_ack_effects ::
  "effect list \<Rightarrow> bool \<Rightarrow> AckType \<Rightarrow> (Bookmark \<times> bool) list \<Rightarrow> (Bookmark \<times> bool) list \<Rightarrow> effect list" where
  "spec_ack_effects all_acked disabled ack_type old new =
     (let n = released new - released old in
      (if ack_type = AT_SUSPENDED then [FlowControlSuspend] else []) @
      (if n = 0 then []
       else (if ack_type \<noteq> AT_ABORTED \<and> \<not> disabled then bookmark_save (fst (new ! (released new - 1))) else []) @
            concat (map (bookmark_destroy \<circ> fst) (take n (drop (released old) new))) @
            [if ack_type = AT_SUSPENDED then FlowControlAdjustWhenSuspended (of_nat n)
             else FlowControlAdjust (of_nat n)] @
            (if released new = length new then all_acked else [])))"

definition spec_step ::
  "nat option \<Rightarrow> address \<Rightarrow> effect list \<Rightarrow> tracker_op \<Rightarrow> tracker_spec \<Rightarrow> effect list \<times> tracker_spec" where
  "spec_step lim state all_acked ins sp =
     (case ins of
        Request b \<Rightarrow>
          ([], if sp_pending sp = None \<and> lim \<noteq> None \<and>
                  the lim \<le> length (sp_messages sp) - released (sp_messages sp)
               then sp else sp\<lparr>sp_pending := Some (b\<lparr>bm_persist_state := state\<rparr>)\<rparr>)
      | Track \<Rightarrow>
          (case sp_pending sp of
             None \<Rightarrow> ([], sp)
           | Some b \<Rightarrow> ([], sp\<lparr>sp_messages := sp_messages sp @ [(b, False)], sp_pending := None\<rparr>))
      | Ack k ack_type \<Rightarrow>
          (let new = (sp_messages sp)[k := (fst (sp_messages sp ! k), True)] in
           (spec_ack_effects all_acked (sp_disabled sp) ack_type (sp_messages sp) new,
            sp\<lparr>sp_messages := new\<rparr>))
      | DisableSaving \<Rightarrow> ([], sp\<lparr>sp_disabled := True\<rparr>))"

text \<open>A client posts only after a bookmark was granted, and acknowledges every posted message at most
  once; fewer than \<open>2 ^ 32 - 1\<close> messages are outstanding.\<close>

definition spec_enabled :: "tracker_op \<Rightarrow> tracker_spec \<Rightarrow> bool" where
  "spec_enabled ins sp =
     (case ins of
        Request b \<Rightarrow> True
      | Track \<Rightarrow> sp_pending sp \<noteq> None \<and>
                 length (sp_messages sp) - released (sp_messages sp) + 1 < 2 ^ 32
      | Ack k ack_type \<Rightarrow> k < length (sp_messages sp) \<and> \<not> snd (sp_messages sp ! k)
      | DisableSaving \<Rightarrow> True)"

fun spec_run ::
  "nat option \<Rightarrow> address \<Rightarrow> effect list \<Rightarrow> tracker_op list \<Rightarrow> tracker_spec \<Rightarrow> effect list \<times> tracker_spec" where
  "spec_run lim state all_acked [] sp = ([], sp)"
| "spec_run lim state all_acked (ins # rest) sp =
     (let (effs, sp') = spec_step lim state all_acked ins sp;
          (effs', sp'') = spec_run lim state all_acked rest sp'
      in (effs @ effs', sp''))"

fun spec_admissible ::
  "nat option \<Rightarrow> address \<Rightarrow> effect list \<Rightarrow> tracker_op list \<Rightarrow> tracker_spec \<Rightarrow> bool" where
  "spec_admissible lim state all_acked [] sp = True"
| "spec_admissible lim state all_acked (ins # rest) sp =
     (spec_enabled ins sp \<and>
      spec_admissible lim state all_acked rest (snd (spec_step lim state all_acked ins sp)))"

definition spec_init :: tracker_spec where
  "spec_init = \<lparr>sp_messages = [], sp_pending = None, sp_disabled = False\<rparr>"

text \<open>A new tracker with its handler for the case that every message is acknowledged.\<close>

definition tracker_start ::
  "address \<Rightarrow> address \<Rightarrow> 's \<Rightarrow> address \<Rightarrow> address \<Rightarrow> address \<Rightarrow> ('s, 'r) ConsecutiveAckTracker" where
  "tracker_start addr state c func user_data free =
     snd (consecutive_ack_tracker_set_on_all_acked (consecutive_ack_tracker_new addr state c)
            func user_data free)"

definition all_acked_effect :: "address \<Rightarrow> address \<Rightarrow> effect list" where
  "all_acked_effect func user_data =
     (case func of None \<Rightarrow> [] | Some f \<Rightarrow> [CallOnAllAcked f user_data])"

text \<open>No request of \<open>ops\<close> finds \<open>l\<close> messages outstanding.\<close>

fun within_window ::
  "nat \<Rightarrow> address \<Rightarrow> effect list \<Rightarrow> tracker_op list \<Rightarrow> tracker_spec \<Rightarrow> bool" where
  "within_window l state all_acked [] sp = True"
| "within_window l state all_acked (ins # rest) sp =
     ((\<forall>b. ins = Request b \<longrightarrow> length (sp_messages sp) - released (sp_messages sp) < l) \<and>
      within_window l state all_acked rest (snd (spec_step None state all_acked ins sp)))"

fun window_total :: "effect list \<Rightarrow> nat" where
  "window_total [] = 0"
| "window_total (e # es) =
     (case e of
        FlowControlAdjust n \<Rightarrow> unat n
      | FlowControlAdjustWhenSuspended n \<Rightarrow> unat n
      | _ \<Rightarrow> 0) + window_total es"

section \<open>Refinement\<close>

lemma length_takeWhile_drop:
  assumes "a \<le> length (takeWhile P xs)"
  shows "length (takeWhile P (drop a xs)) = length (takeWhile P xs) - a"
  using assms
proof (induction a arbitrary: xs)
  case (Suc a)
  then show ?case by (cases xs) (auto split: if_splits)
qed simp

lemma released_le_length: "released msgs \<le> length msgs"
  by (simp add: released_def length_takeWhile_le)

lemma released_le:
  assumes "k < length msgs" and "\<not> snd (msgs ! k)"
  shows "released msgs \<le> k"
proof (rule ccontr)
  assume "\<not> released msgs \<le> k"
  then have "takeWhile snd msgs ! k \<in> set (takeWhile snd msgs)" by (simp add: released_def)
  then have "snd (takeWhile snd msgs ! k)" by (metis set_takeWhileD)
  with \<open>\<not> released msgs \<le> k\<close> assms(2) show False by (simp add: released_def takeWhile_nth)
qed

lemma released_mono:
  assumes "\<And>i. i < released msgs \<Longrightarrow> snd (msgs' ! i)" and "length msgs' = length msgs"
  shows "released msgs \<le> released msgs'"
  using assms released_le_length [of msgs] unfolding released_def
  by (intro length_takeWhile_ge) auto

lemma nth_less_released:
  assumes "i < released msgs"
  shows "snd (msgs ! i)"
  using assms released_le [of i msgs] released_le_length [of msgs] by (meson linorder_not_le order.strict_trans2)

lemma released_ack:
  assumes "k < length msgs"
  shows "released msgs \<le> released (msgs[k := (b, True)])"
proof (rule released_mono)
  fix i
  assume "i < released msgs"
  then show "snd (msgs[k := (b, True)] ! i)"
    using nth_less_released [of i msgs] assms by (cases "i = k") simp_all
qed simp

lemma released_append:
  "\<not> snd m \<Longrightarrow> released (msgs @ [m]) = released msgs"
  by (cases "\<forall>x \<in> set msgs. snd x")
    (auto simp: released_def takeWhile_append takeWhile_eq_all_conv [THEN iffD2])

definition record_view :: "'r \<times> ConsecutiveAckRecord \<Rightarrow> 'r option \<times> Bookmark \<times> bool" where
  "record_view e = (Some (fst e), ar_bookmark (snd e), car_acked (snd e))"

lemma record_view_simp [simp]: "record_view (r, x) = (Some r, ar_bookmark x, car_acked x)"
  by (simp add: record_view_def)

context ack_record_container
begin

text \<open>\<open>outstanding c msgs M\<close>: the stored records are those of the messages of \<open>M\<close> from \<open>a\<close> on.\<close>

definition outstanding :: "'s \<Rightarrow> nat \<Rightarrow> 'r option list \<Rightarrow> (Bookmark \<times> bool) list \<Rightarrow> bool" where
  "outstanding c a msgs M \<longleftrightarrow>
     invar c \<and> length msgs = length M \<and> map record_view (records c) = drop a (zip msgs M)"

lemma outstanding_length:
  assumes "outstanding c a msgs M"
  shows "length (records c) = length M - a"
proof -
  have "length (map record_view (records c)) = length (drop a (zip msgs M))"
    using assms by (simp only: outstanding_def)
  then show ?thesis using assms by (simp add: outstanding_def)
qed

lemma outstanding_nth:
  assumes "outstanding c a msgs M" and "i < length M - a"
  shows "record_view (records c ! i) = (msgs ! (a + i), M ! (a + i))"
proof -
  have "record_view (records c ! i) = map record_view (records c) ! i"
    using assms outstanding_length [OF assms(1)] by simp
  also have "\<dots> = drop a (zip msgs M) ! i" using assms(1) by (simp add: outstanding_def)
  finally show ?thesis using assms by (simp add: outstanding_def)
qed

lemma outstanding_range:
  assumes "outstanding c a msgs M" and "a \<le> released M"
  shows "length (takeWhile (car_acked \<circ> snd) (records c)) = released M - a"
proof -
  have "takeWhile (snd \<circ> snd) (map record_view (records c))
      = map record_view (takeWhile (car_acked \<circ> snd) (records c))"
    by (simp add: takeWhile_map comp_def record_view_def)
  then have "length (takeWhile (car_acked \<circ> snd) (records c))
      = length (takeWhile (snd \<circ> snd) (drop a (zip msgs M)))"
    using assms(1) by (metis length_map outstanding_def)
  also have "\<dots> = length (takeWhile snd (map snd (drop a (zip msgs M))))"
    by (simp add: takeWhile_map)
  also have "map snd (drop a (zip msgs M)) = drop a M"
    using assms(1) by (simp add: drop_map [symmetric] outstanding_def)
  finally show ?thesis
    using assms(2) by (simp add: released_def length_takeWhile_drop comp_def)
qed

lemma outstanding_destroy:
  assumes "outstanding c a msgs M"
  shows "map (consecutive_ack_record_destroy \<circ> snd) (take n (records c))
           = map (bookmark_destroy \<circ> fst) (take n (drop a M))"
proof -
  have "map (consecutive_ack_record_destroy \<circ> snd) (records c)
      = map (bookmark_destroy \<circ> fst \<circ> snd) (map record_view (records c))"
    by (simp add: comp_def record_view_def consecutive_ack_record_destroy_def)
  also have "\<dots> = map (bookmark_destroy \<circ> fst) (map snd (drop a (zip msgs M)))"
    using assms by (simp add: outstanding_def comp_def)
  also have "map snd (drop a (zip msgs M)) = drop a M"
    using assms by (simp add: drop_map [symmetric] outstanding_def)
  finally show ?thesis by (simp only: take_map [symmetric])
qed

lemma last_released_record:
  assumes out: "outstanding c a msgs M" and n: "n = released M - a" "0 < n"
  shows "\<exists>r x. at_fn vt c (ucast (of_nat n - 1 :: guint32)) = Inr (Some r) \<and>
               read_record vt c (Some r) = Inr x \<and> ar_bookmark x = fst (M ! (released M - 1))"
proof -
  have inv: "invar c" using out by (simp add: outstanding_def)
  have len: "n \<le> length (records c)"
    using released_le_length [of M] by (simp add: n(1) outstanding_length [OF out])
  then have "unat (of_nat n :: guint32) = n" using records_short [OF inv] by (simp add: unat_of_nat)
  then have pred: "unat (ucast (of_nat n - 1 :: guint32) :: guint64) = n - 1"
    using n(2) by (simp add: unat_minus_le)
  have idx: "n - 1 < length (records c)" using len n(2) by simp
  obtain r x where rx: "records c ! (n - 1) = (r, x)" by fastforce
  have "record_view (r, x) = (msgs ! (a + (n - 1)), M ! (a + (n - 1)))"
    unfolding rx [symmetric] using idx
    by (intro outstanding_nth [OF out]) (simp add: outstanding_length [OF out])
  moreover have "a + (n - 1) = released M - 1" using n by simp
  ultimately have "ar_bookmark x = fst (M ! (released M - 1))" by (simp add: prod_eq_iff)
  moreover have "at_fn vt c (ucast (of_nat n - 1 :: guint32)) = Inr (Some r)"
    using at_law [OF inv, of "ucast (of_nat n - 1 :: guint32)", unfolded pred, OF idx, unfolded rx]
    by simp
  moreover have "read_record vt c (Some r) = Inr x"
    using read_law [OF inv] rx idx by (metis nth_mem)
  ultimately show ?thesis by blast
qed

lemma untrack_msg:
  assumes out: "outstanding (cat_ack_records self) a msgs M" and a: "a \<le> released M"
  defines "n \<equiv> released M - a"
  shows "\<exists>c'. ack_records_untrack_msg vt self t
           = Inr (of_nat n,
                  if n = 0 then []
                  else (if t \<noteq> AT_ABORTED \<and> \<not> cat_bookmark_saving_disabled self
                        then bookmark_save (fst (M ! (released M - 1))) else []) @
                       concat (map (bookmark_destroy \<circ> fst) (take n (drop a M))),
                  self\<lparr>cat_ack_records := c'\<rparr>) \<and>
         outstanding c' (released M) msgs M \<and> pending c' = pending (cat_ack_records self) \<and>
         limit c' = limit (cat_ack_records self) \<and>
         (pending c' \<noteq> None \<longrightarrow> read_record vt c' (pending c') = read_record vt (cat_ack_records self) (pending c'))"
proof -
  let ?c = "cat_ack_records self"
  have inv: "invar ?c" using out by (simp add: outstanding_def)
  have len: "n \<le> length (records ?c)"
    using released_le_length [of M] by (simp add: n_def outstanding_length [OF out])
  then have small: "n < 2 ^ 32" using records_short [OF inv] by simp
  have range: "get_continual_range_length_fn vt ?c = Inr (of_nat n)"
    using range_law [OF inv] by (simp add: outstanding_range [OF out a] n_def)
  have u64: "unat (of_nat n :: guint64) = n" and u32: "unat (of_nat n :: guint32) = n"
    using small by (simp_all add: unat_of_nat)
  have cast: "(ucast (of_nat n :: guint64) :: guint32) = of_nat n"
    "(ucast (of_nat n :: guint32) :: guint64) = of_nat n"
    using small by (simp_all add: word_unat_eq_iff unat_ucast_32 u64 u32)
  show ?thesis
  proof (cases "n = 0")
    case True
    then have "released M = a" using a by (simp add: n_def)
    then show ?thesis
      using out True range
      by (intro exI [of _ ?c]) (simp add: ack_records_untrack_msg_def)
  next
    case False
    have pos: "(0 :: guint32) < of_nat n" using False u32 by (simp add: word_less_nat_alt)
    from last_released_record [OF out n_def [THEN meta_eq_to_obj_eq]] False obtain r x where
      at: "at_fn vt ?c (ucast (of_nat n - 1 :: guint32)) = Inr (Some r)"
      and rd: "read_record vt ?c (Some r) = Inr x" and bm: "ar_bookmark x = fst (M ! (released M - 1))"
      by blast
    have "0 < unat (of_nat n :: guint64)" "unat (of_nat n :: guint64) \<le> length (records ?c)"
      using False len by (simp_all add: u64)
    from drop_law [OF inv this] obtain c' where c':
      "drop_fn vt ?c (of_nat n) = Inr (concat (map (consecutive_ack_record_destroy \<circ> snd) (take n (records ?c))), c')"
      "invar c'" "records c' = drop n (records ?c)" "pending c' = pending ?c" "limit c' = limit ?c"
      "pending ?c \<noteq> None \<longrightarrow> read_record vt c' (pending ?c) = read_record vt ?c (pending ?c)"
      unfolding u64 by (elim exE conjE)
    have "consecutive_ack_record_container_drop vt ?c (of_nat n)
        = Inr (concat (map (bookmark_destroy \<circ> fst) (take n (drop a M))), c')"
      using c'(1) size_law [OF inv] len outstanding_destroy [OF out, of n]
      by (simp add: consecutive_ack_record_container_drop_def word_le_nat_alt u64)
    moreover have "outstanding c' (released M) msgs M"
      using out a c'(2,3) by (simp add: outstanding_def drop_map [symmetric] n_def)
    ultimately show ?thesis
      using False pos range at rd c'
      by (auto simp: ack_records_untrack_msg_def Let_def cast is_bookmark_saving_enabled_def
          ack_record_save_bookmark_def bm)
  qed
qed

end

lemma on_all_acked_call_update [simp]:
  "consecutive_ack_tracker_on_all_acked_call (self\<lparr>cat_ack_records := c\<rparr>)
     = consecutive_ack_tracker_on_all_acked_call self"
  "consecutive_ack_tracker_on_all_acked_call (self\<lparr>cat_pending_ack_record := p\<rparr>)
     = consecutive_ack_tracker_on_all_acked_call self"
  "consecutive_ack_tracker_on_all_acked_call (self\<lparr>cat_bookmark_saving_disabled := d\<rparr>)
     = consecutive_ack_tracker_on_all_acked_call self"
  by (simp_all add: consecutive_ack_tracker_on_all_acked_call_def cong: option.case_cong)

context ack_record_container
begin

definition tracker_rel ::
  "nat option \<Rightarrow> address \<Rightarrow> effect list \<Rightarrow> ('s, 'r) ConsecutiveAckTracker \<times> 'r option list \<Rightarrow> tracker_spec \<Rightarrow> bool" where
  "tracker_rel lim state all_acked st sp \<longleftrightarrow>
     cat_persist_state (fst st) = state \<and>
     consecutive_ack_tracker_on_all_acked_call (fst st) = all_acked \<and>
     cat_bookmark_saving_disabled (fst st) = sp_disabled sp \<and>
     cat_pending_ack_record (fst st) = pending (cat_ack_records (fst st)) \<and>
     limit (cat_ack_records (fst st)) = lim \<and>
     outstanding (cat_ack_records (fst st)) (released (sp_messages sp)) (snd st) (sp_messages sp) \<and>
     (case sp_pending sp of
        None \<Rightarrow> pending (cat_ack_records (fst st)) = None
      | Some b \<Rightarrow>
          pending (cat_ack_records (fst st)) \<noteq> None \<and>
          (\<exists>x. read_record vt (cat_ack_records (fst st)) (pending (cat_ack_records (fst st))) = Inr x \<and>
               ar_bookmark x = b))"

lemma write_bookmark:
  assumes "invar c" and "pending c = Some r" and "read_record vt c (Some r) = Inr x"
    and "car_acked y = car_acked x"
  shows "\<exists>c'. write_record vt c (Some r) y = Inr c' \<and> invar c' \<and> records c' = records c \<and>
           pending c' = Some r \<and> read_record vt c' (Some r) = Inr y \<and> limit c' = limit c"
  using assms pending_record [OF assms(1,2)] by (intro write_pending_law) auto

lemma request_bookmark:
  assumes inv: "invar (cat_ack_records self)"
    and pend: "cat_pending_ack_record self = pending (cat_ack_records self)"
    and full: "pending (cat_ack_records self) = None \<longrightarrow> limit (cat_ack_records self) \<noteq> None \<longrightarrow>
                 length (records (cat_ack_records self)) < the (limit (cat_ack_records self))"
  shows "\<exists>r x c'. consecutive_ack_tracker_request_bookmark vt self
             = Inr (Some r, self\<lparr>cat_pending_ack_record := Some r, cat_ack_records := c'\<rparr>) \<and>
           invar c' \<and> records c' = records (cat_ack_records self) \<and> pending c' = Some r \<and>
           limit c' = limit (cat_ack_records self) \<and>
           read_record vt c' (Some r) = Inr x \<and> bm_persist_state (ar_bookmark x) = cat_persist_state self"
proof -
  let ?c = "cat_ack_records self"
  from request_law [OF inv] obtain p c1 where c1:
    "request_pending_fn vt ?c = Inr (p, c1)" "invar c1" "records c1 = records ?c" "pending c1 = p"
    "limit c1 = limit ?c"
    "p = None \<longleftrightarrow> pending ?c = None \<and> limit ?c \<noteq> None \<and> the (limit ?c) \<le> length (records ?c)"
    "pending ?c = None \<or> c1 = ?c"
    by (elim exE conjE)
  then obtain r where r: "p = Some r" using full by fastforce
  from pending_record [OF c1(2), of r] c1(4) r obtain x where
    x: "read_record vt c1 (Some r) = Inr x" by auto
  let ?y = "x\<lparr>ar_bookmark := (ar_bookmark x)\<lparr>bm_persist_state := cat_persist_state self\<rparr>,
              ar_tracker := cat_address self\<rparr>"
  from write_bookmark [OF c1(2) _ x, of ?y] c1(4) r obtain c2 where c2:
    "write_record vt c1 (Some r) ?y = Inr c2" "invar c2" "records c2 = records c1"
    "pending c2 = Some r" "read_record vt c2 (Some r) = Inr ?y" "limit c2 = limit c1" by auto
  have "consecutive_ack_tracker_request_bookmark vt self
      = Inr (Some r, self\<lparr>cat_pending_ack_record := Some r, cat_ack_records := c2\<rparr>)"
    using c1 x c2 r pend
    by (cases "pending ?c") (auto simp: consecutive_ack_tracker_request_bookmark_def)
  moreover have "bm_persist_state (ar_bookmark ?y) = cat_persist_state self" by simp
  ultimately show ?thesis using c1(3,5) c2(2-6) by (metis)
qed

lemma request_refused:
  assumes inv: "invar (cat_ack_records self)" and "cat_pending_ack_record self = None"
    and "pending (cat_ack_records self) = None" and "limit (cat_ack_records self) = Some l"
    and "l \<le> length (records (cat_ack_records self))"
  shows "\<exists>c'. consecutive_ack_tracker_request_bookmark vt self
             = Inr (None, self\<lparr>cat_pending_ack_record := None, cat_ack_records := c'\<rparr>) \<and>
           invar c' \<and> records c' = records (cat_ack_records self) \<and> pending c' = None \<and>
           limit c' = limit (cat_ack_records self)"
proof -
  let ?c = "cat_ack_records self"
  from request_law [OF inv] obtain p c1 where
    "request_pending_fn vt ?c = Inr (p, c1)" "invar c1" "records c1 = records ?c" "pending c1 = p"
    "limit c1 = limit ?c"
    "p = None \<longleftrightarrow> pending ?c = None \<and> limit ?c \<noteq> None \<and> the (limit ?c) \<le> length (records ?c)"
    by (elim exE conjE)
  then show ?thesis using assms by (auto simp: consecutive_ack_tracker_request_bookmark_def)
qed

lemma outstanding_cong:
  "invar c' \<Longrightarrow> records c' = records c \<Longrightarrow> outstanding c a msgs M \<Longrightarrow> outstanding c' a msgs M"
  by (simp add: outstanding_def)

lemma step_request:
  assumes rel: "tracker_rel lim state all_acked st sp"
  shows "\<exists>st'. tracker_step vt (Request b) st = Inr ([], st') \<and>
           tracker_rel lim state all_acked st' (snd (spec_step lim state all_acked (Request b) sp))"
proof -
  obtain self msgs where st: "st = (self, msgs)" by fastforce
  let ?c = "cat_ack_records self" and ?M = "sp_messages sp"
  have out: "outstanding ?c (released ?M) msgs ?M" and pend: "cat_pending_ack_record self = pending ?c"
    and lim: "limit ?c = lim" and inv: "invar ?c"
    and none: "sp_pending sp = None \<longleftrightarrow> pending ?c = None"
    using rel by (auto simp: tracker_rel_def st outstanding_def split: option.splits)
  note len = outstanding_length [OF out]
  show ?thesis
  proof (cases "sp_pending sp = None \<and> lim \<noteq> None \<and> the lim \<le> length ?M - released ?M")
    case True
    then obtain c' where c': "consecutive_ack_tracker_request_bookmark vt self
          = Inr (None, self\<lparr>cat_pending_ack_record := None, cat_ack_records := c'\<rparr>)"
        "invar c'" "records c' = records ?c" "pending c' = None" "limit c' = limit ?c"
      using request_refused [OF inv, of "the lim"] pend none lim len by auto
    with True rel outstanding_cong [OF c'(2,3) out] show ?thesis
      by (auto simp: tracker_step_def st spec_step_def tracker_rel_def split: option.splits)
  next
    case False
    then obtain r x c' where c': "consecutive_ack_tracker_request_bookmark vt self
          = Inr (Some r, self\<lparr>cat_pending_ack_record := Some r, cat_ack_records := c'\<rparr>)"
        "invar c'" "records c' = records ?c" "pending c' = Some r" "limit c' = limit ?c"
        "read_record vt c' (Some r) = Inr x" "bm_persist_state (ar_bookmark x) = cat_persist_state self"
      using request_bookmark [OF inv pend] none lim len by auto
    let ?y = "x\<lparr>ar_bookmark := fill_bookmark b (ar_bookmark x)\<rparr>"
    from write_bookmark [OF c'(2,4,6), of ?y] obtain c2 where c2:
      "write_record vt c' (Some r) ?y = Inr c2" "invar c2" "records c2 = records c'"
      "pending c2 = Some r" "read_record vt c2 (Some r) = Inr ?y" "limit c2 = limit c'" by auto
    have "fill_bookmark b (ar_bookmark x) = b\<lparr>bm_persist_state := state\<rparr>"
      using c'(7) rel by (simp add: fill_bookmark_def tracker_rel_def st)
    with False c'(1,5,6) c2 rel outstanding_cong [OF c2(2) _ out] c'(3) show ?thesis
      by (auto simp: tracker_step_def st spec_step_def tracker_rel_def)
  qed
qed

lemma step_track:
  assumes rel: "tracker_rel lim state all_acked st sp" and en: "spec_enabled Track sp"
  shows "\<exists>st'. tracker_step vt Track st = Inr ([], st') \<and>
           tracker_rel lim state all_acked st' (snd (spec_step lim state all_acked Track sp))"
proof -
  obtain self msgs where st: "st = (self, msgs)" by fastforce
  let ?c = "cat_ack_records self" and ?M = "sp_messages sp"
  from en obtain b where b: "sp_pending sp = Some b" by (auto simp: spec_enabled_def)
  then obtain r x where r: "pending ?c = Some r" "read_record vt ?c (Some r) = Inr x" "ar_bookmark x = b"
    and out: "outstanding ?c (released ?M) msgs ?M" and pend: "cat_pending_ack_record self = Some r"
    and inv: "invar ?c"
    using rel by (auto simp: tracker_rel_def st outstanding_def)
  have na: "\<not> car_acked x" using pending_record [OF inv r(1)] r(2) by auto
  have "length (records ?c) + 1 < 2 ^ 32"
    using en outstanding_length [OF out] by (simp add: spec_enabled_def)
  from store_law [OF inv r(1,2) this] obtain c' where c':
    "store_pending_fn vt ?c = Inr c'" "invar c'" "records c' = records ?c @ [(r, x)]"
    "pending c' = None" "limit c' = limit ?c" by blast
  have "outstanding c' (released ?M) (msgs @ [Some r]) (?M @ [(b, False)])"
    using out c'(2,3) r(3) na released_le_length [of ?M] by (simp add: outstanding_def)
  with rel b pend c' show ?thesis
    by (auto simp: tracker_step_def st spec_step_def tracker_rel_def released_append
        consecutive_ack_tracker_track_msg_def ack_records_track_msg_def)
qed

lemma step_ack_mark:
  assumes out: "outstanding c (released M) msgs M" and k: "k < length M" "\<not> snd (M ! k)"
  shows "\<exists>x c'. read_record vt c (msgs ! k) = Inr x \<and>
           write_record vt c (msgs ! k) (x\<lparr>car_acked := True\<rparr>) = Inr c' \<and>
           outstanding c' (released M) msgs (M[k := (fst (M ! k), True)]) \<and> pending c' = pending c \<and>
           limit c' = limit c \<and>
           (pending c \<noteq> None \<longrightarrow> read_record vt c' (pending c) = read_record vt c (pending c))"
proof -
  let ?a = "released M" and ?i = "k - released M"
  have inv: "invar c" and lm: "length msgs = length M" using out by (simp_all add: outstanding_def)
  have ak: "?a \<le> k" by (rule released_le [OF k])
  have i: "?i < length (records c)" using k ak by (simp add: outstanding_length [OF out] diff_less_mono)
  obtain r x where rx: "records c ! ?i = (r, x)" by fastforce
  have view: "msgs ! k = Some r" "ar_bookmark x = fst (M ! k)"
    using outstanding_nth [OF out, of ?i] i ak rx
    by (simp_all add: outstanding_length [OF out] prod_eq_iff)
  have rd: "read_record vt c (Some r) = Inr x"
    using read_law [OF inv] rx i by (metis nth_mem)
  from write_stored_law [OF inv i, of r "x\<lparr>car_acked := True\<rparr>"] rx obtain c' where c':
    "write_record vt c (Some r) (x\<lparr>car_acked := True\<rparr>) = Inr c'" "invar c'"
    "records c' = (records c)[?i := (r, x\<lparr>car_acked := True\<rparr>)]" "pending c' = pending c"
    "limit c' = limit c"
    "pending c \<noteq> None \<longrightarrow> read_record vt c' (pending c) = read_record vt c (pending c)" by auto
  have "map record_view (records c') = (drop ?a (zip msgs M))[?i := (msgs ! k, fst (M ! k), True)]"
    using out view by (simp add: c'(3) map_update outstanding_def)
  also have "\<dots> = drop ?a (zip msgs (M[k := (fst (M ! k), True)]))"
    using ak k lm zip_update [of msgs k "msgs ! k" M "(fst (M ! k), True)"]
    by (simp add: drop_update_swap)
  finally show ?thesis
    using rd c' view lm by (auto simp: outstanding_def)
qed

lemma step_ack:
  assumes rel: "tracker_rel lim state all_acked st sp" and en: "spec_enabled (Ack k t) sp"
  shows "\<exists>st'. tracker_step vt (Ack k t) st = Inr (fst (spec_step lim state all_acked (Ack k t) sp), st') \<and>
           tracker_rel lim state all_acked st' (snd (spec_step lim state all_acked (Ack k t) sp))"
proof -
  obtain self msgs where st: "st = (self, msgs)" by fastforce
  let ?c = "cat_ack_records self" and ?M = "sp_messages sp"
  let ?M' = "?M[k := (fst (?M ! k), True)]"
  let ?n = "released ?M' - released ?M"
  have k: "k < length ?M" "\<not> snd (?M ! k)" using en by (auto simp: spec_enabled_def)
  have out: "outstanding ?c (released ?M) msgs ?M" using rel by (simp add: tracker_rel_def st)
  from step_ack_mark [OF out k] obtain x c1 where c1:
    "read_record vt ?c (msgs ! k) = Inr x"
    "write_record vt ?c (msgs ! k) (x\<lparr>car_acked := True\<rparr>) = Inr c1"
    "outstanding c1 (released ?M) msgs ?M'" "pending c1 = pending ?c" "limit c1 = limit ?c"
    "pending ?c \<noteq> None \<longrightarrow> read_record vt c1 (pending ?c) = read_record vt ?c (pending ?c)"
    by (elim exE conjE)
  let ?self1 = "self\<lparr>cat_ack_records := c1\<rparr>"
  have "outstanding (cat_ack_records ?self1) (released ?M) msgs ?M'" using c1(3) by simp
  from untrack_msg [OF this released_ack [OF k(1)], of t] obtain c2 where c2:
    "ack_records_untrack_msg vt ?self1 t
       = Inr (of_nat ?n,
              if ?n = 0 then []
              else (if t \<noteq> AT_ABORTED \<and> \<not> cat_bookmark_saving_disabled ?self1
                    then bookmark_save (fst (?M' ! (released ?M' - 1))) else []) @
                   concat (map (bookmark_destroy \<circ> fst) (take ?n (drop (released ?M) ?M'))),
              ?self1\<lparr>cat_ack_records := c2\<rparr>)"
    "outstanding c2 (released ?M') msgs ?M'" "pending c2 = pending (cat_ack_records ?self1)"
    "limit c2 = limit (cat_ack_records ?self1)"
    "pending c2 \<noteq> None \<longrightarrow>
       read_record vt c2 (pending c2) = read_record vt (cat_ack_records ?self1) (pending c2)"
    by (elim exE conjE)
  have inv2: "invar c2" using c2(2) by (simp add: outstanding_def)
  have "?n < 2 ^ 32"
    using outstanding_length [OF c1(3)] records_short [of c1] c1(3) released_le_length [of ?M']
    by (simp add: outstanding_def)
  then have pos: "(0 :: guint32) < of_nat ?n \<longleftrightarrow> ?n \<noteq> 0"
    by (auto simp: word_less_nat_alt unat_of_nat)
  have emp: "is_empty_fn vt c2 \<longleftrightarrow> released ?M' = length ?M'"
    using is_empty_law [OF inv2] outstanding_length [OF c2(2)] released_le_length [of ?M']
    by (auto simp: length_0_conv [symmetric] simp del: length_0_conv)
  have "tracker_step vt (Ack k t) st
      = Inr (fst (spec_step lim state all_acked (Ack k t) sp), (self\<lparr>cat_ack_records := c2\<rparr>, msgs))"
    using rel pos
    by (simp add: tracker_step_def st consecutive_ack_tracker_manage_msg_ack_def c1(1,2) c2(1)
        spec_step_def spec_ack_effects_def Let_def consecutive_ack_tracker_is_empty_def emp
        tracker_rel_def)
  moreover have "tracker_rel lim state all_acked (self\<lparr>cat_ack_records := c2\<rparr>, msgs)
      (snd (spec_step lim state all_acked (Ack k t) sp))"
    using rel c2(2-5) c1(4-6)
    by (auto simp: tracker_rel_def st spec_step_def Let_def split: option.splits)
  ultimately show ?thesis by blast
qed

lemma step_refines:
  assumes "tracker_rel lim state all_acked st sp" and "spec_enabled ins sp"
  shows "\<exists>st'. tracker_step vt ins st = Inr (fst (spec_step lim state all_acked ins sp), st') \<and>
           tracker_rel lim state all_acked st' (snd (spec_step lim state all_acked ins sp))"
proof (cases ins)
  case (Request b)
  then show ?thesis using step_request [OF assms(1), of b] by (simp add: spec_step_def)
next
  case Track
  then show ?thesis
    using step_track [OF assms(1)] assms(2) by (auto simp: spec_step_def split: option.splits)
next
  case (Ack k t)
  then show ?thesis using step_ack assms by simp
next
  case DisableSaving
  then show ?thesis
    using assms(1)
    by (auto simp: spec_step_def tracker_step_def tracker_rel_def
        consecutive_ack_tracker_disable_bookmark_saving_def split: prod.splits option.splits)
qed

theorem run_refines:
  assumes "tracker_rel lim state all_acked st sp" and "spec_admissible lim state all_acked ops sp"
  shows "\<exists>st'. tracker_run vt ops st = Inr (fst (spec_run lim state all_acked ops sp), st') \<and>
           tracker_rel lim state all_acked st' (snd (spec_run lim state all_acked ops sp))"
  using assms
proof (induction ops arbitrary: st sp)
  case (Cons ins ops)
  from Cons.prems step_refines [of lim state all_acked st sp ins] obtain st1 where st1:
    "tracker_step vt ins st = Inr (fst (spec_step lim state all_acked ins sp), st1)"
    "tracker_rel lim state all_acked st1 (snd (spec_step lim state all_acked ins sp))" by auto
  from Cons.IH [OF st1(2)] Cons.prems(2) st1(1) show ?case by (auto simp: split_beta Let_def)
qed simp

lemma tracker_rel_new:
  assumes "invar c" and "records c = []" and "pending c = None"
  shows "tracker_rel (limit c) state (all_acked_effect func user_data)
           (tracker_start addr state c func user_data free, []) spec_init"
  using assms
  by (cases func)
    (simp_all add: tracker_rel_def tracker_start_def consecutive_ack_tracker_new_def spec_init_def
      outstanding_def consecutive_ack_tracker_on_all_acked_call_def all_acked_effect_def Let_def
      consecutive_ack_tracker_set_on_all_acked_def)

lemma run_from_start:
  assumes "invar c" and "records c = []" and "pending c = None"
    and adm: "spec_admissible (limit c) state (all_acked_effect func user_data) ops spec_init"
    and sp: "spec_run (limit c) state (all_acked_effect func user_data) ops spec_init = (effs, sp)"
  shows "\<exists>st'. tracker_run vt ops (tracker_start addr state c func user_data free, []) = Inr (effs, st') \<and>
           map record_view (records (cat_ack_records (fst st')))
             = drop (released (sp_messages sp)) (zip (snd st') (sp_messages sp))"
proof -
  from run_refines [OF tracker_rel_new [OF assms(1-3)] adm, of addr free, unfolded sp fst_conv snd_conv]
  obtain st' where "tracker_run vt ops (tracker_start addr state c func user_data free, []) = Inr (effs, st')"
    "tracker_rel (limit c) state (all_acked_effect func user_data) st' sp" by blast
  then show ?thesis unfolding tracker_rel_def outstanding_def by blast
qed

end

section \<open>What the specification guarantees\<close>

lemma window_total_append [simp]: "window_total (xs @ ys) = window_total xs + window_total ys"
  by (induction xs) simp_all

lemma window_total_bookmark [simp]:
  "window_total (bookmark_save b) = 0" "window_total (concat (map (bookmark_destroy \<circ> fst) ms)) = 0"
  "window_total (all_acked_effect func user_data) = 0"
  by (induction ms)
    (auto simp: bookmark_save_def bookmark_destroy_def all_acked_effect_def split: option.splits)

definition spec_inv :: "tracker_spec \<Rightarrow> bool" where
  "spec_inv sp \<longleftrightarrow> length (sp_messages sp) - released (sp_messages sp) < 2 ^ 32"

lemma spec_step_window:
  assumes "spec_inv sp" and "spec_enabled ins sp" and "spec_step lim state (all_acked_effect func ud) ins sp = (effs, sp')"
  shows "spec_inv sp'" and "released (sp_messages sp') = released (sp_messages sp) + window_total effs"
proof -
  have "spec_inv sp' \<and> released (sp_messages sp') = released (sp_messages sp) + window_total effs"
  proof (cases ins)
    case (Ack k t)
    let ?M = "sp_messages sp"
    let ?M' = "?M[k := (fst (?M ! k), True)]"
    have k: "k < length ?M" using assms(2) by (simp add: Ack spec_enabled_def)
    have mono: "released ?M \<le> released ?M'" by (rule released_ack [OF k])
    have "released ?M' - released ?M < 2 ^ 32"
      using assms(1) released_le_length [of ?M'] by (simp add: spec_inv_def)
    then have "unat (of_nat (released ?M' - released ?M) :: guint32) = released ?M' - released ?M"
      by (simp add: unat_of_nat del: of_nat_diff)
    then show ?thesis
      using assms mono
      by (auto simp: Ack spec_step_def Let_def spec_ack_effects_def spec_inv_def simp del: of_nat_diff)
  qed (use assms in \<open>auto simp: spec_step_def spec_inv_def spec_enabled_def released_append
        split: option.splits if_splits\<close>)
  then show "spec_inv sp'" and "released (sp_messages sp') = released (sp_messages sp) + window_total effs"
    by simp_all
qed

lemma spec_run_window:
  assumes "spec_inv sp" and "spec_admissible lim state (all_acked_effect func ud) ops sp"
    and "spec_run lim state (all_acked_effect func ud) ops sp = (effs, sp')"
  shows "released (sp_messages sp') = released (sp_messages sp) + window_total effs"
  using assms
proof (induction ops arbitrary: sp effs)
  case (Cons ins ops)
  obtain e1 sp1 where s1: "spec_step lim state (all_acked_effect func ud) ins sp = (e1, sp1)" by fastforce
  obtain e2 where s2: "spec_run lim state (all_acked_effect func ud) ops sp1 = (e2, sp')" "effs = e1 @ e2"
    using Cons.prems(3) by (auto simp: s1 split: prod.splits)
  have "spec_enabled ins sp" "spec_admissible lim state (all_acked_effect func ud) ops sp1"
    using Cons.prems(2) s1 by simp_all
  then show ?case
    using spec_step_window [OF Cons.prems(1) _ s1] Cons.IH [OF _ _ s2(1)] s2(2) by simp
qed simp

text \<open>A saved bookmark belongs to a message all of whose predecessors are acknowledged.\<close>

definition saved_ok :: "effect list \<Rightarrow> tracker_spec \<Rightarrow> bool" where
  "saved_ok effs sp \<longleftrightarrow>
     (\<forall>f b. CallSave f b \<in> set effs \<longrightarrow>
        (\<exists>j < length (sp_messages sp). fst (sp_messages sp ! j) = b \<and> (\<forall>i \<le> j. snd (sp_messages sp ! i))))"

definition extends :: "tracker_spec \<Rightarrow> tracker_spec \<Rightarrow> bool" where
  "extends sp sp' \<longleftrightarrow>
     length (sp_messages sp) \<le> length (sp_messages sp') \<and>
     (\<forall>i < length (sp_messages sp).
        fst (sp_messages sp' ! i) = fst (sp_messages sp ! i) \<and>
        (snd (sp_messages sp ! i) \<longrightarrow> snd (sp_messages sp' ! i)))"

lemma saved_ok_extends:
  assumes "saved_ok effs sp" and "extends sp sp'"
  shows "saved_ok effs sp'"
  unfolding saved_ok_def
proof (intro allI impI)
  fix f b
  assume "CallSave f b \<in> set effs"
  with assms(1) obtain j where j: "j < length (sp_messages sp)" "fst (sp_messages sp ! j) = b"
    "\<forall>i \<le> j. snd (sp_messages sp ! i)" by (auto simp: saved_ok_def)
  with assms(2) show "\<exists>j < length (sp_messages sp'). fst (sp_messages sp' ! j) = b \<and>
      (\<forall>i \<le> j. snd (sp_messages sp' ! i))"
    by (intro exI [of _ j]) (auto simp: extends_def)
qed

lemma nth_list_update_iff: "xs[k := y] ! i = (if k = i \<and> k < length xs then y else xs ! i)"
  by (cases "k < length xs") (auto simp: nth_list_update list_update_beyond)

lemma spec_step_extends: "extends sp (snd (spec_step lim state all_acked ins sp))"
  by (auto simp: extends_def spec_step_def Let_def nth_append nth_list_update_iff
      split: tracker_op.splits option.splits)

lemma extends_trans: "extends a b \<Longrightarrow> extends b c \<Longrightarrow> extends a c"
  unfolding extends_def by (auto intro: order.trans)

lemma spec_run_extends: "extends sp (snd (spec_run lim state all_acked ops sp))"
proof (induction ops arbitrary: sp)
  case (Cons ins ops)
  have "snd (spec_run lim state all_acked (ins # ops) sp)
      = snd (spec_run lim state all_acked ops (snd (spec_step lim state all_acked ins sp)))"
    by (simp add: split_beta Let_def)
  then show ?case using extends_trans [OF spec_step_extends Cons.IH] by metis
qed (simp add: extends_def)

lemma CallSave_ack:
  assumes "CallSave f b \<in> set (spec_ack_effects (all_acked_effect func ud) dis t M M')"
    and "length M' = length M"
  shows "0 < released M' \<and> b = fst (M' ! (released M' - 1))"
  using assms
  by (auto simp: spec_ack_effects_def Let_def bookmark_save_def bookmark_destroy_def all_acked_effect_def
      split: option.splits if_splits)

lemma spec_step_saved:
  assumes "spec_step lim state (all_acked_effect func ud) ins sp = (effs, sp')"
  shows "saved_ok effs sp'"
proof (cases ins)
  case (Ack k t)
  let ?M' = "(sp_messages sp)[k := (fst (sp_messages sp ! k), True)]"
  have sp': "sp_messages sp' = ?M'"
    and effs: "effs = spec_ack_effects (all_acked_effect func ud) (sp_disabled sp) t (sp_messages sp) ?M'"
    using assms by (auto simp: Ack spec_step_def Let_def)
  show ?thesis
    unfolding saved_ok_def sp' effs
  proof (intro allI impI)
    fix f b
    assume "CallSave f b \<in> set (spec_ack_effects (all_acked_effect func ud) (sp_disabled sp) t (sp_messages sp) ?M')"
    from CallSave_ack [OF this] have "0 < released ?M'" "b = fst (?M' ! (released ?M' - 1))" by simp_all
    then show "\<exists>j < length ?M'. fst (?M' ! j) = b \<and> (\<forall>i \<le> j. snd (?M' ! i))"
      using nth_less_released [of _ ?M'] released_le_length [of ?M']
      by (intro exI [of _ "released ?M' - 1"]) fastforce
  qed
qed (use assms in \<open>auto simp: spec_step_def saved_ok_def split: option.splits\<close>)

lemma saved_ok_append: "saved_ok (xs @ ys) sp \<longleftrightarrow> saved_ok xs sp \<and> saved_ok ys sp"
  by (auto simp: saved_ok_def)

lemma spec_run_saved:
  assumes "spec_run lim state (all_acked_effect func ud) ops sp = (effs, sp')"
  shows "saved_ok effs sp'"
  using assms
proof (induction ops arbitrary: sp effs)
  case (Cons ins ops)
  obtain e1 sp1 where s1: "spec_step lim state (all_acked_effect func ud) ins sp = (e1, sp1)" by fastforce
  obtain e2 where s2: "spec_run lim state (all_acked_effect func ud) ops sp1 = (e2, sp')" "effs = e1 @ e2"
    using Cons.prems by (auto simp: s1 split: prod.splits)
  have "extends sp1 sp'" using spec_run_extends [of sp1 lim state _ ops] s2(1) by (metis snd_conv)
  then show ?case
    using saved_ok_extends [OF spec_step_saved [OF s1]] Cons.IH [OF s2(1)] s2(2)
    by (simp add: saved_ok_append)
qed (simp add: saved_ok_def)

lemma spec_step_unlimited:
  assumes "\<forall>b. ins = Request b \<longrightarrow> length (sp_messages sp) - released (sp_messages sp) < l"
  shows "spec_step (Some l) state all_acked ins sp = spec_step None state all_acked ins sp"
  using assms by (auto simp: spec_step_def split: tracker_op.splits)

lemma spec_run_unlimited:
  assumes "within_window l state all_acked ops sp"
  shows "spec_run (Some l) state all_acked ops sp = spec_run None state all_acked ops sp"
    and "spec_admissible (Some l) state all_acked ops sp = spec_admissible None state all_acked ops sp"
  using assms
  by (induction ops arbitrary: sp) (auto simp: spec_step_unlimited split_beta Let_def)

section \<open>Properties of the tracker\<close>

text \<open>C1: Over the ring container the consecutive tracker implements its specification: on every
  admissible run (bookmarks are requested and filled, messages are posted, and each posted message is
  acknowledged at most once, in any order) no assertion fails, no record is read through a stale or
  null pointer, the outside calls are exactly those of the specification, and the records left in the
  ring are those of the messages behind the longest acknowledged prefix.\<close>

theorem static_tracker_refines:
  assumes "0 < sz" and "unat sz < 25000000"
    and "spec_admissible (Some (unat sz)) state (all_acked_effect func ud) ops spec_init"
    and "spec_run (Some (unat sz)) state (all_acked_effect func ud) ops spec_init = (effs, sp)"
  shows "\<exists>c st. consecutive_ack_record_container_static_new sz = Inr c \<and>
           tracker_run static_ops ops (tracker_start addr state c func ud free, []) = Inr (effs, st) \<and>
           map record_view (static_records (cat_ack_records (fst st)))
             = drop (released (sp_messages sp)) (zip (snd st) (sp_messages sp))"
proof -
  from static_new_law [OF assms(1,2)] obtain c where c:
    "consecutive_ack_record_container_static_new sz = Inr c" "static_invar c" "static_records c = []"
    "st_pending c = None" "static_limit c = Some (unat sz)" by blast
  with static.run_from_start [OF c(2-4), of state func ud ops effs sp addr free] assms(3,4)
  show ?thesis by auto
qed

definition example_bookmark :: "nat \<Rightarrow> Bookmark" where
  "example_bookmark i = \<lparr>bm_persist_state = Some 9, bm_save = Some 1, bm_destroy = Some 2,
     bm_container = [of_nat i]\<rparr>"

definition example_ops :: "tracker_op list" where
  "example_ops =
     [Request (example_bookmark 0), Track, Request (example_bookmark 1), Track,
      Ack 1 AT_PROCESSED, Request (example_bookmark 2), Ack 0 AT_PROCESSED]"

lemmas example_simps = example_ops_def example_bookmark_def spec_init_def spec_step_def
  spec_enabled_def spec_ack_effects_def released_def all_acked_effect_def bookmark_save_def
  bookmark_destroy_def

theorem static_tracker_refines_witness:
  "\<exists>c st. consecutive_ack_record_container_static_new 2 = Inr c \<and>
     tracker_run static_ops example_ops (tracker_start (Some 4) (Some 9) c (Some 5) (Some 6) None, [])
       = Inr ([CallSave 1 (example_bookmark 1), CallDestroy 2 (example_bookmark 0),
               CallDestroy 2 (example_bookmark 1), FlowControlAdjust 2, CallOnAllAcked 5 (Some 6)], st) \<and>
     map record_view (static_records (cat_ack_records (fst st))) = []"
  using static_tracker_refines [of 2 "Some 9" "Some 5" "Some 6" example_ops _ _ "Some 4" None]
  by (simp add: example_simps)

text \<open>C2: The same over the linked list container, which never refuses a request: no record is freed
  twice or used after it was freed, and the outside calls are those of the specification.\<close>

theorem dynamic_tracker_refines:
  assumes "spec_admissible None state (all_acked_effect func ud) ops spec_init"
    and "spec_run None state (all_acked_effect func ud) ops spec_init = (effs, sp)"
  shows "\<exists>st. tracker_run dynamic_ops ops
                (tracker_start addr state consecutive_ack_record_container_dynamic_new func ud free, [])
                = Inr (effs, st) \<and>
           map record_view (dynamic_records (cat_ack_records (fst st)))
             = drop (released (sp_messages sp)) (zip (snd st) (sp_messages sp))"
  using dynamic.run_from_start [OF dynamic_new_law(1-3), of state func ud ops effs sp addr free] assms
  by (simp add: dynamic_new_law(4))

theorem dynamic_tracker_refines_witness:
  "\<exists>st. tracker_run dynamic_ops example_ops
          (tracker_start (Some 4) (Some 9) consecutive_ack_record_container_dynamic_new (Some 5) (Some 6) None, [])
        = Inr ([CallSave 1 (example_bookmark 1), CallDestroy 2 (example_bookmark 0),
                CallDestroy 2 (example_bookmark 1), FlowControlAdjust 2, CallOnAllAcked 5 (Some 6)], st) \<and>
     map record_view (dynamic_records (cat_ack_records (fst st))) = []"
  using dynamic_tracker_refines [of "Some 9" "Some 5" "Some 6" example_ops _ _ "Some 4" None]
  by (simp add: example_simps)

text \<open>C13: The two containers are interchangeable: as long as no request finds the ring full, a source
  observes the same bookmark and flow control calls from either.\<close>

theorem static_dynamic_equivalent:
  assumes "0 < sz" and "unat sz < 25000000"
    and "spec_admissible None state (all_acked_effect func ud) ops spec_init"
    and "within_window (unat sz) state (all_acked_effect func ud) ops spec_init"
  shows "\<exists>c effs st st'. consecutive_ack_record_container_static_new sz = Inr c \<and>
           tracker_run static_ops ops (tracker_start addr state c func ud free, []) = Inr (effs, st) \<and>
           tracker_run dynamic_ops ops
             (tracker_start addr state consecutive_ack_record_container_dynamic_new func ud free, [])
             = Inr (effs, st')"
proof -
  obtain effs sp where sp: "spec_run None state (all_acked_effect func ud) ops spec_init = (effs, sp)"
    by fastforce
  note unl = spec_run_unlimited [OF assms(4)]
  from static_new_law [OF assms(1,2)] obtain c where c:
    "consecutive_ack_record_container_static_new sz = Inr c" "static_invar c" "static_records c = []"
    "st_pending c = None" "static_limit c = Some (unat sz)" by blast
  from static.run_from_start [OF c(2-4), of state func ud ops effs sp addr free] assms(3) sp
  obtain st where "tracker_run static_ops ops (tracker_start addr state c func ud free, []) = Inr (effs, st)"
    by (auto simp: c(5) unl)
  moreover from dynamic.run_from_start [OF dynamic_new_law(1-3), of state func ud ops effs sp addr free]
    assms(3) sp
  obtain st' where "tracker_run dynamic_ops ops
      (tracker_start addr state consecutive_ack_record_container_dynamic_new func ud free, [])
      = Inr (effs, st')"
    by (auto simp: dynamic_new_law(4))
  ultimately show ?thesis using c(1) by blast
qed

theorem static_dynamic_equivalent_witness:
  "\<exists>c effs st st'. consecutive_ack_record_container_static_new 3 = Inr c \<and>
     tracker_run static_ops example_ops (tracker_start None (Some 9) c None None None, []) = Inr (effs, st) \<and>
     tracker_run dynamic_ops example_ops
       (tracker_start None (Some 9) consecutive_ack_record_container_dynamic_new None None None, [])
       = Inr (effs, st')"
  using static_dynamic_equivalent [of 3 "Some 9" None None example_ops None None]
  by (simp add: example_simps)

text \<open>C3: Flow control and bookmarks are sound on every admissible run of the ring tracker: the
  adjustments given back to the source's window add up to the number of messages in the longest
  acknowledged prefix, and whenever a bookmark is saved it is the bookmark of a message such that
  this message and all messages posted before it are acknowledged.\<close>

theorem static_tracker_window_and_bookmarks:
  assumes "0 < sz" and "unat sz < 25000000"
    and "spec_admissible (Some (unat sz)) state (all_acked_effect func ud) ops spec_init"
    and "spec_run (Some (unat sz)) state (all_acked_effect func ud) ops spec_init = (effs, sp)"
  shows "\<exists>c st. consecutive_ack_record_container_static_new sz = Inr c \<and>
           tracker_run static_ops ops (tracker_start addr state c func ud free, []) = Inr (effs, st) \<and>
           window_total effs = released (sp_messages sp) \<and> saved_ok effs sp"
proof -
  from static_new_law [OF assms(1,2)] obtain c where c:
    "consecutive_ack_record_container_static_new sz = Inr c" "static_invar c" "static_records c = []"
    "st_pending c = None" "static_limit c = Some (unat sz)" by blast
  from static.run_from_start [OF c(2-4), of state func ud ops effs sp addr free] assms(3,4)
  obtain st where "tracker_run static_ops ops (tracker_start addr state c func ud free, []) = Inr (effs, st)"
    by (auto simp: c(5))
  moreover have "window_total effs = released (sp_messages sp)"
    using spec_run_window [OF _ assms(3,4)] by (simp add: spec_inv_def spec_init_def released_def)
  ultimately show ?thesis using c(1) spec_run_saved [OF assms(4)] by blast
qed

theorem static_tracker_window_and_bookmarks_witness:
  "\<exists>c st. consecutive_ack_record_container_static_new 2 = Inr c \<and>
     tracker_run static_ops example_ops (tracker_start None (Some 9) c None None None, [])
       = Inr ([CallSave 1 (example_bookmark 1), CallDestroy 2 (example_bookmark 0),
               CallDestroy 2 (example_bookmark 1), FlowControlAdjust 2], st) \<and>
     saved_ok [CallSave 1 (example_bookmark 1), CallDestroy 2 (example_bookmark 0),
               CallDestroy 2 (example_bookmark 1), FlowControlAdjust 2]
       \<lparr>sp_messages = [(example_bookmark 0, True), (example_bookmark 1, True)], sp_pending = None,
        sp_disabled = False\<rparr>"
  using static_tracker_window_and_bookmarks [of 2 "Some 9" None None example_ops _ _ None None]
  by (simp add: example_simps)


end
