(* ===== verification/Instant_Ack_Tracker.thy ===== *)
theory Instant_Ack_Tracker
  imports Ack_Types
begin

text \<open>
  \<^verbatim>\<open>lib/ack-tracker/instant_ack_tracker.c\<close> and
  \<^verbatim>\<open>instant_ack_tracker_bookmarkless.c\<close>.  The records of acknowledged messages are returned
  through a lock-free stack: any number of acknowledging threads push with a compare-and-exchange
  loop while the source thread takes the whole stack with one exchange and frees it.  Every atomic
  access of the source is one step here, so a run is an arbitrary interleaving of the threads, and a
  freed address may be handed out again by the allocator.
\<close>

section \<open>State\<close>

record InstantAckRecord = AckRecord +
  iar_next_free :: address

record InstantAckTracker =
  iat_address :: address
  iat_persist_state :: address
  iat_pending_ack_record :: address
  iat_free_list :: address

text \<open>Where the source thread is in \<^verbatim>\<open>_request_bookmark\<close>, and where a thread is in
  \<^verbatim>\<open>_manage_msg_ack\<close>: before loading the stack head, before storing it into the record, before
  the compare-and-exchange.\<close>

datatype source_pc = SourceIdle | SourceFreeing address

datatype ack_pc =
  AckIdle
| AckLoad nat AckType
| AckLink nat address AckType
| AckCas nat address AckType

record instant_state =
  ia_tracker :: InstantAckTracker
  ia_heap :: "nat \<Rightarrow> InstantAckRecord option"
  ia_source :: source_pc
  ia_acking :: "nat \<Rightarrow> ack_pc"
  ia_messages :: "nat list"

definition zero_instant_record :: InstantAckRecord where
  "zero_instant_record = \<lparr>ar_tracker = None, ar_bookmark = zero_bookmark, iar_next_free = None\<rparr>"

definition instant_read :: "(nat \<Rightarrow> InstantAckRecord option) \<Rightarrow> nat \<Rightarrow> InstantAckRecord outcome" where
  "instant_read h r = (case h r of None \<Rightarrow> Inl UseAfterFree | Some x \<Rightarrow> Inr x)"

definition instant_ack_tracker_new :: "address \<Rightarrow> address \<Rightarrow> InstantAckTracker" where
  "instant_ack_tracker_new self_address state =
     \<lparr>iat_address = self_address, iat_persist_state = state, iat_pending_ack_record = None,
      iat_free_list = None\<rparr>"

section \<open>Steps of the source thread\<close>

definition free_list_take_all :: "InstantAckTracker \<Rightarrow> address \<times> InstantAckTracker" where
  "free_list_take_all self = (iat_free_list self, self\<lparr>iat_free_list := None\<rparr>)"

text \<open>\<^verbatim>\<open>_request_bookmark\<close>: take the stack, free it record by record, allocate the next record;
  \<open>a\<close> is the address the allocator returns and \<open>b\<close> what the source writes into the bookmark.\<close>

definition request_take_all :: "instant_state \<Rightarrow> instant_state option" where
  "request_take_all st =
     (if ia_source st = SourceIdle \<and> iat_pending_ack_record (ia_tracker st) = None
      then let (head, self) = free_list_take_all (ia_tracker st) in
           Some (st\<lparr>ia_tracker := self, ia_source := SourceFreeing head\<rparr>)
      else None)"

definition ack_records_free_next :: "instant_state \<Rightarrow> instant_state outcome option" where
  "ack_records_free_next st =
     (case ia_source st of
        SourceFreeing (Some record) \<Rightarrow>
          Some (bindO (instant_read (ia_heap st) record) (\<lambda>x.
            Inr (st\<lparr>ia_heap := (ia_heap st)(record := None),
                    ia_source := SourceFreeing (iar_next_free x)\<rparr>)))
      | _ \<Rightarrow> None)"

definition request_alloc :: "nat \<Rightarrow> Bookmark \<Rightarrow> instant_state \<Rightarrow> instant_state option" where
  "request_alloc a b st =
     (if ia_source st = SourceFreeing None \<and> ia_heap st a = None
      then Some (st\<lparr>ia_heap := (ia_heap st)(a \<mapsto> zero_instant_record\<lparr>ar_bookmark := b\<rparr>),
                    ia_tracker := (ia_tracker st)\<lparr>iat_pending_ack_record := Some a\<rparr>,
                    ia_source := SourceIdle\<rparr>)
      else None)"

definition instant_track_msg :: "instant_state \<Rightarrow> instant_state outcome option" where
  "instant_track_msg st =
     (if ia_source st = SourceIdle
      then Some
        (case iat_pending_ack_record (ia_tracker st) of
           None \<Rightarrow> Inl NullDereference
         | Some r \<Rightarrow>
             bindO (instant_read (ia_heap st) r) (\<lambda>x.
               Inr (st\<lparr>ia_heap := (ia_heap st)(r \<mapsto>
                         x\<lparr>ar_bookmark := (ar_bookmark x)
                              \<lparr>bm_persist_state := iat_persist_state (ia_tracker st)\<rparr>,
                           ar_tracker := iat_address (ia_tracker st)\<rparr>),
                       ia_messages := r # ia_messages st,
                       ia_tracker := (ia_tracker st)\<lparr>iat_pending_ack_record := None\<rparr>\<rparr>)))
      else None)"

section \<open>Steps of an acknowledging thread\<close>

text \<open>\<^verbatim>\<open>_manage_msg_ack\<close> up to the push: the bookmark is saved and destroyed.\<close>

definition instant_ack_begin ::
  "nat \<Rightarrow> nat \<Rightarrow> AckType \<Rightarrow> instant_state \<Rightarrow> (effect list \<times> instant_state) outcome option" where
  "instant_ack_begin t r ty st =
     (if ia_acking st t = AckIdle \<and> r \<in> set (ia_messages st)
      then Some (bindO (instant_read (ia_heap st) r) (\<lambda>x.
             Inr (bookmark_save (ar_bookmark x) @ bookmark_destroy (ar_bookmark x),
                  st\<lparr>ia_messages := remove1 r (ia_messages st),
                     ia_acking := (ia_acking st)(t := AckLoad r ty)\<rparr>)))
      else None)"

text \<open>The three accesses of the loop of \<^verbatim>\<open>_free_list_push\<close>; after the successful exchange the
  thread gives the message back to the window.\<close>

definition free_list_push_load :: "nat \<Rightarrow> instant_state \<Rightarrow> instant_state option" where
  "free_list_push_load t st =
     (case ia_acking st t of
        AckLoad r ty \<Rightarrow>
          Some (st\<lparr>ia_acking := (ia_acking st)(t := AckLink r (iat_free_list (ia_tracker st)) ty)\<rparr>)
      | _ \<Rightarrow> None)"

definition free_list_push_link :: "nat \<Rightarrow> instant_state \<Rightarrow> instant_state outcome option" where
  "free_list_push_link t st =
     (case ia_acking st t of
        AckLink r head ty \<Rightarrow>
          Some (bindO (instant_read (ia_heap st) r) (\<lambda>x.
            Inr (st\<lparr>ia_heap := (ia_heap st)(r \<mapsto> x\<lparr>iar_next_free := head\<rparr>),
                    ia_acking := (ia_acking st)(t := AckCas r head ty)\<rparr>)))
      | _ \<Rightarrow> None)"

definition free_list_push_cas :: "nat \<Rightarrow> instant_state \<Rightarrow> (effect list \<times> instant_state) option" where
  "free_list_push_cas t st =
     (case ia_acking st t of
        AckCas r head ty \<Rightarrow>
          if iat_free_list (ia_tracker st) = head
          then Some (FlowControlAdjust 1 # (if ty = AT_SUSPENDED then [FlowControlSuspend] else []),
                     st\<lparr>ia_tracker := (ia_tracker st)\<lparr>iat_free_list := Some r\<rparr>,
                        ia_acking := (ia_acking st)(t := AckIdle)\<rparr>)
          else Some ([], st\<lparr>ia_acking := (ia_acking st)(t := AckLoad r ty)\<rparr>)
      | _ \<Rightarrow> None)"

section \<open>Interleavings\<close>

datatype instant_action =
  TakeAll | FreeNext | Alloc nat Bookmark | TrackMsg
| AckBegin nat nat AckType | PushLoad nat | PushLink nat | PushCas nat

definition instant_step ::
  "instant_action \<Rightarrow> instant_state \<Rightarrow> (effect list \<times> instant_state) outcome option" where
  "instant_step act st =
     (case act of
        TakeAll \<Rightarrow> map_option (\<lambda>st'. Inr ([], st')) (request_take_all st)
      | FreeNext \<Rightarrow> map_option (\<lambda>res. bindO res (\<lambda>st'. Inr ([], st'))) (ack_records_free_next st)
      | Alloc a b \<Rightarrow> map_option (\<lambda>st'. Inr ([], st')) (request_alloc a b st)
      | TrackMsg \<Rightarrow> map_option (\<lambda>res. bindO res (\<lambda>st'. Inr ([], st'))) (instant_track_msg st)
      | AckBegin t r ty \<Rightarrow> instant_ack_begin t r ty st
      | PushLoad t \<Rightarrow> map_option (\<lambda>st'. Inr ([], st')) (free_list_push_load t st)
      | PushLink t \<Rightarrow> map_option (\<lambda>res. bindO res (\<lambda>st'. Inr ([], st'))) (free_list_push_link t st)
      | PushCas t \<Rightarrow> map_option Inr (free_list_push_cas t st))"

text \<open>The source posts a message only after it requested the bookmark.\<close>

definition client_ok :: "instant_action \<Rightarrow> instant_state \<Rightarrow> bool" where
  "client_ok act st \<longleftrightarrow> (act = TrackMsg \<longrightarrow> iat_pending_ack_record (ia_tracker st) \<noteq> None)"

inductive instant_reachable :: "InstantAckTracker \<Rightarrow> instant_state \<Rightarrow> bool" for self where
  start:
    "instant_reachable self
       \<lparr>ia_tracker = self, ia_heap = Map.empty, ia_source = SourceIdle, ia_acking = (\<lambda>_. AckIdle),
        ia_messages = []\<rparr>"
| step:
    "instant_reachable self st \<Longrightarrow> client_ok act st \<Longrightarrow> instant_step act st = Some (Inr (effs, st')) \<Longrightarrow>
       instant_reachable self st'"

text \<open>\<^verbatim>\<open>_free\<close>, run once nothing else uses the tracker.\<close>

fun ack_records_free ::
  "nat \<Rightarrow> (nat \<Rightarrow> InstantAckRecord option) \<Rightarrow> address \<Rightarrow> (nat \<Rightarrow> InstantAckRecord option) outcome option" where
  "ack_records_free fuel h None = Some (Inr h)"
| "ack_records_free 0 h (Some record) = None"
| "ack_records_free (Suc fuel) h (Some record) =
     (case h record of
        None \<Rightarrow> Some (Inl UseAfterFree)
      | Some x \<Rightarrow> ack_records_free fuel (h(record := None)) (iar_next_free x))"

definition instant_free ::
  "nat \<Rightarrow> instant_state \<Rightarrow> (nat \<Rightarrow> InstantAckRecord option) outcome option" where
  "instant_free fuel st =
     map_option (\<lambda>res. bindO res (\<lambda>h.
         case iat_pending_ack_record (ia_tracker st) of
           None \<Rightarrow> Inr h
         | Some r \<Rightarrow> bindO (instant_read h r) (\<lambda>_. Inr (h(r := None)))))
       (ack_records_free fuel (ia_heap st) (fst (free_list_take_all (ia_tracker st))))"

section \<open>Ownership invariant\<close>

fun stack_of :: "(nat \<Rightarrow> InstantAckRecord option) \<Rightarrow> address \<Rightarrow> nat list \<Rightarrow> bool" where
  "stack_of h p [] \<longleftrightarrow> p = None"
| "stack_of h p (r # rs) \<longleftrightarrow> p = Some r \<and> (\<exists>x. h r = Some x \<and> stack_of h (iar_next_free x) rs)"

fun pc_record :: "ack_pc \<Rightarrow> address" where
  "pc_record AckIdle = None"
| "pc_record (AckLoad r ty) = Some r"
| "pc_record (AckLink r head ty) = Some r"
| "pc_record (AckCas r head ty) = Some r"

definition reclaim_head :: "source_pc \<Rightarrow> address" where
  "reclaim_head pc = (case pc of SourceIdle \<Rightarrow> None | SourceFreeing p \<Rightarrow> p)"

definition settled :: "instant_state \<Rightarrow> nat list \<Rightarrow> nat list \<Rightarrow> nat list" where
  "settled st fl rl =
     fl @ rl @ ia_messages st @
     (case iat_pending_ack_record (ia_tracker st) of None \<Rightarrow> [] | Some r \<Rightarrow> [r])"

definition instant_inv :: "instant_state \<Rightarrow> nat list \<Rightarrow> nat list \<Rightarrow> bool" where
  "instant_inv st fl rl \<longleftrightarrow>
     stack_of (ia_heap st) (iat_free_list (ia_tracker st)) fl \<and>
     stack_of (ia_heap st) (reclaim_head (ia_source st)) rl \<and>
     distinct (settled st fl rl) \<and>
     (\<forall>t r. pc_record (ia_acking st t) = Some r \<longrightarrow> r \<notin> set (settled st fl rl)) \<and>
     (\<forall>t u r. pc_record (ia_acking st t) = Some r \<longrightarrow> pc_record (ia_acking st u) = Some r \<longrightarrow> t = u) \<and>
     (\<forall>t r head ty x. ia_acking st t = AckCas r head ty \<longrightarrow> ia_heap st r = Some x \<longrightarrow> iar_next_free x = head) \<and>
     dom (ia_heap st) = set (settled st fl rl) \<union> {r. \<exists>t. pc_record (ia_acking st t) = Some r} \<and>
     (ia_source st \<noteq> SourceIdle \<longrightarrow> iat_pending_ack_record (ia_tracker st) = None)"

lemma stack_of_cong:
  assumes "\<forall>r \<in> set rs. h' r = h r"
  shows "stack_of h' p rs = stack_of h p rs"
  using assms by (induction rs arbitrary: p) auto

lemma stack_of_dom: "stack_of h p rs \<Longrightarrow> set rs \<subseteq> dom h"
  by (induction rs arbitrary: p) auto

lemma stack_of_None: "stack_of h None rs \<longleftrightarrow> rs = []"
  by (cases rs) auto

lemma instant_invD:
  assumes "instant_inv st fl rl"
  shows "stack_of (ia_heap st) (iat_free_list (ia_tracker st)) fl"
    and "stack_of (ia_heap st) (reclaim_head (ia_source st)) rl"
    and "distinct (settled st fl rl)"
    and "pc_record (ia_acking st t) = Some r \<Longrightarrow> r \<notin> set (settled st fl rl)"
    and "pc_record (ia_acking st t) = Some r \<Longrightarrow> pc_record (ia_acking st u) = Some r \<Longrightarrow> t = u"
    and "ia_acking st t = AckCas r head ty \<Longrightarrow> ia_heap st r = Some x \<Longrightarrow> iar_next_free x = head"
    and "dom (ia_heap st) = set (settled st fl rl) \<union> {r. \<exists>t. pc_record (ia_acking st t) = Some r}"
    and "ia_source st \<noteq> SourceIdle \<Longrightarrow> iat_pending_ack_record (ia_tracker st) = None"
  using assms unfolding instant_inv_def by blast+

lemma instant_inv_live:
  assumes "instant_inv st fl rl" and "r \<in> set (settled st fl rl) \<or> pc_record (ia_acking st t) = Some r"
  obtains x where "ia_heap st r = Some x"
  using assms instant_invD(7) [OF assms(1)] by blast

lemma take_all_inv:
  assumes inv: "instant_inv st fl rl" and "request_take_all st = Some st'"
  shows "instant_inv st' [] fl"
proof -
  have st': "st' = st\<lparr>ia_tracker := (ia_tracker st)\<lparr>iat_free_list := None\<rparr>,
                     ia_source := SourceFreeing (iat_free_list (ia_tracker st))\<rparr>"
    and idle: "ia_source st = SourceIdle" and none: "iat_pending_ack_record (ia_tracker st) = None"
    using assms(2) by (auto simp: request_take_all_def free_list_take_all_def split: if_splits)
  have "rl = []" using instant_invD(2) [OF inv] idle by (simp add: reclaim_head_def stack_of_None)
  then have "settled st' [] fl = settled st fl rl" by (simp add: settled_def st')
  then show ?thesis
    using inv none unfolding instant_inv_def st' by (simp add: reclaim_head_def)
qed

lemma free_next_inv:
  assumes inv: "instant_inv st fl rl" and "ack_records_free_next st = Some res"
  shows "\<exists>st'. res = Inr st' \<and> instant_inv st' fl (tl rl)"
proof -
  from assms(2) obtain r where src: "ia_source st = SourceFreeing (Some r)"
    by (auto simp: ack_records_free_next_def split: source_pc.splits option.splits)
  with instant_invD(2) [OF inv] obtain x rl' where rl: "rl = r # rl'" "ia_heap st r = Some x"
    "stack_of (ia_heap st) (iar_next_free x) rl'"
    by (cases rl) (auto simp: reclaim_head_def)
  let ?h = "(ia_heap st)(r := None)"
  let ?st' = "st\<lparr>ia_heap := ?h, ia_source := SourceFreeing (iar_next_free x)\<rparr>"
  have res: "res = Inr ?st'"
    using assms(2) src rl(2) by (simp add: ack_records_free_next_def instant_read_def)
  have dist: "r \<notin> set fl" "r \<notin> set rl'" "r \<notin> set (settled st fl rl')"
    "distinct (settled st fl rl')" "set (settled st fl rl) = insert r (set (settled st fl rl'))"
    using instant_invD(3) [OF inv] by (auto simp: settled_def rl(1))
  have stacks: "stack_of ?h (iat_free_list (ia_tracker st)) fl" "stack_of ?h (iar_next_free x) rl'"
    using instant_invD(1) [OF inv] rl(3) dist by (simp_all add: stack_of_cong [of _ ?h "ia_heap st"])
  have push: "pc_record (ia_acking st t) \<noteq> Some r" for t
    using instant_invD(4) [OF inv, of t r] by (auto simp: settled_def rl(1))
  have "instant_inv ?st' fl rl'"
    unfolding instant_inv_def
    using stacks dist instant_invD(4-8) [OF inv] push src
    by (auto simp: reclaim_head_def settled_def)
  then show ?thesis using res rl(1) by simp
qed

lemma alloc_inv:
  assumes inv: "instant_inv st fl rl" and "request_alloc a b st = Some st'"
  shows "instant_inv st' fl rl"
proof -
  let ?x = "zero_instant_record\<lparr>ar_bookmark := b\<rparr>"
  have st': "st' = st\<lparr>ia_heap := (ia_heap st)(a \<mapsto> ?x),
                     ia_tracker := (ia_tracker st)\<lparr>iat_pending_ack_record := Some a\<rparr>,
                     ia_source := SourceIdle\<rparr>"
    and src: "ia_source st = SourceFreeing None" and fresh: "a \<notin> dom (ia_heap st)"
    using assms(2) by (auto simp: request_alloc_def split: if_splits)
  have none: "iat_pending_ack_record (ia_tracker st) = None" using instant_invD(8) [OF inv] src by simp
  have rl: "rl = []" using instant_invD(2) [OF inv] src by (simp add: reclaim_head_def stack_of_None)
  have out: "a \<notin> set (settled st fl rl)" "pc_record (ia_acking st t) \<noteq> Some a" for t
    using fresh instant_invD(7) [OF inv] by blast+
  have "settled st' fl rl = settled st fl rl @ [a]" by (simp add: settled_def st' none)
  moreover have "stack_of ((ia_heap st)(a \<mapsto> ?x)) (iat_free_list (ia_tracker st)) fl"
    using instant_invD(1) [OF inv] out by (subst stack_of_cong [of _ _ "ia_heap st"]) (auto simp: settled_def)
  moreover have "ia_acking st t \<noteq> AckCas a head ty" for t head ty
    using out(2) [of t] by auto
  ultimately show ?thesis
    using inv rl out unfolding instant_inv_def st'
    by (auto simp: reclaim_head_def split: if_splits)
qed

lemma track_inv:
  assumes inv: "instant_inv st fl rl" and "instant_track_msg st = Some res"
    and pend: "iat_pending_ack_record (ia_tracker st) = Some r"
  shows "\<exists>st'. res = Inr st' \<and> instant_inv st' fl rl"
proof -
  have mem: "r \<in> set (settled st fl rl)" by (simp add: settled_def pend)
  then obtain x where x: "ia_heap st r = Some x" using instant_inv_live [OF inv] by blast
  let ?y = "x\<lparr>ar_bookmark := (ar_bookmark x)\<lparr>bm_persist_state := iat_persist_state (ia_tracker st)\<rparr>,
              ar_tracker := iat_address (ia_tracker st)\<rparr>"
  let ?h = "(ia_heap st)(r \<mapsto> ?y)"
  let ?st' = "st\<lparr>ia_heap := ?h, ia_messages := r # ia_messages st,
                ia_tracker := (ia_tracker st)\<lparr>iat_pending_ack_record := None\<rparr>\<rparr>"
  have res: "res = Inr ?st'"
    using assms(2) pend x by (auto simp: instant_track_msg_def instant_read_def split: if_splits)
  have dist: "r \<notin> set fl" "r \<notin> set rl" using instant_invD(3) [OF inv] by (auto simp: settled_def pend)
  have set_eq: "set (settled ?st' fl rl) = set (settled st fl rl)"
    and dist': "distinct (settled ?st' fl rl)"
    using instant_invD(3) [OF inv] by (auto simp: settled_def pend)
  have "stack_of ?h (iat_free_list (ia_tracker st)) fl" "stack_of ?h (reclaim_head (ia_source st)) rl"
    using instant_invD(1,2) [OF inv] dist by (simp_all add: stack_of_cong [of _ ?h "ia_heap st"])
  moreover have "ia_acking st t \<noteq> AckCas r head ty" for t head ty
    using instant_invD(4) [OF inv, of t r] mem by auto
  ultimately have "instant_inv ?st' fl rl"
    unfolding instant_inv_def set_eq
    using dist' instant_invD(4-8) [OF inv] x by (auto split: if_splits)
  then show ?thesis using res by simp
qed

lemma ack_begin_inv:
  assumes inv: "instant_inv st fl rl" and "instant_ack_begin t r ty st = Some res"
  shows "\<exists>effs st'. res = Inr (effs, st') \<and> instant_inv st' fl rl"
proof -
  have idle: "ia_acking st t = AckIdle" and mem: "r \<in> set (ia_messages st)"
    using assms(2) by (auto simp: instant_ack_begin_def split: if_splits)
  then have "r \<in> set (settled st fl rl)" by (simp add: settled_def)
  then obtain x where x: "ia_heap st r = Some x" using instant_inv_live [OF inv] by blast
  let ?st' = "st\<lparr>ia_messages := remove1 r (ia_messages st), ia_acking := (ia_acking st)(t := AckLoad r ty)\<rparr>"
  have dist: "distinct (settled st fl rl)" by (rule instant_invD(3) [OF inv])
  have set_eq: "set (settled ?st' fl rl) = set (settled st fl rl) - {r}"
    and dist': "distinct (settled ?st' fl rl)"
    using dist mem by (auto simp: settled_def)
  have pcs: "pc_record (ia_acking ?st' u) = (if u = t then Some r else pc_record (ia_acking st u))" for u
    by simp
  have "{q. \<exists>u. pc_record (ia_acking ?st' u) = Some q} = insert r {q. \<exists>u. pc_record (ia_acking st u) = Some q}"
    unfolding pcs using idle by (auto split: if_splits) (metis option.distinct(1) pc_record.simps(1))
  then have "dom (ia_heap ?st') = set (settled ?st' fl rl) \<union> {q. \<exists>u. pc_record (ia_acking ?st' u) = Some q}"
    using instant_invD(7) [OF inv] x unfolding set_eq by auto
  moreover have "\<forall>u q. pc_record (ia_acking ?st' u) = Some q \<longrightarrow> q \<notin> set (settled ?st' fl rl)"
    unfolding pcs set_eq using instant_invD(4) [OF inv] by auto
  moreover have "\<forall>u v q. pc_record (ia_acking ?st' u) = Some q \<longrightarrow> pc_record (ia_acking ?st' v) = Some q \<longrightarrow> u = v"
    unfolding pcs using instant_invD(5) [OF inv] instant_invD(4) [OF inv] \<open>r \<in> set (settled st fl rl)\<close>
    by (auto split: if_splits)
  moreover have "\<forall>u q head ty y. ia_acking ?st' u = AckCas q head ty \<longrightarrow> ia_heap ?st' q = Some y \<longrightarrow>
      iar_next_free y = head"
    using instant_invD(6) [OF inv] by (auto split: if_splits)
  moreover have "stack_of (ia_heap ?st') (iat_free_list (ia_tracker ?st')) fl"
    "stack_of (ia_heap ?st') (reclaim_head (ia_source ?st')) rl"
    "ia_source ?st' \<noteq> SourceIdle \<longrightarrow> iat_pending_ack_record (ia_tracker ?st') = None"
    using instant_invD(1,2,8) [OF inv] by simp_all
  ultimately have "instant_inv ?st' fl rl"
    using dist' unfolding instant_inv_def by blast
  then show ?thesis
    using assms(2) idle mem x by (auto simp: instant_ack_begin_def instant_read_def)
qed

lemma push_load_inv:
  assumes "instant_inv st fl rl" and "free_list_push_load t st = Some st'"
  shows "instant_inv st' fl rl"
proof -
  obtain r ty where pc: "ia_acking st t = AckLoad r ty"
    and st': "st' = st\<lparr>ia_acking := (ia_acking st)(t := AckLink r (iat_free_list (ia_tracker st)) ty)\<rparr>"
    using assms(2) by (auto simp: free_list_push_load_def split: ack_pc.splits)
  have pcs: "pc_record (ia_acking st' u) = pc_record (ia_acking st u)" for u
    by (simp add: st' pc)
  have "settled st' fl rl = settled st fl rl" by (simp add: settled_def st')
  then show ?thesis
    using assms(1) unfolding instant_inv_def pcs by (auto simp: st' split: if_splits)
qed

lemma push_link_inv:
  assumes inv: "instant_inv st fl rl" and "free_list_push_link t st = Some res"
  shows "\<exists>st'. res = Inr st' \<and> instant_inv st' fl rl"
proof -
  obtain r head ty where pc: "ia_acking st t = AckLink r head ty"
    using assms(2) by (auto simp: free_list_push_link_def split: ack_pc.splits)
  then obtain x where x: "ia_heap st r = Some x" using instant_inv_live [OF inv, of r t] by auto
  let ?h = "(ia_heap st)(r \<mapsto> x\<lparr>iar_next_free := head\<rparr>)"
  let ?st' = "st\<lparr>ia_heap := ?h, ia_acking := (ia_acking st)(t := AckCas r head ty)\<rparr>"
  have out: "r \<notin> set (settled st fl rl)" using instant_invD(4) [OF inv, of t r] pc by simp
  have pcs: "pc_record (ia_acking ?st' u) = pc_record (ia_acking st u)" for u by (simp add: pc)
  have "stack_of ?h (iat_free_list (ia_tracker st)) fl" "stack_of ?h (reclaim_head (ia_source st)) rl"
    using instant_invD(1,2) [OF inv] out
    by (subst stack_of_cong [of _ ?h "ia_heap st"]; auto simp: settled_def)+
  moreover have "settled ?st' fl rl = settled st fl rl" by (simp add: settled_def)
  moreover have "u = t" if "ia_acking st u = AckCas r head' ty'" for u head' ty'
    using instant_invD(5) [OF inv, of t r u] that pc by simp
  ultimately have "instant_inv ?st' fl rl"
    using inv x pc unfolding instant_inv_def pcs by (auto split: if_splits)
  then show ?thesis using assms(2) pc x by (auto simp: free_list_push_link_def instant_read_def)
qed

lemma push_cas_inv:
  assumes inv: "instant_inv st fl rl" and "free_list_push_cas t st = Some (effs, st')"
  shows "\<exists>fl'. instant_inv st' fl' rl"
proof -
  obtain r head ty where pc: "ia_acking st t = AckCas r head ty"
    using assms(2) by (auto simp: free_list_push_cas_def split: ack_pc.splits)
  then obtain x where x: "ia_heap st r = Some x" using instant_inv_live [OF inv, of r t] by auto
  have out: "r \<notin> set (settled st fl rl)" using instant_invD(4) [OF inv, of t r] pc by simp
  show ?thesis
  proof (cases "iat_free_list (ia_tracker st) = head")
    case True
    then have st': "st' = st\<lparr>ia_tracker := (ia_tracker st)\<lparr>iat_free_list := Some r\<rparr>,
                            ia_acking := (ia_acking st)(t := AckIdle)\<rparr>"
      using assms(2) pc by (simp add: free_list_push_cas_def)
    have "iar_next_free x = head" by (rule instant_invD(6) [OF inv pc x])
    then have stack: "stack_of (ia_heap st) (Some r) (r # fl)"
      using instant_invD(1) [OF inv] True x by simp
    have set_eq: "set (settled st' (r # fl) rl) = insert r (set (settled st fl rl))"
      and dist: "distinct (settled st' (r # fl) rl)"
      using out instant_invD(3) [OF inv] by (auto simp: settled_def st')
    have other: "pc_record (ia_acking st u) \<noteq> Some r" if "u \<noteq> t" for u
      using instant_invD(5) [OF inv, of t r u] that pc by auto
    have pcs: "pc_record (ia_acking st' u) = (if u = t then None else pc_record (ia_acking st u))" for u
      by (simp add: st')
    have "{q. \<exists>u. pc_record (ia_acking st' u) = Some q} = {q. \<exists>u. pc_record (ia_acking st u) = Some q} - {r}"
      unfolding pcs using other pc by (auto split: if_splits) (metis option.inject pc_record.simps(4))
    then have "dom (ia_heap st') = set (settled st' (r # fl) rl) \<union> {q. \<exists>u. pc_record (ia_acking st' u) = Some q}"
      using instant_invD(7) [OF inv] x unfolding set_eq by (auto simp: st')
    moreover have "\<forall>u q. pc_record (ia_acking st' u) = Some q \<longrightarrow> q \<notin> set (settled st' (r # fl) rl)"
      unfolding pcs set_eq using instant_invD(4) [OF inv] other by (auto split: if_splits)
    moreover have "\<forall>u v q. pc_record (ia_acking st' u) = Some q \<longrightarrow> pc_record (ia_acking st' v) = Some q \<longrightarrow> u = v"
      unfolding pcs using instant_invD(5) [OF inv] by (auto split: if_splits)
    moreover have "\<forall>u q head ty y. ia_acking st' u = AckCas q head ty \<longrightarrow> ia_heap st' q = Some y \<longrightarrow>
        iar_next_free y = head"
      using instant_invD(6) [OF inv] by (auto simp: st' split: if_splits)
    moreover have "stack_of (ia_heap st') (iat_free_list (ia_tracker st')) (r # fl)"
      "stack_of (ia_heap st') (reclaim_head (ia_source st')) rl"
      "ia_source st' \<noteq> SourceIdle \<longrightarrow> iat_pending_ack_record (ia_tracker st') = None"
      using stack instant_invD(2,8) [OF inv] by (simp_all add: st')
    ultimately have "instant_inv st' (r # fl) rl"
      using dist unfolding instant_inv_def by blast
    then show ?thesis by blast
  next
    case False
    then have st': "st' = st\<lparr>ia_acking := (ia_acking st)(t := AckLoad r ty)\<rparr>"
      using assms(2) pc by (simp add: free_list_push_cas_def)
    have pcs: "pc_record (ia_acking st' u) = pc_record (ia_acking st u)" for u by (simp add: st' pc)
    have "settled st' fl rl = settled st fl rl" by (simp add: settled_def st')
    then show ?thesis
      using inv unfolding instant_inv_def pcs by (intro exI [of _ fl]) (auto simp: st' split: if_splits)
  qed
qed

lemma instant_step_inv:
  assumes inv: "instant_inv st fl rl" and ok: "client_ok act st" and step: "instant_step act st = Some res"
  shows "\<exists>effs st' fl' rl'. res = Inr (effs, st') \<and> instant_inv st' fl' rl'"
proof (cases act)
  case TakeAll
  then show ?thesis using step take_all_inv [OF inv] by (auto simp: instant_step_def; blast)
next
  case FreeNext
  then show ?thesis using step free_next_inv [OF inv] by (auto simp: instant_step_def; blast)
next
  case (Alloc a b)
  then show ?thesis using step alloc_inv [OF inv] by (auto simp: instant_step_def; blast)
next
  case TrackMsg
  with ok obtain r where "iat_pending_ack_record (ia_tracker st) = Some r" by (auto simp: client_ok_def)
  then show ?thesis using step track_inv [OF inv] TrackMsg by (fastforce simp: instant_step_def)
next
  case (AckBegin t r ty)
  then show ?thesis using step ack_begin_inv [OF inv] by (auto simp: instant_step_def; blast)
next
  case (PushLoad t)
  then show ?thesis using step push_load_inv [OF inv] by (auto simp: instant_step_def; blast)
next
  case (PushLink t)
  then show ?thesis using step push_link_inv [OF inv] by (fastforce simp: instant_step_def)
next
  case (PushCas t)
  then show ?thesis using step push_cas_inv [OF inv] by (auto simp: instant_step_def; blast)
qed

lemma instant_reachable_inv:
  assumes "instant_reachable self st" and "iat_pending_ack_record self = None" and "iat_free_list self = None"
  shows "\<exists>fl rl. instant_inv st fl rl"
  using assms(1)
proof induction
  case start
  show ?case
    using assms(2,3)
    by (intro exI [of _ "[]"]) (simp add: instant_inv_def settled_def reclaim_head_def)
next
  case (step st act effs st')
  then show ?case using instant_step_inv by blast
qed

lemma ack_records_free_stack:
  assumes "stack_of h p rs" and "distinct rs" and "length rs \<le> fuel"
  shows "\<exists>h'. ack_records_free fuel h p = Some (Inr h') \<and> (\<forall>a. h' a = (if a \<in> set rs then None else h a))"
  using assms
proof (induction rs arbitrary: h p fuel)
  case Nil
  then show ?case by simp
next
  case (Cons r rs)
  then obtain x where x: "p = Some r" "h r = Some x" "stack_of h (iar_next_free x) rs" by auto
  obtain n where n: "fuel = Suc n" "length rs \<le> n" using Cons.prems(3) by (cases fuel) auto
  have "stack_of (h(r := None)) (iar_next_free x) rs"
    using x(3) Cons.prems(2) by (subst stack_of_cong [of _ _ h]) auto
  moreover have "distinct rs" using Cons.prems(2) by simp
  ultimately obtain h' where
    "ack_records_free n (h(r := None)) (iar_next_free x) = Some (Inr h')"
    "\<forall>a. h' a = (if a \<in> set rs then None else (h(r := None)) a)"
    using Cons.IH [OF _ _ n(2)] by blast
  then show ?case using x n(1) by (intro exI [of _ h']) auto
qed

section \<open>Properties\<close>

text \<open>C5: The lock-free return of records is memory safe under every interleaving of the source thread
  with any number of acknowledging threads, and with addresses reused by the allocator: no enabled
  step reads or frees a record that was freed, in particular the exchange of a thread that was
  overtaken between loading and swapping the stack head never corrupts the stack.  Every allocated
  record is owned exactly once: by the stack, by the chain being freed, by a message, by the source
  or by one acknowledging thread.\<close>

theorem instant_tracker_memory_safe:
  assumes "instant_reachable (instant_ack_tracker_new addr state) st"
    and "client_ok act st" and "instant_step act st = Some res"
  shows "\<exists>effs st' fl rl. res = Inr (effs, st') \<and> instant_inv st' fl rl"
  using instant_reachable_inv [OF assms(1)] instant_step_inv [OF _ assms(2,3)]
  by (fastforce simp: instant_ack_tracker_new_def)

definition example_instant :: "instant_state" where
  "example_instant =
     \<lparr>ia_tracker = instant_ack_tracker_new (Some 1) (Some 2), ia_heap = Map.empty,
      ia_source = SourceIdle, ia_acking = (\<lambda>_. AckIdle), ia_messages = []\<rparr>"

theorem instant_tracker_memory_safe_witness:
  "instant_reachable (instant_ack_tracker_new (Some 1) (Some 2)) example_instant \<and>
   (\<exists>effs st' fl rl. the (instant_step TakeAll example_instant) = Inr (effs, st') \<and> instant_inv st' fl rl)"
proof
  show reach: "instant_reachable (instant_ack_tracker_new (Some 1) (Some 2)) example_instant"
    unfolding example_instant_def by (rule instant_reachable.start)
  have "instant_step TakeAll example_instant = Some (the (instant_step TakeAll example_instant))"
    by (simp add: instant_step_def request_take_all_def example_instant_def instant_ack_tracker_new_def
        free_list_take_all_def)
  from instant_tracker_memory_safe [OF reach _ this]
  show "\<exists>effs st' fl rl. the (instant_step TakeAll example_instant) = Inr (effs, st') \<and> instant_inv st' fl rl"
    by (simp add: client_ok_def)
qed

text \<open>C24: Freeing a tracker in any reachable state in which no message is outstanding and no thread
  is inside an operation terminates and returns every record to the allocator.\<close>

theorem instant_tracker_free_no_leak:
  assumes "instant_reachable (instant_ack_tracker_new addr state) st"
    and "ia_messages st = []" and "\<forall>t. ia_acking st t = AckIdle" and "ia_source st = SourceIdle"
  shows "\<exists>fuel h. instant_free fuel st = Some (Inr h) \<and> dom h = {}"
proof -
  from instant_reachable_inv [OF assms(1)] obtain fl rl where inv: "instant_inv st fl rl"
    by (auto simp: instant_ack_tracker_new_def)
  have rl: "rl = []" using instant_invD(2) [OF inv] assms(4) by (simp add: reclaim_head_def stack_of_None)
  have dist: "distinct (settled st fl [])" and dm: "dom (ia_heap st) = set (settled st fl [])"
    using instant_invD(3,7) [OF inv] assms(3) rl by auto
  have "distinct fl" using dist by (simp add: settled_def)
  from ack_records_free_stack [OF instant_invD(1) [OF inv] this order_refl] obtain h where h:
    "ack_records_free (length fl) (ia_heap st) (iat_free_list (ia_tracker st)) = Some (Inr h)"
    "\<forall>a. h a = (if a \<in> set fl then None else ia_heap st a)" by blast
  show ?thesis
  proof (cases "iat_pending_ack_record (ia_tracker st)")
    case None
    then have "ia_heap st a = None \<or> a \<in> set fl" for a
      using dm assms(2) by (cases "ia_heap st a") (auto simp: settled_def dom_def)
    then have "dom h = {}" using h(2) by (auto simp: dom_def)
    then show ?thesis
      using h(1) None by (intro exI [of _ "length fl"]) (simp add: instant_free_def free_list_take_all_def)
  next
    case (Some r)
    then have "r \<notin> set fl" "r \<in> dom (ia_heap st)" using dist dm by (auto simp: settled_def)
    then obtain x where x: "h r = Some x" using h(2) by auto
    have "ia_heap st a = None \<or> a \<in> set fl \<or> a = r" for a
      using dm assms(2) Some by (cases "ia_heap st a") (auto simp: settled_def dom_def)
    then have "dom (h(r := None)) = {}" using h(2) by (auto simp: dom_def)
    then show ?thesis
      using h(1) Some x
      by (intro exI [of _ "length fl"] exI [of _ "h(r := None)"])
        (simp add: instant_free_def free_list_take_all_def instant_read_def)
  qed
qed

theorem instant_tracker_free_no_leak_witness:
  "\<exists>fuel h. instant_free fuel example_instant = Some (Inr h) \<and> dom h = {}"
proof -
  have "instant_reachable (instant_ack_tracker_new (Some 1) (Some 2)) example_instant"
    unfolding example_instant_def by (rule instant_reachable.start)
  from instant_tracker_free_no_leak [OF this] show ?thesis by (simp add: example_instant_def)
qed

section \<open>The tracker without bookmarks\<close>

record InstantAckTrackerBookmarkless =
  iab_address :: address
  iab_ack_record_storage :: AckRecord

definition instant_ack_tracker_bookmarkless_new :: "address \<Rightarrow> InstantAckTrackerBookmarkless" where
  "instant_ack_tracker_bookmarkless_new self_address =
     \<lparr>iab_address = self_address,
      iab_ack_record_storage = \<lparr>ar_tracker = self_address, ar_bookmark = zero_bookmark\<rparr>\<rparr>"

definition bookmarkless_request_bookmark :: "InstantAckTrackerBookmarkless \<Rightarrow> Bookmark" where
  "bookmarkless_request_bookmark self = ar_bookmark (iab_ack_record_storage self)"

definition bookmarkless_track_msg :: "InstantAckTrackerBookmarkless \<Rightarrow> AckRecord" where
  "bookmarkless_track_msg self = iab_ack_record_storage self"

definition bookmarkless_manage_msg_ack :: "AckType \<Rightarrow> effect list" where
  "bookmarkless_manage_msg_ack ack_type =
     FlowControlAdjust 1 # (if ack_type = AT_SUSPENDED then [FlowControlSuspend] else [])"

end
