(* ===== verification/Batched_Ack_Tracker.thy ===== *)
theory Batched_Ack_Tracker
  imports Ack_Types
begin

text \<open>
  \<^verbatim>\<open>lib/ack-tracker/batched_ack_tracker.c\<close>: acknowledged records are collected and handed to a
  callback in batches, when a batch is full, when the batch timer expires, and on deinitialisation.
  The timer is represented by its registration state, the posted events by the flag the source keeps
  for them; whether a \<^verbatim>\<open>log_pipe_unref\<close> freed the source is an argument of the handlers that
  look at its result.  Of the event library the model uses one documented fact: registering a timer
  that is already registered is a fatal error, here \<open>AssertionFailed\<close>.
\<close>

section \<open>State and operations\<close>

datatype batch_effect =
  Outside effect
| OnBatchAcked "AckRecord list"
| PostRestartTimer
| PostDestroy

record BatchedAckTracker =
  bat_address :: address
  bat_persist_state :: address
  bat_timeout :: guint32
  bat_batch_size :: guint32
  bat_pending_ack_record :: "AckRecord option"
  bat_acked_records_num :: guint64
  bat_acked_records :: "AckRecord list"
  bat_batch_timer_registered :: bool
  bat_has_pending_request_restart_timer :: bool
  bat_watches_running :: bool

definition batched_ack_record_free :: "AckRecord \<Rightarrow> batch_effect list" where
  "batched_ack_record_free s = map Outside (bookmark_destroy (ar_bookmark s))"

definition ack_batch :: "AckRecord list \<Rightarrow> batch_effect list" where
  "ack_batch ack_records = OnBatchAcked ack_records # concat (map batched_ack_record_free ack_records)"

definition batched_request_bookmark :: "BatchedAckTracker \<Rightarrow> BatchedAckTracker" where
  "batched_request_bookmark self =
     (if bat_pending_ack_record self = None
      then self\<lparr>bat_pending_ack_record := Some \<lparr>ar_tracker = None, ar_bookmark = zero_bookmark\<rparr>\<rparr>
      else self)"

definition assign_pending_ack_record_to_msg :: "BatchedAckTracker \<Rightarrow> AckRecord outcome" where
  "assign_pending_ack_record_to_msg self =
     (case bat_pending_ack_record self of
        None \<Rightarrow> Inl NullDereference
      | Some rec \<Rightarrow>
          Inr (rec\<lparr>ar_bookmark := (ar_bookmark rec)\<lparr>bm_persist_state := bat_persist_state self\<rparr>,
                   ar_tracker := bat_address self\<rparr>))"

definition batched_track_msg :: "BatchedAckTracker \<Rightarrow> (AckRecord \<times> BatchedAckTracker) outcome" where
  "batched_track_msg self =
     bindO (assign_pending_ack_record_to_msg self) (\<lambda>rec.
       Inr (rec, self\<lparr>bat_pending_ack_record := None\<rparr>))"

definition append_ack_record_to_batch ::
  "BatchedAckTracker \<Rightarrow> AckRecord \<Rightarrow> AckRecord list \<times> BatchedAckTracker" where
  "append_ack_record_to_batch self ack_record =
     (let self' = self\<lparr>bat_acked_records := ack_record # bat_acked_records self,
                       bat_acked_records_num := bat_acked_records_num self + 1\<rparr>
      in if bat_acked_records_num self' = ucast (bat_batch_size self')
         then (bat_acked_records self', self'\<lparr>bat_acked_records := [], bat_acked_records_num := 0\<rparr>)
         else ([], self'))"

definition stop_batch_timer :: "BatchedAckTracker \<Rightarrow> BatchedAckTracker" where
  "stop_batch_timer self =
     (if bat_batch_timer_registered self then self\<lparr>bat_batch_timer_registered := False\<rparr> else self)"

definition start_batch_timer :: "BatchedAckTracker \<Rightarrow> BatchedAckTracker outcome" where
  "start_batch_timer self =
     (if bat_timeout self \<le> 0 then Inr self
      else g_assert (\<not> bat_batch_timer_registered self)
             (Inr (self\<lparr>bat_batch_timer_registered := True\<rparr>)))"

definition restart_batch_timer :: "BatchedAckTracker \<Rightarrow> BatchedAckTracker outcome" where
  "restart_batch_timer self = start_batch_timer (stop_batch_timer self)"

text \<open>The timer is no longer registered when its handler \<^verbatim>\<open>_batch_timeout\<close> runs.\<close>

definition batch_timeout :: "BatchedAckTracker \<Rightarrow> (batch_effect list \<times> BatchedAckTracker) outcome" where
  "batch_timeout self =
     (let batch = bat_acked_records self;
          self' = self\<lparr>bat_acked_records := [], bat_acked_records_num := 0\<rparr>
      in bindO (start_batch_timer self') (\<lambda>self''.
           Inr (if batch \<noteq> [] then ack_batch batch else [], self'')))"

definition restart_timer_requested :: "bool \<Rightarrow> BatchedAckTracker \<Rightarrow> BatchedAckTracker outcome" where
  "restart_timer_requested source_freed self =
     g_assert (bat_has_pending_request_restart_timer self)
       (let self' = self\<lparr>bat_has_pending_request_restart_timer := False\<rparr>
        in if \<not> source_freed then restart_batch_timer self' else Inr self')"

definition start_watches :: "BatchedAckTracker \<Rightarrow> BatchedAckTracker outcome" where
  "start_watches self =
     (if \<not> bat_watches_running self
      then bindO (start_batch_timer self) (\<lambda>self'. Inr (self'\<lparr>bat_watches_running := True\<rparr>))
      else Inr self)"

definition stop_watches :: "BatchedAckTracker \<Rightarrow> BatchedAckTracker" where
  "stop_watches self =
     (if bat_watches_running self
      then (stop_batch_timer self)\<lparr>bat_watches_running := False\<rparr> else self)"

text \<open>\<^verbatim>\<open>__free\<close>; the second component is the tracker as it is when its memory is released.\<close>

definition batched_destroy :: "BatchedAckTracker \<Rightarrow> batch_effect list \<times> BatchedAckTracker" where
  "batched_destroy self =
     (let self' = stop_watches (self\<lparr>bat_has_pending_request_restart_timer := True\<rparr>)
      in ((if bat_acked_records self' \<noteq> [] then ack_batch (bat_acked_records self') else []) @
          (case bat_pending_ack_record self' of None \<Rightarrow> [] | Some rec \<Rightarrow> batched_ack_record_free rec),
          self'))"

definition request_batch_timer_restart :: "BatchedAckTracker \<Rightarrow> batch_effect list \<times> BatchedAckTracker" where
  "request_batch_timer_restart self =
     (if \<not> bat_has_pending_request_restart_timer self
      then ([PostRestartTimer], self\<lparr>bat_has_pending_request_restart_timer := True\<rparr>)
      else ([], self))"

definition batched_manage_msg_ack ::
  "bool \<Rightarrow> BatchedAckTracker \<Rightarrow> AckRecord \<Rightarrow> AckType \<Rightarrow> batch_effect list \<times> BatchedAckTracker" where
  "batched_manage_msg_ack source_freed self ack_record ack_type =
     (let flow = Outside (FlowControlAdjust 1)
                 # (if ack_type = AT_SUSPENDED then [Outside FlowControlSuspend] else []);
          (effs, restart, self') =
            (if ack_type \<noteq> AT_ABORTED
             then let (full_batch, self'') = append_ack_record_to_batch self ack_record
                  in if full_batch \<noteq> [] then (ack_batch full_batch, True, self'') else ([], False, self'')
             else (batched_ack_record_free ack_record, False, self));
          (posted, self''') =
            (if \<not> source_freed \<and> restart then request_batch_timer_restart self' else ([], self'))
      in (flow @ effs @ posted, self'''))"

definition batched_free :: "batch_effect list" where
  "batched_free = [PostDestroy]"

definition ack_partial_batch :: "BatchedAckTracker \<Rightarrow> batch_effect list \<times> BatchedAckTracker" where
  "ack_partial_batch self =
     (ack_batch (bat_acked_records self), self\<lparr>bat_acked_records := [], bat_acked_records_num := 0\<rparr>)"

definition batched_init :: "BatchedAckTracker \<Rightarrow> BatchedAckTracker outcome" where
  "batched_init self = start_watches self"

definition batched_deinit :: "BatchedAckTracker \<Rightarrow> batch_effect list \<times> BatchedAckTracker" where
  "batched_deinit self = ack_partial_batch (stop_watches self)"

definition batched_ack_tracker_new ::
  "address \<Rightarrow> address \<Rightarrow> guint32 \<Rightarrow> guint32 \<Rightarrow> address \<Rightarrow> BatchedAckTracker outcome" where
  "batched_ack_tracker_new self_address state timeout batch_size on_batch_acked =
     g_assert (batch_size > 0) (g_assert (on_batch_acked \<noteq> None)
       (Inr \<lparr>bat_address = self_address, bat_persist_state = state, bat_timeout = timeout,
             bat_batch_size = batch_size, bat_pending_ack_record = None, bat_acked_records_num = 0,
             bat_acked_records = [], bat_batch_timer_registered = False,
             bat_has_pending_request_restart_timer = False, bat_watches_running = False\<rparr>))"

section \<open>Runs\<close>

datatype batched_op =
  BatchRequestBookmark
| BatchTrackMsg
| BatchAck AckRecord AckType bool
| BatchTimeout
| BatchRestartRequested bool
| BatchInit
| BatchDeinit

definition batched_step ::
  "batched_op \<Rightarrow> BatchedAckTracker \<Rightarrow> (batch_effect list \<times> BatchedAckTracker) outcome" where
  "batched_step ins self =
     (case ins of
        BatchRequestBookmark \<Rightarrow> Inr ([], batched_request_bookmark self)
      | BatchTrackMsg \<Rightarrow> bindO (batched_track_msg self) (\<lambda>(rec, self'). Inr ([], self'))
      | BatchAck rec ty freed \<Rightarrow> Inr (batched_manage_msg_ack freed self rec ty)
      | BatchTimeout \<Rightarrow> batch_timeout (self\<lparr>bat_batch_timer_registered := False\<rparr>)
      | BatchRestartRequested freed \<Rightarrow> bindO (restart_timer_requested freed self) (\<lambda>self'. Inr ([], self'))
      | BatchInit \<Rightarrow> bindO (batched_init self) (\<lambda>self'. Inr ([], self'))
      | BatchDeinit \<Rightarrow> Inr (batched_deinit self))"

text \<open>A message is tracked after its bookmark was requested, a posted event runs its handler once, the
  timer handler runs only for a registered timer, and the tracker is not initialised while it is
  stopped with a registered timer, which is fatal.\<close>

definition batched_enabled :: "batched_op \<Rightarrow> BatchedAckTracker \<Rightarrow> bool" where
  "batched_enabled ins self =
     (case ins of
        BatchTrackMsg \<Rightarrow> bat_pending_ack_record self \<noteq> None
      | BatchRestartRequested freed \<Rightarrow> bat_has_pending_request_restart_timer self
      | BatchTimeout \<Rightarrow> bat_batch_timer_registered self
      | BatchInit \<Rightarrow> bat_watches_running self \<or> \<not> bat_batch_timer_registered self
      | _ \<Rightarrow> True)"

fun batched_run ::
  "batched_op list \<Rightarrow> BatchedAckTracker \<Rightarrow> (batch_effect list \<times> BatchedAckTracker) outcome" where
  "batched_run [] self = Inr ([], self)"
| "batched_run (ins # rest) self =
     bindO (batched_step ins self) (\<lambda>(effs, self').
       bindO (batched_run rest self') (\<lambda>(effs', self''). Inr (effs @ effs', self'')))"

fun batched_admissible :: "batched_op list \<Rightarrow> BatchedAckTracker \<Rightarrow> bool" where
  "batched_admissible [] self = True"
| "batched_admissible (ins # rest) self =
     (batched_enabled ins self \<and>
      (case batched_step ins self of Inl _ \<Rightarrow> True | Inr (_, self') \<Rightarrow> batched_admissible rest self'))"

text \<open>The records acknowledged by \<open>ops\<close>, in order, and the batches handed to the callback by
  \<open>effs\<close>.  The callback gets each batch newest first, because records are prepended to the list;
  \<open>oldest_first\<close> reads the batches with the oldest record of each first.\<close>

fun acked_by :: "batched_op list \<Rightarrow> AckRecord list" where
  "acked_by [] = []"
| "acked_by (BatchAck rec ty freed # rest) = (if ty \<noteq> AT_ABORTED then rec # acked_by rest else acked_by rest)"
| "acked_by (_ # rest) = acked_by rest"

fun batches :: "batch_effect list \<Rightarrow> AckRecord list list" where
  "batches [] = []"
| "batches (OnBatchAcked rs # rest) = rs # batches rest"
| "batches (_ # rest) = batches rest"

definition oldest_first :: "AckRecord list list \<Rightarrow> AckRecord list" where
  "oldest_first bs = concat (map rev bs)"

section \<open>Invariant\<close>

definition batched_inv :: "BatchedAckTracker \<Rightarrow> bool" where
  "batched_inv self \<longleftrightarrow>
     unat (bat_acked_records_num self) = length (bat_acked_records self) \<and>
     length (bat_acked_records self) < unat (bat_batch_size self)"

lemma batches_append [simp]: "batches (xs @ ys) = batches xs @ batches ys"
  by (induction xs rule: batches.induct) auto

lemma oldest_first_simps [simp]:
  "oldest_first [] = []" "oldest_first (b # bs) = rev b @ oldest_first bs"
  "oldest_first (bs @ cs) = oldest_first bs @ oldest_first cs"
  by (simp_all add: oldest_first_def)

lemma batches_Outside [simp]: "batches (map Outside es) = []"
  by (induction es) auto

lemma batches_free [simp]: "batches (batched_ack_record_free rec) = []"
  by (simp add: batched_ack_record_free_def)

lemma batches_ack_batch [simp]: "batches (ack_batch rs) = [rs]"
proof -
  have "batches (concat (map batched_ack_record_free rs)) = []" by (induction rs) simp_all
  then show ?thesis by (simp add: ack_batch_def)
qed

definition same_batch :: "BatchedAckTracker \<Rightarrow> BatchedAckTracker \<Rightarrow> bool" where
  "same_batch self self' \<longleftrightarrow> bat_acked_records self' = bat_acked_records self \<and>
     bat_acked_records_num self' = bat_acked_records_num self \<and> bat_batch_size self' = bat_batch_size self"

lemma same_batch_refl [simp]: "same_batch self self"
  by (simp add: same_batch_def)

lemma stop_same_batch [simp]: "same_batch self (stop_batch_timer self)" "same_batch self (stop_watches self)"
  by (simp_all add: same_batch_def stop_batch_timer_def stop_watches_def)

lemma start_batch_timer:
  assumes "bat_timeout self \<le> 0 \<or> \<not> bat_batch_timer_registered self"
  shows "\<exists>self'. start_batch_timer self = Inr self' \<and> same_batch self self'"
  using assms by (auto simp: start_batch_timer_def same_batch_def)

lemma restart_batch_timer: "\<exists>self'. restart_batch_timer self = Inr self' \<and> same_batch self self'"
  by (auto simp: restart_batch_timer_def start_batch_timer_def stop_batch_timer_def same_batch_def)

lemma batched_init:
  assumes "bat_watches_running self \<or> \<not> bat_batch_timer_registered self"
  shows "\<exists>self'. batched_init self = Inr self' \<and> same_batch self self'"
  using assms by (auto simp: batched_init_def start_watches_def start_batch_timer_def same_batch_def)

lemma append_to_batch:
  assumes inv: "batched_inv self"
  shows "append_ack_record_to_batch self rec =
           (if Suc (length (bat_acked_records self)) = unat (bat_batch_size self)
            then (rec # bat_acked_records self, self\<lparr>bat_acked_records := [], bat_acked_records_num := 0\<rparr>)
            else ([], self\<lparr>bat_acked_records := rec # bat_acked_records self,
                           bat_acked_records_num := bat_acked_records_num self + 1\<rparr>))"
    and "unat (bat_acked_records_num self + 1) = Suc (length (bat_acked_records self))"
proof -
  have "unat (bat_acked_records_num self) + 1 < 2 ^ 64"
    using inv unsigned_less [of "bat_batch_size self", where 'a = nat] by (simp add: batched_inv_def)
  then show num: "unat (bat_acked_records_num self + 1) = Suc (length (bat_acked_records self))"
    using inv by (simp add: unat_word_ariths batched_inv_def)
  have "bat_acked_records_num self + 1 = ucast (bat_batch_size self) \<longleftrightarrow>
      Suc (length (bat_acked_records self)) = unat (bat_batch_size self)"
    unfolding word_unat_eq_iff num by simp
  then show "append_ack_record_to_batch self rec =
           (if Suc (length (bat_acked_records self)) = unat (bat_batch_size self)
            then (rec # bat_acked_records self, self\<lparr>bat_acked_records := [], bat_acked_records_num := 0\<rparr>)
            else ([], self\<lparr>bat_acked_records := rec # bat_acked_records self,
                           bat_acked_records_num := bat_acked_records_num self + 1\<rparr>))"
    by (simp add: append_ack_record_to_batch_def Let_def)
qed

text \<open>The records of \<open>effs\<close> and the ones still collected are the ones collected before and
  the ones acknowledged.\<close>

definition batch_step_ok ::
  "BatchedAckTracker \<Rightarrow> AckRecord list \<Rightarrow> (batch_effect list \<times> BatchedAckTracker) outcome \<Rightarrow> bool" where
  "batch_step_ok self new res \<longleftrightarrow>
     (\<exists>effs self'. res = Inr (effs, self') \<and> batched_inv self' \<and> bat_batch_size self' = bat_batch_size self \<and>
        oldest_first (batches effs) @ rev (bat_acked_records self') = rev (bat_acked_records self) @ new \<and>
        (\<forall>b \<in> set (batches effs). length b \<le> unat (bat_batch_size self)))"

lemma same_batch_ok:
  assumes "batched_inv self" and "same_batch self self'"
  shows "batch_step_ok self [] (Inr ([], self'))"
  using assms by (auto simp: batch_step_ok_def same_batch_def batched_inv_def)

lemma batched_step_inv:
  assumes inv: "batched_inv self" and en: "batched_enabled ins self"
  shows "batch_step_ok self (acked_by [ins]) (batched_step ins self)"
proof (cases ins)
  case (BatchAck rec ty freed)
  then show ?thesis
    using inv append_to_batch(1) [OF inv, of rec] append_to_batch(2) [OF inv]
    by (auto simp: batched_step_def batch_step_ok_def batched_manage_msg_ack_def Let_def batched_inv_def
        request_batch_timer_restart_def)
next
  case BatchTimeout
  let ?self = "self\<lparr>bat_batch_timer_registered := False, bat_acked_records := [], bat_acked_records_num := 0\<rparr>"
  from start_batch_timer [of ?self] obtain self' where "start_batch_timer ?self = Inr self'" "same_batch ?self self'"
    by auto
  then show ?thesis
    using inv BatchTimeout
    by (auto simp: batched_step_def batch_timeout_def Let_def batched_inv_def batch_step_ok_def same_batch_def)
next
  case (BatchRestartRequested freed)
  let ?self = "self\<lparr>bat_has_pending_request_restart_timer := False\<rparr>"
  from restart_batch_timer [of ?self] obtain self' where "restart_batch_timer ?self = Inr self'" "same_batch ?self self'"
    by blast
  then show ?thesis
    using inv en BatchRestartRequested same_batch_ok [OF inv, of self'] same_batch_ok [OF inv, of ?self]
    by (simp add: batched_step_def restart_timer_requested_def Let_def batched_enabled_def same_batch_def)
next
  case BatchInit
  with en obtain self' where "batched_init self = Inr self'" "same_batch self self'"
    using batched_init [of self] by (auto simp: batched_enabled_def)
  then show ?thesis using BatchInit same_batch_ok [OF inv] by (simp add: batched_step_def)
next
  case BatchDeinit
  then show ?thesis
    using inv stop_same_batch(2) [of self]
    by (auto simp: batched_step_def batched_deinit_def ack_partial_batch_def batched_inv_def batch_step_ok_def
        same_batch_def)
next
  case BatchTrackMsg
  then show ?thesis
    using en same_batch_ok [OF inv, of "self\<lparr>bat_pending_ack_record := None\<rparr>"]
    by (auto simp: batched_step_def batched_enabled_def batched_track_msg_def assign_pending_ack_record_to_msg_def
        same_batch_def)
next
  case BatchRequestBookmark
  then show ?thesis
    using same_batch_ok [OF inv, of "batched_request_bookmark self"]
    by (simp add: batched_step_def batched_request_bookmark_def same_batch_def)
qed

lemma acked_by_Cons: "acked_by (ins # rest) = acked_by [ins] @ acked_by rest"
  by (cases ins) auto

lemma batched_run_inv:
  assumes "batched_inv self" and "batched_admissible ops self"
  shows "batch_step_ok self (acked_by ops) (batched_run ops self)"
  using assms
proof (induction ops arbitrary: self)
  case Nil
  then show ?case by (auto simp: batch_step_ok_def)
next
  case (Cons ins ops)
  from batched_step_inv [OF Cons.prems(1), of ins] Cons.prems(2) obtain e1 s1 where s1:
    "batched_step ins self = Inr (e1, s1)" "batched_inv s1" "bat_batch_size s1 = bat_batch_size self"
    "oldest_first (batches e1) @ rev (bat_acked_records s1) = rev (bat_acked_records self) @ acked_by [ins]"
    "\<forall>b \<in> set (batches e1). length b \<le> unat (bat_batch_size self)"
    by (auto simp: batch_step_ok_def)
  from Cons.IH [OF s1(2)] Cons.prems(2) s1(1) obtain e2 s2 where s2:
    "batched_run ops s1 = Inr (e2, s2)" "batched_inv s2" "bat_batch_size s2 = bat_batch_size s1"
    "oldest_first (batches e2) @ rev (bat_acked_records s2) = rev (bat_acked_records s1) @ acked_by ops"
    "\<forall>b \<in> set (batches e2). length b \<le> unat (bat_batch_size s1)"
    by (auto simp: batch_step_ok_def)
  have "oldest_first (batches (e1 @ e2)) @ rev (bat_acked_records s2)
      = (oldest_first (batches e1) @ rev (bat_acked_records s1)) @ acked_by ops"
    by (simp add: s2(4))
  also have "\<dots> = rev (bat_acked_records self) @ acked_by (ins # ops)"
    by (simp only: s1(4) append.assoc acked_by_Cons [of ins ops])
  finally show ?case using s1 s2 by (auto simp: batch_step_ok_def)
qed

lemma batched_destroy_batches:
  "oldest_first (batches (fst (batched_destroy self))) = rev (bat_acked_records self)"
  "b \<in> set (batches (fst (batched_destroy self))) \<Longrightarrow> b = bat_acked_records self"
  using stop_same_batch(2) [of "self\<lparr>bat_has_pending_request_restart_timer := True\<rparr>"]
  by (auto simp: batched_destroy_def Let_def same_batch_def split: option.splits if_splits)

section \<open>Properties\<close>


definition example_batch_record :: "nat \<Rightarrow> AckRecord" where
  "example_batch_record i = \<lparr>ar_tracker = Some i, ar_bookmark = zero_bookmark\<rparr>"

definition example_batched_ops :: "batched_op list" where
  "example_batched_ops =
     [BatchInit, BatchRequestBookmark, BatchTrackMsg, BatchAck (example_batch_record 0) AT_PROCESSED False,
      BatchAck (example_batch_record 1) AT_ABORTED False, BatchAck (example_batch_record 2) AT_SUSPENDED False,
      BatchRestartRequested False, BatchAck (example_batch_record 3) AT_PROCESSED False, BatchTimeout,
      BatchAck (example_batch_record 4) AT_PROCESSED False]"


text \<open>C31: A restart event that was posted by an acknowledgement and is handled after the tracker was
  deinitialised registers the batch timer again although the watches are stopped, and destroying the
  tracker in that state does not unregister it: the timer outlives the memory it lives in.\<close>

theorem batched_timer_survives_destroy:
  assumes "bat_has_pending_request_restart_timer self" and "bat_timeout self > 0"
    and "bat_watches_running self"
  shows "\<exists>self'. restart_timer_requested False (snd (batched_deinit self)) = Inr self' \<and>
           \<not> bat_watches_running self' \<and> bat_batch_timer_registered (snd (batched_destroy self'))"
  using assms
  by (auto simp: restart_timer_requested_def batched_deinit_def ack_partial_batch_def stop_watches_def
      restart_batch_timer_def start_batch_timer_def stop_batch_timer_def batched_destroy_def Let_def)

definition example_batched :: BatchedAckTracker where
  "example_batched =
     \<lparr>bat_address = Some 1, bat_persist_state = Some 2, bat_timeout = 1000, bat_batch_size = 1,
      bat_pending_ack_record = None, bat_acked_records_num = 0, bat_acked_records = [],
      bat_batch_timer_registered = True, bat_has_pending_request_restart_timer = True,
      bat_watches_running = True\<rparr>"

theorem batched_timer_survives_destroy_witness:
  "\<exists>self'. restart_timer_requested False (snd (batched_deinit example_batched)) = Inr self' \<and>
     \<not> bat_watches_running self' \<and> bat_batch_timer_registered (snd (batched_destroy self'))"
  using batched_timer_survives_destroy [of example_batched] by (simp add: example_batched_def)

text \<open>C32: A restart event handled between a deinitialisation and the next initialisation is fatal: the timer
  is registered although the watches are stopped, and the initialisation registers it again.\<close>

theorem batched_reinit_aborts:
  assumes "bat_has_pending_request_restart_timer self" and "bat_timeout self > 0"
    and "bat_watches_running self"
  shows "(\<exists>effs self'. batched_run [BatchDeinit, BatchRestartRequested False] self = Inr (effs, self')) \<and>
    batched_run [BatchDeinit, BatchRestartRequested False, BatchInit] self = Inl AssertionFailed"
  using assms
  by (auto simp: batched_step_def restart_timer_requested_def batched_deinit_def ack_partial_batch_def
      stop_watches_def restart_batch_timer_def start_batch_timer_def stop_batch_timer_def batched_init_def
      start_watches_def Let_def)

theorem batched_reinit_aborts_witness:
  "batched_run [BatchDeinit, BatchRestartRequested False, BatchInit] example_batched = Inl AssertionFailed"
  using batched_reinit_aborts [of example_batched] by (simp add: example_batched_def)

end
