(* ===== verification/Log_Queue.thy ===== *)
theory Log_Queue
  imports Prelude
begin

text \<open>
  The common part of all message queues, \<^verbatim>\<open>lib/logqueue.h\<close> and \<^verbatim>\<open>lib/logqueue.c\<close>:
  counters, the push notification of the consumer and the throttle that limits the output rate.
  \<^verbatim>\<open>gint\<close> and \<^verbatim>\<open>gint64\<close> values are integers, and the result of every addition, product and
  conversion is wrapped to its width (\<open>to_gint\<close>, \<open>to_gint64\<close>).
\<close>

section \<open>State\<close>

definition to_gint :: "int \<Rightarrow> int" where
  "to_gint x = signed_take_bit 31 x"

definition to_gint64 :: "int \<Rightarrow> int" where
  "to_gint64 x = signed_take_bit 63 x"

text \<open>The division of the source rounds towards zero.\<close>

definition c_div :: "int \<Rightarrow> int \<Rightarrow> int" where
  "c_div a b = sgn a * sgn b * (\<bar>a\<bar> div \<bar>b\<bar>)"

record timespec =
  tv_sec :: int
  tv_nsec :: int

abbreviation NSEC_PER_SEC :: int where
  "NSEC_PER_SEC \<equiv> 1000000000"

definition timespec_diff_nsec :: "timespec \<Rightarrow> timespec \<Rightarrow> int" where
  "timespec_diff_nsec t1 t2 =
     to_gint64 (to_gint64 ((tv_sec t1 - tv_sec t2) * NSEC_PER_SEC) + (tv_nsec t1 - tv_nsec t2))"

record LogQueueMetrics =
  shared_queued_messages :: int
  shared_memory_usage :: int
  shared_dropped_messages :: int
  owned_queued_messages :: int
  owned_memory_usage :: int
  owned_processed_messages :: int

record LogQueue =
  lq_throttle :: int
  lq_throttle_buckets :: int
  lq_last_throttle_check :: timespec
  lq_metrics :: LogQueueMetrics
  lq_parallel_push_notify :: "nat option"
  lq_parallel_push_data :: "nat option"
  lq_parallel_push_data_destroy :: "nat option"

datatype notify_effect =
  CallPushNotify nat "nat option"
| CallDataDestroy nat "nat option"

section \<open>Counters\<close>

definition log_queue_memory_usage_add :: "LogQueue \<Rightarrow> int \<Rightarrow> LogQueue" where
  "log_queue_memory_usage_add self v =
     self\<lparr>lq_metrics := (lq_metrics self)\<lparr>
       shared_memory_usage := shared_memory_usage (lq_metrics self) + v,
       owned_memory_usage := owned_memory_usage (lq_metrics self) + v\<rparr>\<rparr>"

definition log_queue_memory_usage_sub :: "LogQueue \<Rightarrow> int \<Rightarrow> LogQueue" where
  "log_queue_memory_usage_sub self v =
     self\<lparr>lq_metrics := (lq_metrics self)\<lparr>
       shared_memory_usage := shared_memory_usage (lq_metrics self) - v,
       owned_memory_usage := owned_memory_usage (lq_metrics self) - v\<rparr>\<rparr>"

definition log_queue_queued_messages_add :: "LogQueue \<Rightarrow> int \<Rightarrow> LogQueue" where
  "log_queue_queued_messages_add self v =
     self\<lparr>lq_metrics := (lq_metrics self)\<lparr>
       shared_queued_messages := shared_queued_messages (lq_metrics self) + v,
       owned_queued_messages := owned_queued_messages (lq_metrics self) + v\<rparr>\<rparr>"

definition log_queue_queued_messages_sub :: "LogQueue \<Rightarrow> int \<Rightarrow> LogQueue" where
  "log_queue_queued_messages_sub self v =
     self\<lparr>lq_metrics := (lq_metrics self)\<lparr>
       shared_queued_messages := shared_queued_messages (lq_metrics self) - v,
       owned_queued_messages := owned_queued_messages (lq_metrics self) - v\<rparr>\<rparr>"

definition log_queue_queued_messages_inc :: "LogQueue \<Rightarrow> LogQueue" where
  "log_queue_queued_messages_inc self =
     self\<lparr>lq_metrics := (lq_metrics self)\<lparr>
       shared_queued_messages := shared_queued_messages (lq_metrics self) + 1,
       owned_queued_messages := owned_queued_messages (lq_metrics self) + 1\<rparr>\<rparr>"

definition log_queue_queued_messages_dec :: "LogQueue \<Rightarrow> LogQueue" where
  "log_queue_queued_messages_dec self =
     self\<lparr>lq_metrics := (lq_metrics self)\<lparr>
       shared_queued_messages := shared_queued_messages (lq_metrics self) - 1,
       owned_queued_messages := owned_queued_messages (lq_metrics self) - 1\<rparr>\<rparr>"

definition log_queue_queued_messages_reset :: "LogQueue \<Rightarrow> int \<Rightarrow> LogQueue" where
  "log_queue_queued_messages_reset self len =
     self\<lparr>lq_metrics := (lq_metrics self)\<lparr>
       shared_queued_messages :=
         shared_queued_messages (lq_metrics self) - owned_queued_messages (lq_metrics self) + len,
       owned_queued_messages := len\<rparr>\<rparr>"

definition log_queue_dropped_messages_inc :: "LogQueue \<Rightarrow> LogQueue" where
  "log_queue_dropped_messages_inc self =
     self\<lparr>lq_metrics := (lq_metrics self)\<lparr>
       shared_dropped_messages := shared_dropped_messages (lq_metrics self) + 1\<rparr>\<rparr>"

section \<open>Push notification\<close>

definition log_queue_push_notify :: "LogQueue \<Rightarrow> notify_effect list \<times> LogQueue" where
  "log_queue_push_notify self =
     (case lq_parallel_push_notify self of
        None \<Rightarrow> ([], self)
      | Some func \<Rightarrow>
          (CallPushNotify func (lq_parallel_push_data self) #
           (case lq_parallel_push_data_destroy self of
              None \<Rightarrow> []
            | Some destroy \<Rightarrow>
                if lq_parallel_push_data self \<noteq> None
                then [CallDataDestroy destroy (lq_parallel_push_data self)] else []),
           self\<lparr>lq_parallel_push_data := None, lq_parallel_push_data_destroy := None,
                lq_parallel_push_notify := None\<rparr>))"

definition log_queue_reset_parallel_push :: "LogQueue \<Rightarrow> LogQueue" where
  "log_queue_reset_parallel_push self =
     self\<lparr>lq_parallel_push_notify := None, lq_parallel_push_data := None\<rparr>"

definition log_queue_set_parallel_push ::
  "LogQueue \<Rightarrow> nat option \<Rightarrow> nat option \<Rightarrow> nat option \<Rightarrow> LogQueue" where
  "log_queue_set_parallel_push self parallel_push_notify user_data user_data_destroy =
     self\<lparr>lq_parallel_push_notify := parallel_push_notify, lq_parallel_push_data := user_data,
          lq_parallel_push_data_destroy := user_data_destroy\<rparr>"

section \<open>Throttling\<close>

definition data_destroy_effect :: "nat option \<Rightarrow> nat option \<Rightarrow> notify_effect list" where
  "data_destroy_effect data destroy =
     (case destroy of
        None \<Rightarrow> []
      | Some f \<Rightarrow> if data \<noteq> None then [CallDataDestroy f data] else [])"

text \<open>The throttle part of \<^verbatim>\<open>log_queue_check_items\<close>; \<open>now\<close> is the monotonic clock.  The result is
  whether the consumer may proceed and the new \<^verbatim>\<open>*timeout\<close>.\<close>

definition check_throttle :: "LogQueue \<Rightarrow> int \<Rightarrow> timespec \<Rightarrow> bool \<times> int option \<times> LogQueue" where
  "check_throttle self num_elements now =
     (if lq_throttle self > 0
      then
        let (diff, self1) =
              (if tv_sec (lq_last_throttle_check self) \<noteq> 0
               then (timespec_diff_nsec now (lq_last_throttle_check self), self)
               else (0, self\<lparr>lq_last_throttle_check := now\<rparr>));
            new_buckets = to_gint (c_div (to_gint64 (lq_throttle self * diff)) NSEC_PER_SEC);
            self2 =
              (if new_buckets \<noteq> 0
               then self1\<lparr>lq_throttle_buckets := min (lq_throttle self1) (to_gint (lq_throttle_buckets self1 + new_buckets)),
                          lq_last_throttle_check := now\<rparr>
               else self1)
        in if num_elements \<noteq> 0 \<and> lq_throttle_buckets self2 = 0
           then (False, Some (c_div 1000 (lq_throttle self2) + 1), self2)
           else (True, None, self2)
      else (True, None, self))"

definition log_queue_check_items ::
  "LogQueue \<Rightarrow> int \<Rightarrow> timespec \<Rightarrow> nat option \<Rightarrow> nat option \<Rightarrow> nat option
     \<Rightarrow> notify_effect list \<times> bool \<times> int option \<times> LogQueue" where
  "log_queue_check_items self num_elements now parallel_push_notify user_data user_data_destroy =
     (let old = data_destroy_effect (lq_parallel_push_data self) (lq_parallel_push_data_destroy self) in
      if num_elements = 0
      then (old, False, None,
            log_queue_set_parallel_push self parallel_push_notify user_data user_data_destroy)
      else let (ok, timeout, self') =
                 check_throttle (self\<lparr>lq_parallel_push_notify := None, lq_parallel_push_data := None\<rparr>)
                   num_elements now
           in (old @ data_destroy_effect user_data user_data_destroy, ok, timeout, self'))"

text \<open>The throttle part of \<^verbatim>\<open>log_queue_pop_head\<close>: \<open>None\<close> when the queue is not asked at all,
  otherwise the new state after the queue answered with a message or not.\<close>

definition throttled_pop :: "LogQueue \<Rightarrow> bool \<Rightarrow> LogQueue option" where
  "throttled_pop self got_msg =
     (if lq_throttle self \<noteq> 0 \<and> lq_throttle_buckets self = 0 then None
      else Some (if got_msg \<and> lq_throttle_buckets self > 0
                 then self\<lparr>lq_throttle_buckets := lq_throttle_buckets self - 1\<rparr> else self))"

definition log_queue_set_throttle :: "LogQueue \<Rightarrow> int \<Rightarrow> LogQueue" where
  "log_queue_set_throttle self throttle =
     self\<lparr>lq_throttle := throttle, lq_throttle_buckets := throttle\<rparr>"

section \<open>The output rate\<close>

text \<open>What the consumer does: it checks the queue at a point in time, or takes a message.\<close>

datatype throttle_op = CheckAt timespec | TakeMessage

text \<open>The number of messages taken, and the final state.\<close>

fun throttle_run :: "throttle_op list \<Rightarrow> LogQueue \<Rightarrow> nat \<times> LogQueue" where
  "throttle_run [] self = (0, self)"
| "throttle_run (CheckAt now # rest) self = throttle_run rest (snd (snd (check_throttle self 1 now)))"
| "throttle_run (TakeMessage # rest) self =
     (case throttled_pop self True of
        None \<Rightarrow> throttle_run rest self
      | Some self' \<Rightarrow> let (n, self'') = throttle_run rest self' in (Suc n, self''))"

definition nsec :: "timespec \<Rightarrow> int" where
  "nsec t = tv_sec t * NSEC_PER_SEC + tv_nsec t"

definition timespec_ok :: "timespec \<Rightarrow> bool" where
  "timespec_ok t \<longleftrightarrow> tv_sec t \<noteq> 0 \<and> 0 \<le> tv_nsec t \<and> tv_nsec t < NSEC_PER_SEC"

text \<open>The clock moves forward between checks, from \<open>t\<close> to at most \<open>t_end\<close>.\<close>

fun clock_ok :: "int \<Rightarrow> int \<Rightarrow> throttle_op list \<Rightarrow> bool" where
  "clock_ok t t_end [] \<longleftrightarrow> t \<le> t_end"
| "clock_ok t t_end (CheckAt now # rest) \<longleftrightarrow>
     t \<le> nsec now \<and> timespec_ok now \<and> clock_ok (nsec now) t_end rest"
| "clock_ok t t_end (TakeMessage # rest) \<longleftrightarrow> clock_ok t t_end rest"

lemma clock_ok_le: "clock_ok t t_end ops \<Longrightarrow> t \<le> t_end"
  by (induction t t_end ops rule: clock_ok.induct) auto

lemma to_gint_id:
  assumes "- (2 ^ 31) \<le> x" and "x < 2 ^ 31"
  shows "to_gint x = x"
  using assms by (simp add: to_gint_def signed_take_bit_int_eq_self_iff)

lemma to_gint64_id:
  assumes "- (2 ^ 63) \<le> x" and "x < 2 ^ 63"
  shows "to_gint64 x = x"
  using assms by (simp add: to_gint64_def signed_take_bit_int_eq_self_iff)

lemma to_gint_add: "to_gint (a + to_gint b) = to_gint (a + b)"
proof -
  have "take_bit 32 (a + signed_take_bit 31 b) = take_bit 32 (a + b)"
    using take_bit_add [of 32 a "signed_take_bit 31 b"] take_bit_add [of 32 a b]
    by (simp add: take_bit_signed_take_bit)
  then show ?thesis by (simp add: to_gint_def signed_take_bit_eq_iff_take_bit_eq)
qed

lemma to_gint_wraps:
  assumes "2 ^ 31 \<le> x" and "x < 2 ^ 32"
  shows "to_gint x = x - 2 ^ 32"
proof -
  have "signed_take_bit 31 x = signed_take_bit 31 (x - 2 ^ 32)"
    by (rule signed_take_bit_eq_iff_take_bit_eq [THEN iffD2]) (simp add: take_bit_eq_mod)
  then show ?thesis using assms by (simp add: to_gint_def signed_take_bit_int_eq_self_iff)
qed

text \<open>Times less than \<open>2 ^ 62\<close> nanoseconds (146 years) apart are subtracted without overflow.\<close>

lemma timespec_diff_nsec_eq:
  assumes "timespec_ok t1" and "timespec_ok t2" and "\<bar>nsec t1 - nsec t2\<bar> < 2 ^ 62"
  shows "timespec_diff_nsec t1 t2 = nsec t1 - nsec t2"
proof -
  have eq: "(tv_sec t1 - tv_sec t2) * NSEC_PER_SEC = nsec t1 - nsec t2 - (tv_nsec t1 - tv_nsec t2)"
    by (simp add: nsec_def algebra_simps)
  have "to_gint64 ((tv_sec t1 - tv_sec t2) * NSEC_PER_SEC) = (tv_sec t1 - tv_sec t2) * NSEC_PER_SEC"
    unfolding eq using assms by (intro to_gint64_id) (auto simp: timespec_ok_def)
  then show ?thesis
    unfolding timespec_diff_nsec_def eq using assms(3) to_gint64_id [of "nsec t1 - nsec t2"] by simp
qed

definition throttle_ok :: "LogQueue \<Rightarrow> bool" where
  "throttle_ok self \<longleftrightarrow>
     0 < lq_throttle self \<and> lq_throttle self < 2 ^ 31 \<and> 0 \<le> lq_throttle_buckets self \<and>
     lq_throttle_buckets self \<le> lq_throttle self \<and> timespec_ok (lq_last_throttle_check self)"

text \<open>The buckets that the time from \<open>t1\<close> to \<open>t2\<close> is worth.\<close>

definition earned :: "LogQueue \<Rightarrow> int \<Rightarrow> int \<Rightarrow> int" where
  "earned self t1 t2 = lq_throttle self * (t2 - t1) div NSEC_PER_SEC"

lemma earned_bounds:
  assumes "0 < lq_throttle self" and "t1 \<le> t2"
  shows "0 \<le> earned self t1 t2" and "earned self t1 t2 * NSEC_PER_SEC \<le> lq_throttle self * (t2 - t1)"
    and "lq_throttle self * (t2 - t1) < (earned self t1 t2 + 1) * NSEC_PER_SEC"
    and "t2 - t1 \<le> lq_throttle self * (t2 - t1)"
proof -
  show "0 \<le> earned self t1 t2"
    unfolding earned_def using assms
    by (intro pos_imp_zdiv_nonneg_iff [THEN iffD2] mult_nonneg_nonneg) simp_all
  show "earned self t1 t2 * NSEC_PER_SEC \<le> lq_throttle self * (t2 - t1)"
    unfolding earned_def by (simp add: minus_mod_eq_div_mult [symmetric])
  show "lq_throttle self * (t2 - t1) < (earned self t1 t2 + 1) * NSEC_PER_SEC"
    using pos_mod_bound [of NSEC_PER_SEC "lq_throttle self * (t2 - t1)"]
      div_mult_mod_eq [of "lq_throttle self * (t2 - t1)" NSEC_PER_SEC]
    unfolding earned_def by (simp add: distrib_right)
  show "t2 - t1 \<le> lq_throttle self * (t2 - t1)"
    using mult_right_mono [of 1 "lq_throttle self" "t2 - t1"] assms by simp
qed

lemma earned_mono:
  assumes "0 < lq_throttle self" and "t2 \<le> t3"
  shows "earned self t1 t2 \<le> earned self t1 t3"
  unfolding earned_def using assms by (intro zdiv_mono1 mult_left_mono) simp_all

lemma c_div_nonneg: "0 \<le> a \<Longrightarrow> 0 < b \<Longrightarrow> c_div a b = a div b"
  by (cases "a = 0") (simp_all add: c_div_def)

lemma check_throttle_proceeds:
  "lq_throttle_buckets (snd (snd (check_throttle self n now))) \<noteq> 0 \<Longrightarrow> fst (check_throttle self n now)"
  unfolding check_throttle_def Let_def split_beta by (auto split: if_splits)

text \<open>A check with the earned buckets below \<open>2 ^ 32\<close>: they are added in 32 bits.\<close>

lemma check_throttle_state:
  fixes self :: LogQueue and now :: timespec and n :: int
  assumes thr: "0 < lq_throttle self" and last: "timespec_ok (lq_last_throttle_check self)"
    and now: "timespec_ok now" and le: "nsec (lq_last_throttle_check self) \<le> nsec now"
  defines "k \<equiv> earned self (nsec (lq_last_throttle_check self)) (nsec now)"
  assumes small: "k < 2 ^ 32"
  shows "snd (snd (check_throttle self n now)) =
     (if to_gint k \<noteq> 0
      then self\<lparr>lq_throttle_buckets := min (lq_throttle self) (to_gint (lq_throttle_buckets self + k)),
                lq_last_throttle_check := now\<rparr>
      else self)"
proof -
  let ?d = "nsec now - nsec (lq_last_throttle_check self)"
  note e = earned_bounds [OF thr le, folded k_def]
  have d: "lq_throttle self * ?d < 2 ^ 62" "0 \<le> lq_throttle self * ?d" "?d < 2 ^ 62" "0 \<le> ?d"
    using e small thr le by (auto intro!: mult_nonneg_nonneg)
  then have diff: "timespec_diff_nsec now (lq_last_throttle_check self) = ?d"
    by (intro timespec_diff_nsec_eq [OF now last]) simp
  have "c_div (to_gint64 (lq_throttle self * ?d)) NSEC_PER_SEC = lq_throttle self * ?d div NSEC_PER_SEC"
    using d to_gint64_id [of "lq_throttle self * ?d"] c_div_nonneg [of "lq_throttle self * ?d" NSEC_PER_SEC] by simp
  then have k: "to_gint (c_div (to_gint64 (lq_throttle self * ?d)) NSEC_PER_SEC) = to_gint k"
    by (simp add: k_def earned_def)
  show ?thesis
    using thr last by (simp add: check_throttle_def timespec_ok_def Let_def diff k to_gint_add)
qed

text \<open>A check earns at most the buckets that the elapsed time is worth.\<close>

lemma check_throttle_earns:
  fixes self :: LogQueue and now :: timespec and n t :: int
  assumes ok: "throttle_ok self" and le: "nsec (lq_last_throttle_check self) \<le> nsec now"
    and small: "lq_throttle_buckets self + earned self (nsec (lq_last_throttle_check self)) (nsec now) < 2 ^ 31"
    and now: "timespec_ok now"
  defines "self' \<equiv> snd (snd (check_throttle self n now))"
  shows "throttle_ok self'" and "lq_throttle self' = lq_throttle self"
    and "nsec (lq_last_throttle_check self) \<le> nsec (lq_last_throttle_check self')"
    and "nsec (lq_last_throttle_check self') \<le> nsec now"
    and "lq_throttle_buckets self' * NSEC_PER_SEC + lq_throttle self * (t - nsec (lq_last_throttle_check self'))
           \<le> lq_throttle_buckets self * NSEC_PER_SEC + lq_throttle self * (t - nsec (lq_last_throttle_check self))"
proof -
  let ?last = "nsec (lq_last_throttle_check self)"
  define k where "k = earned self ?last (nsec now)"
  have t0: "0 < lq_throttle self" and last: "timespec_ok (lq_last_throttle_check self)"
    using ok by (simp_all add: throttle_ok_def)
  note e = earned_bounds [OF t0 le, folded k_def]
  have k: "k < 2 ^ 32" "to_gint k = k" "to_gint (lq_throttle_buckets self + k) = lq_throttle_buckets self + k"
    using small ok e(1) by (auto simp: k_def throttle_ok_def intro!: to_gint_id)
  have self': "self' = (if k \<noteq> 0 then self\<lparr>lq_throttle_buckets := min (lq_throttle self) (lq_throttle_buckets self + k),
                                          lq_last_throttle_check := now\<rparr> else self)"
    using check_throttle_state [OF t0 last now le, of n, folded k_def] k by (simp add: self'_def)
  show "throttle_ok self'" using ok e(1) now by (auto simp: self' throttle_ok_def)
  show "lq_throttle self' = lq_throttle self" by (simp add: self')
  show "?last \<le> nsec (lq_last_throttle_check self')" using le by (simp add: self')
  show "nsec (lq_last_throttle_check self') \<le> nsec now" using le by (simp add: self')
  have "min (lq_throttle self) (lq_throttle_buckets self + k) * NSEC_PER_SEC
      \<le> (lq_throttle_buckets self + k) * NSEC_PER_SEC"
    by (intro mult_right_mono) simp_all
  with e(2) show "lq_throttle_buckets self' * NSEC_PER_SEC + lq_throttle self * (t - nsec (lq_last_throttle_check self'))
           \<le> lq_throttle_buckets self * NSEC_PER_SEC + lq_throttle self * (t - ?last)"
    by (auto simp: self' algebra_simps)
qed

lemma throttle_run_bound:
  assumes "throttle_ok self" and "nsec (lq_last_throttle_check self) \<le> t" and "clock_ok t t_end ops"
    and "lq_throttle self + earned self (nsec (lq_last_throttle_check self)) t_end < 2 ^ 31"
  shows "int (fst (throttle_run ops self)) * NSEC_PER_SEC
           \<le> lq_throttle_buckets self * NSEC_PER_SEC + lq_throttle self * (t_end - nsec (lq_last_throttle_check self))"
  using assms
proof (induction ops arbitrary: self t)
  case Nil
  then show ?case by (simp add: throttle_ok_def)
next
  case (Cons ins ops)
  have t0: "0 < lq_throttle self" and b: "lq_throttle_buckets self \<le> lq_throttle self"
    using Cons.prems(1) by (simp_all add: throttle_ok_def)
  show ?case
  proof (cases ins)
    case (CheckAt now)
    have now: "nsec (lq_last_throttle_check self) \<le> nsec now" "timespec_ok now" "clock_ok (nsec now) t_end ops"
      using Cons.prems(2,3) CheckAt by auto
    have "lq_throttle_buckets self + earned self (nsec (lq_last_throttle_check self)) (nsec now) < 2 ^ 31"
      using earned_mono [OF t0 clock_ok_le [OF now(3)], of "nsec (lq_last_throttle_check self)"] Cons.prems(4) b
      by linarith
    note earns = check_throttle_earns [OF Cons.prems(1) now(1) this now(2), of 1]
    let ?self' = "snd (snd (check_throttle self 1 now))"
    have "earned ?self' (nsec (lq_last_throttle_check ?self')) t_end \<le> earned self (nsec (lq_last_throttle_check self)) t_end"
      unfolding earned_def earns(2) using earns(3) t0 by (intro zdiv_mono1 mult_left_mono) simp_all
    then have "lq_throttle ?self' + earned ?self' (nsec (lq_last_throttle_check ?self')) t_end < 2 ^ 31"
      using Cons.prems(4) earns(2) by linarith
    from Cons.IH [OF earns(1,4) now(3) this] earns(2) earns(5) [of t_end] show ?thesis
      by (simp add: CheckAt)
  next
    case TakeMessage
    show ?thesis
    proof (cases "lq_throttle_buckets self = 0")
      case True
      then show ?thesis
        using Cons.IH [OF Cons.prems(1,2) _ Cons.prems(4)] Cons.prems(1,3) TakeMessage
        by (simp add: throttled_pop_def throttle_ok_def)
    next
      case False
      let ?self' = "self\<lparr>lq_throttle_buckets := lq_throttle_buckets self - 1\<rparr>"
      have "throttle_ok ?self'" using Cons.prems(1) False by (simp add: throttle_ok_def)
      from Cons.IH [OF this, of t] Cons.prems TakeMessage False show ?thesis
        by (auto simp: throttled_pop_def throttle_ok_def split_beta Let_def algebra_simps earned_def)
    qed
  qed
qed

fun takes :: "throttle_op list \<Rightarrow> nat" where
  "takes [] = 0"
| "takes (CheckAt now # rest) = takes rest"
| "takes (TakeMessage # rest) = Suc (takes rest)"

text \<open>A negative bucket count limits nothing until enough time has passed to make it positive again.\<close>

lemma negative_buckets_unlimited:
  assumes "0 < lq_throttle self" and "timespec_ok (lq_last_throttle_check self)"
    and "nsec (lq_last_throttle_check self) \<le> t" and "clock_ok t t_end ops"
    and "- (2 ^ 31) \<le> lq_throttle_buckets self"
    and "lq_throttle_buckets self * NSEC_PER_SEC + lq_throttle self * (t_end - nsec (lq_last_throttle_check self)) < 0"
  shows "fst (throttle_run ops self) = takes ops"
  using assms
proof (induction ops arbitrary: self t)
  case (Cons ins ops)
  let ?last = "nsec (lq_last_throttle_check self)"
  have "?last \<le> t_end" using clock_ok_le [OF Cons.prems(4)] Cons.prems(3) by simp
  then have "0 \<le> lq_throttle self * (t_end - ?last)" using Cons.prems(1) by simp
  with Cons.prems(6) have neg: "lq_throttle_buckets self < 0" by linarith
  show ?case
  proof (cases ins)
    case TakeMessage
    then show ?thesis
      using Cons.IH [OF Cons.prems(1-3) _ Cons.prems(5,6)] Cons.prems(4) neg by (simp add: throttled_pop_def split_beta)
  next
    case (CheckAt now)
    let ?k = "earned self ?last (nsec now)"
    have now: "?last \<le> nsec now" "timespec_ok now" "clock_ok (nsec now) t_end ops"
      using Cons.prems(3,4) CheckAt by auto
    note e = earned_bounds [OF Cons.prems(1) now(1)]
    have "lq_throttle self * (nsec now - ?last) \<le> lq_throttle self * (t_end - ?last)"
      using clock_ok_le [OF now(3)] Cons.prems(1) by simp
    with e(2) Cons.prems(6) have "(lq_throttle_buckets self + ?k) * NSEC_PER_SEC < 0" by (simp add: algebra_simps)
    then have bk: "lq_throttle_buckets self + ?k < 0" by (simp add: mult_less_0_iff)
    with e(1) Cons.prems(5) have "?k < 2 ^ 32" "to_gint ?k = ?k"
      "to_gint (lq_throttle_buckets self + ?k) = lq_throttle_buckets self + ?k"
      by (auto intro!: to_gint_id)
    with check_throttle_state [OF Cons.prems(1,2) now(2,1), of 1] bk Cons.prems(1)
    have st: "snd (snd (check_throttle self 1 now)) =
        (if ?k \<noteq> 0 then self\<lparr>lq_throttle_buckets := lq_throttle_buckets self + ?k, lq_last_throttle_check := now\<rparr> else self)"
      by (simp add: min_def)
    show ?thesis
    proof (cases "?k = 0")
      case True
      then show ?thesis
        using st Cons.IH [OF Cons.prems(1,2) now(1,3) Cons.prems(5,6)] by (simp add: CheckAt)
    next
      case False
      let ?self' = "self\<lparr>lq_throttle_buckets := lq_throttle_buckets self + ?k, lq_last_throttle_check := now\<rparr>"
      have "lq_throttle_buckets ?self' * NSEC_PER_SEC + lq_throttle ?self' * (t_end - nsec (lq_last_throttle_check ?self')) < 0"
        using e(2) Cons.prems(6) by (simp add: algebra_simps)
      from Cons.IH [of ?self' "nsec now", OF _ _ _ now(3) _ this] Cons.prems(1,5) now(2) e(1) st False
      show ?thesis by (simp add: CheckAt)
    qed
  qed
qed simp

section \<open>Properties\<close>

text \<open>C17: The throttle is a token bucket.  For a consumer that checks the queue at any points in time
  and takes messages in between, the number of messages taken until \<open>t_end\<close> is at most the buckets it
  started with plus the configured rate times the elapsed time.  The time until \<open>t_end\<close> must be worth
  fewer than \<open>2 ^ 31\<close> buckets minus one full bucket, so that no bucket count overflows.\<close>

theorem throttle_limits_rate:
  assumes "throttle_ok self" and "clock_ok (nsec (lq_last_throttle_check self)) t_end ops"
    and "lq_throttle self + earned self (nsec (lq_last_throttle_check self)) t_end < 2 ^ 31"
  shows "int (fst (throttle_run ops self)) * NSEC_PER_SEC
           \<le> lq_throttle_buckets self * NSEC_PER_SEC
             + lq_throttle self * (t_end - nsec (lq_last_throttle_check self))"
  by (rule throttle_run_bound [OF assms(1) order_refl assms(2,3)])

definition example_queue :: "int \<Rightarrow> int \<Rightarrow> LogQueue" where
  "example_queue throttle buckets =
     \<lparr>lq_throttle = throttle, lq_throttle_buckets = buckets,
      lq_last_throttle_check = \<lparr>tv_sec = 1, tv_nsec = 0\<rparr>,
      lq_metrics = \<lparr>shared_queued_messages = 0, shared_memory_usage = 0, shared_dropped_messages = 0,
        owned_queued_messages = 0, owned_memory_usage = 0, owned_processed_messages = 0\<rparr>,
      lq_parallel_push_notify = None, lq_parallel_push_data = None, lq_parallel_push_data_destroy = None\<rparr>"

theorem throttle_limits_rate_witness:
  "int (fst (throttle_run [TakeMessage, TakeMessage, CheckAt \<lparr>tv_sec = 2, tv_nsec = 0\<rparr>, TakeMessage,
                           TakeMessage, TakeMessage] (example_queue 2 1))) * 1000000000
     \<le> 1 * 1000000000 + 2 * 1000000000"
  using throttle_limits_rate [of "example_queue 2 1" 2000000000 "[TakeMessage, TakeMessage,
      CheckAt \<lparr>tv_sec = 2, tv_nsec = 0\<rparr>, TakeMessage, TakeMessage, TakeMessage]"]
  by (simp add: example_queue_def throttle_ok_def timespec_ok_def nsec_def earned_def)

text \<open>C35: An idle gap that is worth too much disables the limit.  When the buckets at hand plus those earned since
  the last check reach \<open>2 ^ 31\<close> but not \<open>2 ^ 32\<close>, the sum is negative in a \<^verbatim>\<open>gint\<close>.  The check lets the consumer
  proceed, and from then on, whatever checks are made in between, every attempt to take a message succeeds
  until the time \<open>t_end\<close> at which enough buckets have been earned to make the count non-negative again.\<close>

theorem throttle_overflow_disables_limit:
  fixes self :: LogQueue and now :: timespec
  assumes "throttle_ok self" and "timespec_ok now" and "nsec (lq_last_throttle_check self) \<le> nsec now"
  defines "b \<equiv> lq_throttle_buckets self + earned self (nsec (lq_last_throttle_check self)) (nsec now)"
  assumes "2 ^ 31 \<le> b" and "clock_ok (nsec now) t_end ops"
    and "b * NSEC_PER_SEC + lq_throttle self * (t_end - nsec now) < 2 ^ 32 * NSEC_PER_SEC"
  shows "fst (check_throttle self n now) \<and>
         fst (throttle_run ops (snd (snd (check_throttle self n now)))) = takes ops"
proof -
  let ?k = "earned self (nsec (lq_last_throttle_check self)) (nsec now)"
  have t: "0 < lq_throttle self" "timespec_ok (lq_last_throttle_check self)" "0 \<le> lq_throttle_buckets self"
    "lq_throttle self < 2 ^ 31" "lq_throttle_buckets self \<le> lq_throttle self"
    using assms(1) by (simp_all add: throttle_ok_def)
  have "0 \<le> lq_throttle self * (t_end - nsec now)" using clock_ok_le [OF assms(6)] t(1) by simp
  with assms(7) have "b * NSEC_PER_SEC < 2 ^ 32 * NSEC_PER_SEC" by linarith
  then have b: "b < 2 ^ 32" by simp
  then have "to_gint b = b - 2 ^ 32" by (intro to_gint_wraps assms(5))
  moreover have "?k < 2 ^ 32" "?k \<noteq> 0" "0 \<le> ?k"
    using b assms(5) t earned_bounds(1) [OF t(1) assms(3)] by (auto simp: b_def)
  moreover from this have "to_gint ?k \<noteq> 0"
    using to_gint_wraps [of ?k] to_gint_id [of ?k] by (cases "?k < 2 ^ 31") auto
  ultimately have st: "snd (snd (check_throttle self n now))
      = self\<lparr>lq_throttle_buckets := b - 2 ^ 32, lq_last_throttle_check := now\<rparr>"
    using check_throttle_state [OF t(1,2) assms(2,3), of n] t(1) b by (simp add: b_def min_def)
  then have "fst (check_throttle self n now)"
    using b by (intro check_throttle_proceeds) simp
  moreover have "fst (throttle_run ops (self\<lparr>lq_throttle_buckets := b - 2 ^ 32, lq_last_throttle_check := now\<rparr>)) = takes ops"
    using negative_buckets_unlimited [of "self\<lparr>lq_throttle_buckets := b - 2 ^ 32, lq_last_throttle_check := now\<rparr>" "nsec now" t_end ops]
      t(1) assms(2,5,6,7) by (simp add: left_diff_distrib)
  ultimately show ?thesis by (simp add: st)
qed

text \<open>1000 messages per second, full buckets, and 2147483 idle seconds: two checks and three takes later
  all three messages were taken.\<close>

theorem throttle_overflow_disables_limit_witness:
  "fst (throttle_run [TakeMessage, CheckAt \<lparr>tv_sec = 2147485, tv_nsec = 0\<rparr>, TakeMessage,
                      CheckAt \<lparr>tv_sec = 2147486, tv_nsec = 0\<rparr>, TakeMessage]
          (snd (snd (check_throttle (example_queue 1000 1000) 1 \<lparr>tv_sec = 2147484, tv_nsec = 0\<rparr>)))) = 3"
  using throttle_overflow_disables_limit [of "example_queue 1000 1000" "\<lparr>tv_sec = 2147484, tv_nsec = 0\<rparr>"
      2147486000000000 "[TakeMessage, CheckAt \<lparr>tv_sec = 2147485, tv_nsec = 0\<rparr>, TakeMessage,
                      CheckAt \<lparr>tv_sec = 2147486, tv_nsec = 0\<rparr>, TakeMessage]" 1]
  by (simp add: example_queue_def throttle_ok_def timespec_ok_def nsec_def earned_def)

end
