(* ===== verification/Log_Queue_Fifo.thy ===== *)
theory Log_Queue_Fifo
  imports Log_Queue "HOL-Library.Multiset"
begin

text \<open>
  The memory queue \<^verbatim>\<open>lib/logqueue-fifo.c\<close>: one input queue per worker thread, the shared wait
  queue, the output queue of the consumer and the backlog of sent but unconfirmed messages.  Each
  function of the source is one transition: what it does under the queue lock is atomic, the input
  queue of a thread is private to the thread, and only the consumer changes the output queue and the
  backlog.  The one access that races with the consumer is the read of the output queue's counter in
  an input thread: the operations of input threads take the value that was read as an argument, and it
  may be any number.  Messages that leave the queue for good are recorded as effects.
\<close>

section \<open>State\<close>

record UnixTime =
  ut_sec :: int
  ut_usec :: guint32

text \<open>The remainder of the source has the sign of the dividend.\<close>

definition unix_time_diff_in_msec :: "UnixTime \<Rightarrow> UnixTime \<Rightarrow> int" where
  "unix_time_diff_in_msec a b =
     (let usec = int (unat (ut_usec a)) - int (unat (ut_usec b));
          diff_msec = to_gint64 (to_gint64 ((ut_sec a - ut_sec b) * 1000) + c_div usec 1000);
          diff_usec = usec - c_div usec 1000 * 1000
      in if diff_usec > -500 \<and> diff_usec < 500 then diff_msec
         else if diff_usec \<le> -500 then to_gint64 (diff_msec - 1)
         else to_gint64 (diff_msec + 1))"

text \<open>The part of a message the queue reads; \<open>msg_id\<close> stands for its address.\<close>

record LogMessage =
  msg_id :: nat
  msg_size :: int
  msg_recvd :: UnixTime
  msg_num_nodes :: byte

record LogPathOptions =
  po_ack_needed :: bool
  po_flow_control_requested :: bool

text \<open>The \<^verbatim>\<open>embedded\<close> bit of a node only says how its memory is released and is left out.\<close>

record LogMessageQueueNode =
  qn_msg :: LogMessage
  qn_ack_needed :: bool
  qn_flow_control_requested :: bool

definition log_msg_init_queue_node :: "LogMessage \<Rightarrow> LogPathOptions \<Rightarrow> LogMessageQueueNode" where
  "log_msg_init_queue_node msg path_options =
     \<lparr>qn_msg = msg, qn_ack_needed = po_ack_needed path_options,
      qn_flow_control_requested = po_flow_control_requested path_options\<rparr>"

text \<open>The \<^verbatim>\<open>cur_node\<close> of every message, which all queues share, and the global \<^verbatim>\<open>logmsg_queue_node_max\<close>.\<close>

record QueueNodes =
  qs_cur_node :: "nat \<Rightarrow> int"
  qs_logmsg_queue_node_max :: int

abbreviation LOGMSG_MAX_NODES :: int where
  "LOGMSG_MAX_NODES \<equiv> 32"

abbreviation LOGMSG_NODES_ASSERT :: int where
  "LOGMSG_NODES_ASSERT \<equiv> 65535"

definition log_msg_alloc_queue_node ::
  "QueueNodes \<Rightarrow> LogMessage \<Rightarrow> LogPathOptions \<Rightarrow> (LogMessageQueueNode \<times> QueueNodes) outcome" where
  "log_msg_alloc_queue_node nodes msg path_options =
     (let cur_node = qs_cur_node nodes (msg_id msg);
          nodes = nodes\<lparr>qs_cur_node := (qs_cur_node nodes)(msg_id msg := to_gint (cur_node + 1))\<rparr>;
          num_nodes = int (unat (msg_num_nodes msg));
          node_max = qs_logmsg_queue_node_max nodes
      in if cur_node < num_nodes then Inr (log_msg_init_queue_node msg path_options, nodes)
         else g_assert (cur_node \<le> LOGMSG_NODES_ASSERT)
                (Inr (log_msg_init_queue_node msg path_options,
                      if node_max < LOGMSG_MAX_NODES \<and> node_max \<le> num_nodes
                      then nodes\<lparr>qs_logmsg_queue_node_max := num_nodes + 1\<rparr> else nodes)))"

record InputQueue =
  iq_items :: "LogMessageQueueNode list"
  iq_cb_registered :: bool
  iq_len :: guint32
  iq_non_flow_controlled_len :: guint32
  iq_first_message_recvd :: UnixTime
  iq_total_size :: int

record OverflowQueue =
  oq_items :: "LogMessageQueueNode list"
  oq_len :: int
  oq_non_flow_controlled_len :: int

record LogQueueFifo =
  fq_super :: LogQueue
  fq_output_queue :: OverflowQueue
  fq_wait_queue :: OverflowQueue
  fq_backlog_queue :: OverflowQueue
  fq_log_fifo_size :: int
  fq_input_queues :: "InputQueue list"
  fq_nodes :: QueueNodes

datatype fifo_effect =
  Notify notify_effect
| MsgDropped LogMessageQueueNode
| MsgAcked LogMessageQueueNode
| MsgAborted LogMessageQueueNode

section \<open>Operations\<close>

text \<open>\<open>output_len\<close> is the value that was read from the counter of the output queue.\<close>

definition log_queue_fifo_get_length :: "LogQueueFifo \<Rightarrow> int \<Rightarrow> int" where
  "log_queue_fifo_get_length self output_len = to_gint (oq_len (fq_wait_queue self) + output_len)"

definition log_queue_fifo_get_non_flow_controlled_length :: "LogQueueFifo \<Rightarrow> int \<Rightarrow> int" where
  "log_queue_fifo_get_non_flow_controlled_length self output_len =
     to_gint (oq_non_flow_controlled_len (fq_wait_queue self) + output_len)"

definition log_queue_fifo_is_empty_racy :: "LogQueueFifo \<Rightarrow> int \<Rightarrow> bool" where
  "log_queue_fifo_is_empty_racy self output_len =
     (\<not> (log_queue_fifo_get_length self output_len > 0 \<or> list_ex iq_cb_registered (fq_input_queues self)))"

text \<open>Called when nothing else runs.\<close>

definition log_queue_fifo_keep_on_reload :: "LogQueueFifo \<Rightarrow> bool" where
  "log_queue_fifo_keep_on_reload self =
     (log_queue_fifo_get_length self (oq_len (fq_output_queue self)) > 0 \<or> oq_len (fq_backlog_queue self) > 0)"

text \<open>The loop of \<^verbatim>\<open>log_queue_fifo_drop_messages_from_input_queue\<close>: \<open>n\<close> more messages are to be
  dropped from the rest of the list; walking past its end would read the list head as a node.  The
  result is the kept and the dropped nodes.\<close>

fun drop_messages_loop ::
  "LogMessageQueueNode list \<Rightarrow> int \<Rightarrow> (LogMessageQueueNode list \<times> LogMessageQueueNode list) outcome" where
  "drop_messages_loop items n =
     (if n \<le> 0 then Inr (items, [])
      else case items of
             [] \<Rightarrow> Inl InvalidAccess
           | node # rest \<Rightarrow>
               if qn_flow_control_requested node
               then bindO (drop_messages_loop rest n) (\<lambda>(kept, dropped). Inr (node # kept, dropped))
               else bindO (drop_messages_loop rest (n - 1)) (\<lambda>(kept, dropped). Inr (kept, node # dropped)))"

declare drop_messages_loop.simps [simp del]

definition total_msg_size :: "LogMessageQueueNode list \<Rightarrow> int" where
  "total_msg_size nodes = sum_list (map (msg_size \<circ> qn_msg) nodes)"

definition log_queue_fifo_drop_messages_from_input_queue ::
  "LogQueueFifo \<Rightarrow> InputQueue \<Rightarrow> int \<Rightarrow> (fifo_effect list \<times> LogQueueFifo \<times> InputQueue) outcome" where
  "log_queue_fifo_drop_messages_from_input_queue self input_queue num_of_messages_to_drop =
     bindO (drop_messages_loop (iq_items input_queue) num_of_messages_to_drop) (\<lambda>(kept, dropped).
       Inr (map MsgDropped dropped,
            self\<lparr>fq_super := (log_queue_dropped_messages_inc ^^ length dropped) (fq_super self)\<rparr>,
            input_queue\<lparr>iq_items := kept, iq_len := iq_len input_queue - of_nat (length dropped),
                        iq_non_flow_controlled_len :=
                          iq_non_flow_controlled_len input_queue - of_nat (length dropped),
                        iq_total_size := iq_total_size input_queue - total_msg_size dropped\<rparr>))"

text \<open>\<^verbatim>\<open>input_queue_len\<close> is a \<^verbatim>\<open>guint16\<close> in the source.  \<open>None\<close>: nothing is to be dropped.\<close>

definition log_queue_fifo_calculate_num_of_messages_to_drop ::
  "LogQueueFifo \<Rightarrow> InputQueue \<Rightarrow> int \<Rightarrow> int option" where
  "log_queue_fifo_calculate_num_of_messages_to_drop self input_queue output_len =
     (let queue_len = log_queue_fifo_get_non_flow_controlled_length self output_len;
          input_queue_len = int (unat (ucast (iq_non_flow_controlled_len input_queue) :: guint16))
      in if to_gint (queue_len + input_queue_len) > fq_log_fifo_size self
         then Some (input_queue_len - max 0 (to_gint (fq_log_fifo_size self - queue_len)))
         else None)"

text \<open>The 32-bit unsigned lengths of the input queue are added to \<^verbatim>\<open>gint\<close> counters.\<close>

definition overflow_splice :: "OverflowQueue \<Rightarrow> InputQueue \<Rightarrow> OverflowQueue" where
  "overflow_splice q iq =
     \<lparr>oq_items = oq_items q @ iq_items iq, oq_len = to_gint (oq_len q + int (unat (iq_len iq))),
      oq_non_flow_controlled_len =
        to_gint (oq_non_flow_controlled_len q + int (unat (iq_non_flow_controlled_len iq)))\<rparr>"

definition log_queue_fifo_move_input_unlocked ::
  "LogQueueFifo \<Rightarrow> nat \<Rightarrow> int \<Rightarrow> (fifo_effect list \<times> LogQueueFifo) outcome" where
  "log_queue_fifo_move_input_unlocked self thread_index output_len =
     bindO (case log_queue_fifo_calculate_num_of_messages_to_drop self (fq_input_queues self ! thread_index) output_len of
              None \<Rightarrow> Inr ([], self, fq_input_queues self ! thread_index)
            | Some num \<Rightarrow>
                log_queue_fifo_drop_messages_from_input_queue self (fq_input_queues self ! thread_index) num)
       (\<lambda>(effs, self', iq).
         Inr (effs,
              self'\<lparr>fq_super :=
                      log_queue_memory_usage_add
                        (log_queue_queued_messages_add (fq_super self') (int (unat (iq_len iq))))
                        (iq_total_size iq),
                    fq_wait_queue := overflow_splice (fq_wait_queue self') iq,
                    fq_input_queues :=
                      (fq_input_queues self')[thread_index :=
                        iq\<lparr>iq_items := [], iq_len := 0, iq_non_flow_controlled_len := 0,
                           iq_total_size := 0\<rparr>]\<rparr>))"

definition fifo_push_notify :: "LogQueueFifo \<Rightarrow> fifo_effect list \<times> LogQueueFifo" where
  "fifo_push_notify self =
     (let (effs, super) = log_queue_push_notify (fq_super self)
      in (map Notify effs, self\<lparr>fq_super := super\<rparr>))"

definition log_queue_fifo_move_input ::
  "LogQueueFifo \<Rightarrow> nat \<Rightarrow> int \<Rightarrow> (fifo_effect list \<times> LogQueueFifo) outcome" where
  "log_queue_fifo_move_input self thread_index output_len =
     bindO (log_queue_fifo_move_input_unlocked self thread_index output_len) (\<lambda>(effs, self').
       let (notified, self'') = fifo_push_notify self' in Inr (effs @ notified, self''))"

text \<open>The worker unregisters the batch callback before it invokes it.\<close>

definition log_queue_fifo_input_batch_callback ::
  "LogQueueFifo \<Rightarrow> int \<Rightarrow> int \<Rightarrow> (fifo_effect list \<times> LogQueueFifo) outcome" where
  "log_queue_fifo_input_batch_callback self thread_index output_len =
     g_assert (thread_index \<ge> 0)
       (log_queue_fifo_move_input
          (self\<lparr>fq_input_queues := (fq_input_queues self)[nat thread_index :=
             (fq_input_queues self ! nat thread_index)\<lparr>iq_cb_registered := False\<rparr>]\<rparr>) (nat thread_index) output_len)"

definition message_has_to_be_dropped :: "LogQueueFifo \<Rightarrow> LogPathOptions \<Rightarrow> int \<Rightarrow> bool" where
  "message_has_to_be_dropped self path_options output_len =
     (\<not> po_flow_control_requested path_options \<and>
      log_queue_fifo_get_non_flow_controlled_length self output_len \<ge> fq_log_fifo_size self)"

definition non_flow_controlled :: "LogMessageQueueNode \<Rightarrow> int" where
  "non_flow_controlled node = (if \<not> qn_flow_control_requested node then 1 else 0)"

definition overflow_add_tail :: "OverflowQueue \<Rightarrow> LogMessageQueueNode \<Rightarrow> OverflowQueue" where
  "overflow_add_tail q node =
     q\<lparr>oq_items := oq_items q @ [node], oq_len := to_gint (oq_len q + 1),
       oq_non_flow_controlled_len := to_gint (oq_non_flow_controlled_len q + non_flow_controlled node)\<rparr>"

definition overflow_add_head :: "OverflowQueue \<Rightarrow> LogMessageQueueNode \<Rightarrow> OverflowQueue" where
  "overflow_add_head q node =
     q\<lparr>oq_items := node # oq_items q, oq_len := to_gint (oq_len q + 1),
       oq_non_flow_controlled_len := to_gint (oq_non_flow_controlled_len q + non_flow_controlled node)\<rparr>"

text \<open>\<open>node\<close> is taken out, \<open>rest\<close> remains.\<close>

definition overflow_del :: "OverflowQueue \<Rightarrow> LogMessageQueueNode \<Rightarrow> LogMessageQueueNode list \<Rightarrow> OverflowQueue" where
  "overflow_del q node rest =
     \<lparr>oq_items = rest, oq_len = to_gint (oq_len q - 1),
      oq_non_flow_controlled_len = to_gint (oq_non_flow_controlled_len q - non_flow_controlled node)\<rparr>"

text \<open>\<^verbatim>\<open>log_queue_fifo_push_tail\<close>; \<open>thread_index\<close> is what \<^verbatim>\<open>main_loop_worker_get_thread_index\<close>
  returns.\<close>

definition push_tail_fast ::
  "LogQueueFifo \<Rightarrow> LogMessage \<Rightarrow> LogPathOptions \<Rightarrow> nat \<Rightarrow> int \<Rightarrow> (fifo_effect list \<times> LogQueueFifo) outcome" where
  "push_tail_fast self msg path_options thread_index output_len =
     (let iq0 = fq_input_queues self ! thread_index;
          iq1 = (if \<not> iq_cb_registered iq0
                 then iq0\<lparr>iq_cb_registered := True, iq_first_message_recvd := msg_recvd msg\<rparr>
                 else iq0)
      in bindO (log_msg_alloc_queue_node (fq_nodes self) msg path_options) (\<lambda>(node, nodes).
           let qlen = iq_len iq1 + 1;
               iq2 = iq1\<lparr>iq_items := iq_items iq1 @ [node],
                         iq_total_size := iq_total_size iq1 + msg_size msg, iq_len := qlen,
                         iq_non_flow_controlled_len :=
                           iq_non_flow_controlled_len iq1
                           + (if \<not> po_flow_control_requested path_options then 1 else 0)\<rparr>;
               flush_input_queue =
                 (take_bit 7 qlen = 0 \<and> unix_time_diff_in_msec (msg_recvd msg) (iq_first_message_recvd iq2) > 100);
               self' = self\<lparr>fq_input_queues := (fq_input_queues self)[thread_index := iq2], fq_nodes := nodes\<rparr>
           in if flush_input_queue then log_queue_fifo_move_input self' thread_index output_len
              else Inr ([], self')))"

text \<open>The effect of a drop names the message and its path options as a node.\<close>

definition push_tail_slow ::
  "LogQueueFifo \<Rightarrow> LogMessage \<Rightarrow> LogPathOptions \<Rightarrow> int \<Rightarrow> (fifo_effect list \<times> LogQueueFifo) outcome" where
  "push_tail_slow self msg path_options output_len =
     (if message_has_to_be_dropped self path_options output_len
      then Inr ([MsgDropped (log_msg_init_queue_node msg path_options)],
                self\<lparr>fq_super := log_queue_dropped_messages_inc (fq_super self)\<rparr>)
      else bindO (log_msg_alloc_queue_node (fq_nodes self) msg path_options) (\<lambda>(node, nodes).
             let (notified, self') =
                   fifo_push_notify (self\<lparr>fq_wait_queue := overflow_add_tail (fq_wait_queue self) node,
                                          fq_nodes := nodes\<rparr>)
             in Inr (notified,
                  self'\<lparr>fq_super :=
                    log_queue_memory_usage_add (log_queue_queued_messages_inc (fq_super self')) (msg_size msg)\<rparr>)))"

definition log_queue_fifo_push_tail ::
  "LogQueueFifo \<Rightarrow> LogMessage \<Rightarrow> LogPathOptions \<Rightarrow> int \<Rightarrow> int \<Rightarrow> (fifo_effect list \<times> LogQueueFifo) outcome" where
  "log_queue_fifo_push_tail self msg path_options thread_index output_len =
     (let thread_index = (if thread_index \<ge> int (length (fq_input_queues self)) then -1 else thread_index)
      in if thread_index \<ge> 0 then push_tail_fast self msg path_options (nat thread_index) output_len
         else push_tail_slow self msg path_options output_len)"

definition move_items_from_wait_queue_to_output_queue :: "LogQueueFifo \<Rightarrow> LogQueueFifo" where
  "move_items_from_wait_queue_to_output_queue self =
     self\<lparr>fq_output_queue :=
            \<lparr>oq_items = oq_items (fq_output_queue self) @ oq_items (fq_wait_queue self),
             oq_len = oq_len (fq_wait_queue self),
             oq_non_flow_controlled_len = oq_non_flow_controlled_len (fq_wait_queue self)\<rparr>,
          fq_wait_queue := \<lparr>oq_items = [], oq_len = 0, oq_non_flow_controlled_len = 0\<rparr>\<rparr>"

definition refill_output :: "LogQueueFifo \<Rightarrow> LogQueueFifo" where
  "refill_output self =
     (if oq_len (fq_output_queue self) = 0 then move_items_from_wait_queue_to_output_queue self else self)"

definition log_queue_fifo_peek_head :: "LogQueueFifo \<Rightarrow> (LogMessage option \<times> LogQueueFifo) outcome" where
  "log_queue_fifo_peek_head self =
     (let self' = refill_output self in
      if oq_len (fq_output_queue self') = 0 then Inr (None, self')
      else case oq_items (fq_output_queue self') of
             [] \<Rightarrow> Inl InvalidAccess
           | node # _ \<Rightarrow> Inr (Some (qn_msg node), self'))"

definition log_queue_fifo_pop_head ::
  "LogQueueFifo \<Rightarrow> (LogMessageQueueNode option \<times> LogQueueFifo) outcome" where
  "log_queue_fifo_pop_head self =
     (let self' = refill_output self; out = fq_output_queue self' in
      if oq_len out > 0
      then case oq_items out of
             [] \<Rightarrow> Inl InvalidAccess
           | node # rest \<Rightarrow>
               Inr (Some node,
                    self'\<lparr>fq_output_queue := overflow_del out node rest,
                          fq_super := log_queue_queued_messages_dec (fq_super self'),
                          fq_backlog_queue := overflow_add_tail (fq_backlog_queue self') node\<rparr>)
      else Inr (None, self'))"

text \<open>The loop of \<^verbatim>\<open>log_queue_fifo_ack_backlog\<close> with \<open>k\<close> iterations left.\<close>

fun ack_backlog_loop :: "nat \<Rightarrow> LogQueueFifo \<Rightarrow> (fifo_effect list \<times> LogQueueFifo) outcome" where
  "ack_backlog_loop 0 self = Inr ([], self)"
| "ack_backlog_loop (Suc k) self =
     (if oq_len (fq_backlog_queue self) > 0
      then case oq_items (fq_backlog_queue self) of
             [] \<Rightarrow> Inl InvalidAccess
           | node # rest \<Rightarrow>
               bindO (ack_backlog_loop k
                 (self\<lparr>fq_backlog_queue := overflow_del (fq_backlog_queue self) node rest,
                       fq_super := log_queue_memory_usage_sub (fq_super self) (msg_size (qn_msg node))\<rparr>))
                 (\<lambda>(effs, self'). Inr (MsgAcked node # effs, self'))
      else Inr ([], self))"

definition log_queue_fifo_ack_backlog :: "LogQueueFifo \<Rightarrow> guint32 \<Rightarrow> (fifo_effect list \<times> LogQueueFifo) outcome" where
  "log_queue_fifo_ack_backlog self rewind_count = ack_backlog_loop (unat rewind_count) self"

text \<open>\<^verbatim>\<open>n >= self->backlog_queue.len\<close> compares unsigned integers.\<close>

definition log_queue_fifo_peek_backlog :: "LogQueueFifo \<Rightarrow> guint32 \<Rightarrow> LogMessage option outcome" where
  "log_queue_fifo_peek_backlog self n =
     (if n \<ge> of_int (oq_len (fq_backlog_queue self)) then Inr None
      else if unat n < length (oq_items (fq_backlog_queue self))
           then Inr (Some (qn_msg (oq_items (fq_backlog_queue self) ! unat n)))
           else Inl AssertionFailed)"

definition log_queue_fifo_rewind_backlog_all :: "LogQueueFifo \<Rightarrow> LogQueueFifo" where
  "log_queue_fifo_rewind_backlog_all self =
     self\<lparr>fq_output_queue :=
            \<lparr>oq_items = oq_items (fq_output_queue self) @ oq_items (fq_backlog_queue self),
             oq_len = to_gint (oq_len (fq_output_queue self) + oq_len (fq_backlog_queue self)),
             oq_non_flow_controlled_len =
               to_gint (oq_non_flow_controlled_len (fq_output_queue self)
                        + oq_non_flow_controlled_len (fq_backlog_queue self))\<rparr>,
          fq_super := log_queue_queued_messages_add (fq_super self) (oq_len (fq_backlog_queue self)),
          fq_backlog_queue := \<lparr>oq_items = [], oq_len = 0, oq_non_flow_controlled_len = 0\<rparr>\<rparr>"

fun rewind_backlog_loop :: "nat \<Rightarrow> LogQueueFifo \<Rightarrow> LogQueueFifo outcome" where
  "rewind_backlog_loop 0 self = Inr self"
| "rewind_backlog_loop (Suc k) self =
     (let backlog = fq_backlog_queue self in
      if oq_items backlog = [] then Inl InvalidAccess
      else let node = last (oq_items backlog)
           in rewind_backlog_loop k
                (self\<lparr>fq_backlog_queue := overflow_del backlog node (butlast (oq_items backlog)),
                      fq_output_queue := overflow_add_head (fq_output_queue self) node,
                      fq_super := log_queue_queued_messages_inc (fq_super self)\<rparr>))"

definition log_queue_fifo_rewind_backlog :: "LogQueueFifo \<Rightarrow> guint32 \<Rightarrow> LogQueueFifo outcome" where
  "log_queue_fifo_rewind_backlog self rewind_count =
     rewind_backlog_loop
       (unat (if rewind_count > of_int (oq_len (fq_backlog_queue self))
              then of_int (oq_len (fq_backlog_queue self)) else rewind_count)) self"

definition log_queue_fifo_free_queue :: "LogMessageQueueNode list \<Rightarrow> fifo_effect list" where
  "log_queue_fifo_free_queue q = map MsgAborted q"

definition log_queue_fifo_free :: "LogQueueFifo \<Rightarrow> fifo_effect list outcome" where
  "log_queue_fifo_free self =
     g_assert (\<not> list_ex iq_cb_registered (fq_input_queues self))
       (Inr (concat (map (log_queue_fifo_free_queue \<circ> iq_items) (fq_input_queues self)) @
             log_queue_fifo_free_queue (oq_items (fq_wait_queue self)) @
             log_queue_fifo_free_queue (oq_items (fq_output_queue self)) @
             log_queue_fifo_free_queue (oq_items (fq_backlog_queue self))))"

definition log_queue_fifo_new :: "int \<Rightarrow> nat \<Rightarrow> LogQueue \<Rightarrow> QueueNodes \<Rightarrow> LogQueueFifo" where
  "log_queue_fifo_new log_fifo_size max_threads super nodes =
     (let empty = \<lparr>oq_items = [], oq_len = 0, oq_non_flow_controlled_len = 0\<rparr> in
      \<lparr>fq_super = super, fq_output_queue = empty, fq_wait_queue = empty, fq_backlog_queue = empty,
       fq_log_fifo_size = log_fifo_size,
       fq_input_queues =
         replicate max_threads
           \<lparr>iq_items = [], iq_cb_registered = False, iq_len = 0, iq_non_flow_controlled_len = 0,
            iq_first_message_recvd = \<lparr>ut_sec = 0, ut_usec = 0\<rparr>, iq_total_size = 0\<rparr>,
       fq_nodes = nodes\<rparr>)"

section \<open>Runs and invariant\<close>

text \<open>The operations of an input thread come with the value it reads from the counter of the output queue.\<close>

datatype fifo_op =
  PushTail LogMessage LogPathOptions int int
| BatchDone nat int
| PopHead
| PeekHead
| AckBacklog guint32
| RewindBacklog guint32
| RewindBacklogAll

definition fifo_step :: "fifo_op \<Rightarrow> LogQueueFifo \<Rightarrow> (fifo_effect list \<times> LogQueueFifo) outcome" where
  "fifo_step ins self =
     (case ins of
        PushTail msg po i output_len \<Rightarrow> log_queue_fifo_push_tail self msg po i output_len
      | BatchDone i output_len \<Rightarrow> log_queue_fifo_input_batch_callback self (int i) output_len
      | PopHead \<Rightarrow> bindO (log_queue_fifo_pop_head self) (\<lambda>(_, self'). Inr ([], self'))
      | PeekHead \<Rightarrow> bindO (log_queue_fifo_peek_head self) (\<lambda>(_, self'). Inr ([], self'))
      | AckBacklog n \<Rightarrow> log_queue_fifo_ack_backlog self n
      | RewindBacklog n \<Rightarrow> bindO (log_queue_fifo_rewind_backlog self n) (\<lambda>self'. Inr ([], self'))
      | RewindBacklogAll \<Rightarrow> Inr ([], log_queue_fifo_rewind_backlog_all self))"

text \<open>Every message the queue is responsible for, in the input queues, in the queue as the consumer sees it
  and in the backlog.\<close>

definition queue_items :: "LogQueueFifo \<Rightarrow> LogMessageQueueNode list" where
  "queue_items self = oq_items (fq_output_queue self) @ oq_items (fq_wait_queue self)"

definition all_items :: "LogQueueFifo \<Rightarrow> LogMessageQueueNode multiset" where
  "all_items self =
     mset (concat (map iq_items (fq_input_queues self))) + mset (queue_items self)
     + mset (oq_items (fq_backlog_queue self))"

text \<open>A push finds fewer than \<open>2 ^ 31 - 1\<close> messages in the queue and a message that was put into at most
  65535 queues before; a batch callback runs in a worker thread that has an input queue.\<close>

definition fifo_enabled :: "fifo_op \<Rightarrow> LogQueueFifo \<Rightarrow> bool" where
  "fifo_enabled ins self =
     (case ins of
        PushTail msg po i output_len \<Rightarrow>
          size (all_items self) + 1 < 2 ^ 31 \<and> qs_cur_node (fq_nodes self) (msg_id msg) \<le> LOGMSG_NODES_ASSERT
      | BatchDone i output_len \<Rightarrow> i < length (fq_input_queues self)
      | _ \<Rightarrow> True)"

fun fifo_run :: "fifo_op list \<Rightarrow> LogQueueFifo \<Rightarrow> (fifo_effect list \<times> LogQueueFifo) outcome" where
  "fifo_run [] self = Inr ([], self)"
| "fifo_run (ins # rest) self =
     bindO (fifo_step ins self) (\<lambda>(effs, self').
       bindO (fifo_run rest self') (\<lambda>(effs', self''). Inr (effs @ effs', self'')))"

fun fifo_admissible :: "fifo_op list \<Rightarrow> LogQueueFifo \<Rightarrow> bool" where
  "fifo_admissible [] self = True"
| "fifo_admissible (ins # rest) self =
     (fifo_enabled ins self \<and>
      (case fifo_step ins self of Inl _ \<Rightarrow> True | Inr (_, self') \<Rightarrow> fifo_admissible rest self'))"

definition nfc :: "LogMessageQueueNode list \<Rightarrow> nat" where
  "nfc nodes = length (filter (\<lambda>node. \<not> qn_flow_control_requested node) nodes)"

definition oq_ok :: "OverflowQueue \<Rightarrow> bool" where
  "oq_ok q \<longleftrightarrow> oq_len q = int (length (oq_items q)) \<and> oq_non_flow_controlled_len q = int (nfc (oq_items q))"

definition iq_ok :: "InputQueue \<Rightarrow> bool" where
  "iq_ok q \<longleftrightarrow>
     unat (iq_len q) = length (iq_items q) \<and> unat (iq_non_flow_controlled_len q) = nfc (iq_items q) \<and>
     iq_total_size q = total_msg_size (iq_items q)"

text \<open>No message waits in an input queue whose worker would not move it on.\<close>

definition inputs_registered :: "InputQueue list \<Rightarrow> bool" where
  "inputs_registered qs \<longleftrightarrow> (\<forall>q \<in> set qs. iq_items q \<noteq> [] \<longrightarrow> iq_cb_registered q)"

text \<open>Fewer than \<open>2 ^ 31\<close> messages are in the queue, so no counter wraps.\<close>

definition fifo_inv :: "LogQueueFifo \<Rightarrow> bool" where
  "fifo_inv self \<longleftrightarrow>
     size (all_items self) < 2 ^ 31 \<and>
     oq_ok (fq_output_queue self) \<and> oq_ok (fq_wait_queue self) \<and> oq_ok (fq_backlog_queue self) \<and>
     (\<forall>q \<in> set (fq_input_queues self). iq_ok q) \<and>
     owned_queued_messages (lq_metrics (fq_super self)) = int (length (queue_items self)) \<and>
     owned_memory_usage (lq_metrics (fq_super self))
       = total_msg_size (queue_items self) + total_msg_size (oq_items (fq_backlog_queue self))"

fun gone :: "fifo_effect list \<Rightarrow> LogMessageQueueNode list" where
  "gone [] = []"
| "gone (Notify e # rest) = gone rest"
| "gone (MsgDropped node # rest) = node # gone rest"
| "gone (MsgAcked node # rest) = node # gone rest"
| "gone (MsgAborted node # rest) = node # gone rest"

fun pushed :: "fifo_op list \<Rightarrow> LogMessageQueueNode list" where
  "pushed [] = []"
| "pushed (PushTail msg po i output_len # rest) = log_msg_init_queue_node msg po # pushed rest"
| "pushed (_ # rest) = pushed rest"

section \<open>Lemmas\<close>

lemma nfc_append [simp]: "nfc (xs @ ys) = nfc xs + nfc ys"
  by (simp add: nfc_def)

lemma nfc_Cons [simp]: "nfc (x # xs) = (if qn_flow_control_requested x then nfc xs else Suc (nfc xs))"
  by (simp add: nfc_def)

lemma nfc_Nil [simp]: "nfc [] = 0"
  by (simp add: nfc_def)

lemma nfc_le_length: "nfc xs \<le> length xs"
  by (simp add: nfc_def)

lemma total_msg_size_simps [simp]:
  "total_msg_size [] = 0" "total_msg_size (x # xs) = msg_size (qn_msg x) + total_msg_size xs"
  "total_msg_size (xs @ ys) = total_msg_size xs + total_msg_size ys"
  by (simp_all add: total_msg_size_def)

lemma gone_append [simp]: "gone (xs @ ys) = gone xs @ gone ys"
  by (induction xs rule: gone.induct) auto

lemma gone_Notify [simp]: "gone (map Notify es) = []"
  by (induction es) simp_all

lemma gone_map [simp]: "gone (map MsgDropped ns) = ns" "gone (map MsgAborted ns) = ns"
  by (induction ns) simp_all

lemma counters [simp]:
  "lq_metrics (log_queue_memory_usage_add q v) = (lq_metrics q)\<lparr>shared_memory_usage := shared_memory_usage (lq_metrics q) + v,
     owned_memory_usage := owned_memory_usage (lq_metrics q) + v\<rparr>"
  "lq_metrics (log_queue_memory_usage_sub q v) = (lq_metrics q)\<lparr>shared_memory_usage := shared_memory_usage (lq_metrics q) - v,
     owned_memory_usage := owned_memory_usage (lq_metrics q) - v\<rparr>"
  "lq_metrics (log_queue_queued_messages_add q v) = (lq_metrics q)\<lparr>shared_queued_messages := shared_queued_messages (lq_metrics q) + v,
     owned_queued_messages := owned_queued_messages (lq_metrics q) + v\<rparr>"
  "lq_metrics (log_queue_queued_messages_inc q) = (lq_metrics q)\<lparr>shared_queued_messages := shared_queued_messages (lq_metrics q) + 1,
     owned_queued_messages := owned_queued_messages (lq_metrics q) + 1\<rparr>"
  "lq_metrics (log_queue_queued_messages_dec q) = (lq_metrics q)\<lparr>shared_queued_messages := shared_queued_messages (lq_metrics q) - 1,
     owned_queued_messages := owned_queued_messages (lq_metrics q) - 1\<rparr>"
  by (simp_all add: log_queue_memory_usage_add_def log_queue_memory_usage_sub_def log_queue_queued_messages_add_def
      log_queue_queued_messages_inc_def log_queue_queued_messages_dec_def)

lemma dropped_counter [simp]:
  "owned_queued_messages (lq_metrics ((log_queue_dropped_messages_inc ^^ n) q)) = owned_queued_messages (lq_metrics q)"
  "owned_memory_usage (lq_metrics ((log_queue_dropped_messages_inc ^^ n) q)) = owned_memory_usage (lq_metrics q)"
  by (induction n) (simp_all add: log_queue_dropped_messages_inc_def)

lemma push_notify_metrics [simp]: "lq_metrics (snd (log_queue_push_notify q)) = lq_metrics q"
  by (simp add: log_queue_push_notify_def split: option.splits)

lemma drop_messages_loop:
  assumes "n \<le> int (nfc items)"
  shows "\<exists>kept dropped. drop_messages_loop items n = Inr (kept, dropped) \<and>
           mset kept + mset dropped = mset items \<and> int (length dropped) = max 0 n \<and>
           filter qn_flow_control_requested dropped = [] \<and>
           filter qn_flow_control_requested kept = filter qn_flow_control_requested items \<and>
           nfc items = nfc kept + length dropped \<and> length items = length kept + length dropped \<and>
           total_msg_size items = total_msg_size kept + total_msg_size dropped"
  using assms
proof (induction items arbitrary: n)
  case Nil
  then show ?case by (simp add: drop_messages_loop.simps)
next
  case (Cons node items)
  show ?case
  proof (cases "n \<le> 0")
    case True
    then show ?thesis by (simp add: drop_messages_loop.simps)
  next
    case False
    show ?thesis
    proof (cases "qn_flow_control_requested node")
      case True
      then have "n \<le> int (nfc items)" using Cons.prems by simp
      from Cons.IH [OF this] True False show ?thesis
        by (subst drop_messages_loop.simps) auto
    next
      case nf: False
      then have "n - 1 \<le> int (nfc items)" using Cons.prems by simp
      from Cons.IH [OF this] nf False Cons.prems(1) show ?thesis
        by (subst drop_messages_loop.simps) auto
    qed
  qed
qed

lemma size_all_items:
  "size (all_items self) = length (concat (map iq_items (fq_input_queues self))) + length (oq_items (fq_output_queue self))
     + length (oq_items (fq_wait_queue self)) + length (oq_items (fq_backlog_queue self))"
  by (simp add: all_items_def queue_items_def)

lemma fifo_inv_lengths:
  assumes "fifo_inv self"
  shows "length (concat (map iq_items (fq_input_queues self))) + length (oq_items (fq_output_queue self))
     + length (oq_items (fq_wait_queue self)) + length (oq_items (fq_backlog_queue self)) < 2 ^ 31"
  using assms by (simp add: fifo_inv_def size_all_items)

lemma length_input_le:
  assumes "i < length qs"
  shows "length (iq_items (qs ! i)) \<le> length (concat (map iq_items qs))"
  using assms
proof (induction qs arbitrary: i)
  case (Cons q qs)
  then show ?case by (cases i) (auto intro: trans_le_add2)
qed simp

text \<open>The counters of a queue with fewer than \<open>2 ^ 31\<close> messages do not wrap.\<close>

lemma overflow_items [simp]:
  "oq_items (overflow_add_tail q node) = oq_items q @ [node]" "oq_items (overflow_add_head q node) = node # oq_items q"
  "oq_items (overflow_del q node rest) = rest" "oq_items (overflow_splice q iq) = oq_items q @ iq_items iq"
  by (simp_all add: overflow_add_tail_def overflow_add_head_def overflow_del_def overflow_splice_def)

lemma oq_ok_gint:
  assumes "length xs < 2 ^ 31"
  shows "to_gint (int (length xs)) = int (length xs)" and "to_gint (int (nfc xs)) = int (nfc xs)"
  using assms nfc_le_length [of xs] by (auto intro!: to_gint_id)

lemma oq_okI:
  assumes "length xs < 2 ^ 31" and "l = int (length xs)" and "n = int (nfc xs)"
  shows "oq_ok \<lparr>oq_items = xs, oq_len = to_gint l, oq_non_flow_controlled_len = to_gint n\<rparr>"
  using assms oq_ok_gint [of xs] by (simp add: oq_ok_def)

lemma overflow_add_ok:
  assumes "oq_ok q" and "length (oq_items q) + 1 < 2 ^ 31"
  shows "oq_ok (overflow_add_tail q node)" and "oq_ok (overflow_add_head q node)"
proof -
  have "oq_ok \<lparr>oq_items = oq_items q @ [node], oq_len = to_gint (oq_len q + 1),
      oq_non_flow_controlled_len = to_gint (oq_non_flow_controlled_len q + non_flow_controlled node)\<rparr>"
    using assms by (intro oq_okI) (simp_all add: oq_ok_def non_flow_controlled_def)
  then show "oq_ok (overflow_add_tail q node)" by (simp add: overflow_add_tail_def oq_ok_def)
  have "oq_ok \<lparr>oq_items = node # oq_items q, oq_len = to_gint (oq_len q + 1),
      oq_non_flow_controlled_len = to_gint (oq_non_flow_controlled_len q + non_flow_controlled node)\<rparr>"
    using assms by (intro oq_okI) (simp_all add: oq_ok_def non_flow_controlled_def)
  then show "oq_ok (overflow_add_head q node)" by (simp add: overflow_add_head_def oq_ok_def)
qed

lemma overflow_del_ok:
  assumes "oq_ok q" and "length (oq_items q) < 2 ^ 31" and "mset (oq_items q) = add_mset node (mset rest)"
  shows "oq_ok (overflow_del q node rest)"
proof -
  have n: "nfc xs = size (filter_mset (\<lambda>x. \<not> qn_flow_control_requested x) (mset xs))" for xs
    by (simp add: nfc_def flip: mset_filter)
  have "length (oq_items q) = Suc (length rest)" using assms(3) by (metis size_add_mset size_mset)
  moreover have "nfc (oq_items q) = nfc rest + (if qn_flow_control_requested node then 0 else 1)"
    unfolding n assms(3) by simp
  ultimately show ?thesis
    unfolding overflow_del_def using assms(1,2)
    by (intro oq_okI) (simp_all add: oq_ok_def non_flow_controlled_def)
qed

lemma overflow_splice_ok:
  assumes "oq_ok q" and "unat (iq_len iq) = length (iq_items iq)"
    and "unat (iq_non_flow_controlled_len iq) = nfc (iq_items iq)"
    and "length (oq_items q) + length (iq_items iq) < 2 ^ 31"
  shows "oq_ok (overflow_splice q iq)"
  unfolding overflow_splice_def assms(2,3) using assms(1,4) by (intro oq_okI) (simp_all add: oq_ok_def)

lemma alloc_queue_node:
  assumes "qs_cur_node nodes (msg_id msg) \<le> LOGMSG_NODES_ASSERT"
  shows "\<exists>nodes'. log_msg_alloc_queue_node nodes msg po = Inr (log_msg_init_queue_node msg po, nodes')"
  using assms by (simp add: log_msg_alloc_queue_node_def Let_def)

lemma calculate_bounds:
  assumes "iq_ok iq" and "log_queue_fifo_calculate_num_of_messages_to_drop self iq r = Some num"
  shows "num \<le> int (nfc (iq_items iq))"
proof -
  have "unat (ucast (iq_non_flow_controlled_len iq) :: guint16) = take_bit 16 (nfc (iq_items iq))"
    using assms(1) by (simp add: iq_ok_def unsigned_ucast_eq)
  then have "int (unat (ucast (iq_non_flow_controlled_len iq) :: guint16)) \<le> int (nfc (iq_items iq))"
    by (simp only: of_nat_le_iff take_bit_nat_less_eq_self)
  then show ?thesis
    using assms(2)
    by (auto simp: log_queue_fifo_calculate_num_of_messages_to_drop_def Let_def split: if_splits)
qed

lemma mset_concat_update:
  assumes "i < length qs"
  shows "mset (concat (map iq_items (qs[i := q]))) + mset (iq_items (qs ! i))
           = mset (concat (map iq_items qs)) + mset (iq_items q)"
  using assms
proof (induction qs arbitrary: i)
  case (Cons p qs)
  then show ?case by (cases i) (simp_all add: union_assoc add.commute add.left_commute)
qed simp

lemma iq_ok_update:
  assumes "\<forall>q \<in> set qs. iq_ok q" and "iq_ok q"
  shows "\<forall>q \<in> set (qs[i := q]). iq_ok q"
proof
  fix p
  assume "p \<in> set (qs[i := q])"
  with set_update_subset_insert [of qs i q] have "p \<in> insert q (set qs)" by (rule subsetD)
  with assms show "iq_ok p" by blast
qed

text \<open>What a move of an input queue does: \<open>kept\<close> goes to the wait queue, \<open>dropped\<close> is dropped.\<close>

lemma move_input_unlocked:
  assumes inv: "fifo_inv self" and i: "i < length (fq_input_queues self)"
  defines "iq \<equiv> fq_input_queues self ! i"
  shows "\<exists>kept dropped self'. log_queue_fifo_move_input_unlocked self i r = Inr (map MsgDropped dropped, self') \<and>
           fifo_inv self' \<and> queue_items self' = queue_items self @ kept \<and>
           fq_backlog_queue self' = fq_backlog_queue self \<and>
           mset kept + mset dropped = mset (iq_items iq) \<and>
           all_items self' + mset dropped = all_items self \<and>
           filter qn_flow_control_requested dropped = [] \<and>
           int (length dropped) = max 0 (case log_queue_fifo_calculate_num_of_messages_to_drop self iq r of
                                     None \<Rightarrow> 0 | Some num \<Rightarrow> num) \<and>
           nfc (iq_items iq) = nfc kept + length dropped \<and>
           fq_log_fifo_size self' = fq_log_fifo_size self \<and>
           fq_input_queues self' = (fq_input_queues self)[i := iq\<lparr>iq_items := [], iq_len := 0,
             iq_non_flow_controlled_len := 0, iq_total_size := 0\<rparr>]"
proof -
  have ok: "iq_ok iq" using inv i by (auto simp: fifo_inv_def iq_def)
  let ?num = "case log_queue_fifo_calculate_num_of_messages_to_drop self iq r of None \<Rightarrow> 0 | Some num \<Rightarrow> num"
  have "?num \<le> int (nfc (iq_items iq))"
    using calculate_bounds [OF ok] by (auto split: option.splits)
  from drop_messages_loop [OF this] obtain kept dropped where loop:
    "drop_messages_loop (iq_items iq) ?num = Inr (kept, dropped)"
    "mset kept + mset dropped = mset (iq_items iq)" "int (length dropped) = max 0 ?num"
    "filter qn_flow_control_requested dropped = []"
    "nfc (iq_items iq) = nfc kept + length dropped" "length (iq_items iq) = length kept + length dropped"
    "total_msg_size (iq_items iq) = total_msg_size kept + total_msg_size dropped"
    by (elim exE conjE)
  let ?super = "(log_queue_dropped_messages_inc ^^ length dropped) (fq_super self)"
  let ?iq = "iq\<lparr>iq_items := kept, iq_len := iq_len iq - of_nat (length dropped),
                iq_non_flow_controlled_len := iq_non_flow_controlled_len iq - of_nat (length dropped),
                iq_total_size := iq_total_size iq - total_msg_size dropped\<rparr>"
  have small: "length dropped < 2 ^ 32"
    using loop(6) ok unsigned_less [of "iq_len iq", where 'a = nat] by (simp add: iq_ok_def)
  then have u: "unat (of_nat (length dropped) :: guint32) = length dropped" by (simp add: unat_of_nat)
  have lens: "unat (iq_len ?iq) = length kept" "unat (iq_non_flow_controlled_len ?iq) = nfc kept"
    using ok loop(5,6) by (simp_all add: iq_ok_def unat_minus_le u)
  have calc: "(case log_queue_fifo_calculate_num_of_messages_to_drop self iq r of
        None \<Rightarrow> Inr ([], self, iq)
      | Some num \<Rightarrow> log_queue_fifo_drop_messages_from_input_queue self iq num)
      = Inr (map MsgDropped dropped, self\<lparr>fq_super := ?super\<rparr>, ?iq)"
  proof (cases "log_queue_fifo_calculate_num_of_messages_to_drop self iq r")
    case None
    then have "dropped = []" "kept = iq_items iq" using loop(1,3) by (simp_all add: drop_messages_loop.simps)
    then show ?thesis using None by simp
  next
    case (Some num)
    then show ?thesis using loop(1) by (simp add: log_queue_fifo_drop_messages_from_input_queue_def)
  qed
  have size: "iq_total_size ?iq = total_msg_size kept"
    using ok loop(7) by (simp add: iq_ok_def)
  let ?done = "iq\<lparr>iq_items := [], iq_len := 0, iq_non_flow_controlled_len := 0, iq_total_size := 0\<rparr>"
  let ?self' = "self\<lparr>fq_super := log_queue_memory_usage_add
                        (log_queue_queued_messages_add ?super (int (length kept))) (total_msg_size kept),
      fq_wait_queue := overflow_splice (fq_wait_queue self) ?iq,
      fq_input_queues := (fq_input_queues self)[i := ?done]\<rparr>"
  have res: "log_queue_fifo_move_input_unlocked self i r = Inr (map MsgDropped dropped, ?self')"
    unfolding log_queue_fifo_move_input_unlocked_def iq_def [symmetric] calc bindO_Inr prod.case lens size
    by simp
  have "iq_ok ?done" by (simp add: iq_ok_def)
  then have iqs: "\<forall>q \<in> set ((fq_input_queues self)[i := ?done]). iq_ok q"
    using inv iq_ok_update [of "fq_input_queues self"] by (simp add: fifo_inv_def)
  have q: "queue_items ?self' = queue_items self @ kept" by (simp add: queue_items_def)
  have "mset (concat (map iq_items ((fq_input_queues self)[i := ?done]))) + mset (iq_items iq)
      = mset (concat (map iq_items (fq_input_queues self)))"
    using mset_concat_update [OF i, of ?done] by (simp add: iq_def)
  then have all: "all_items ?self' + mset dropped = all_items self"
    unfolding all_items_def q by (simp add: loop(2) [symmetric] ac_simps)
  then have "size (all_items ?self') \<le> size (all_items self)" by (metis le_add1 size_union)
  moreover have "length (oq_items (fq_wait_queue self)) + length kept < 2 ^ 31"
    using fifo_inv_lengths [OF inv] length_input_le [OF i] loop(6) by (simp add: iq_def)
  then have "oq_ok (overflow_splice (fq_wait_queue self) ?iq)"
    using inv lens by (intro overflow_splice_ok) (simp_all add: fifo_inv_def)
  ultimately have inv': "fifo_inv ?self'"
    using inv iqs unfolding fifo_inv_def q by simp
  show ?thesis
    using res inv' q all loop(2-5)
    by (intro exI [of _ kept] exI [of _ dropped] exI [of _ ?self'] conjI) simp_all
qed

lemma fifo_push_notify:
  assumes "fifo_push_notify self = (effs, self')"
  shows "gone effs = []" and "fifo_inv self' = fifo_inv self" and "queue_items self' = queue_items self"
    and "all_items self' = all_items self" and "fq_backlog_queue self' = fq_backlog_queue self"
    and "lq_metrics (fq_super self') = lq_metrics (fq_super self)"
    and "self' = self\<lparr>fq_super := fq_super self'\<rparr>"
proof -
  obtain es super where ls: "log_queue_push_notify (fq_super self) = (es, super)" by fastforce
  then have "lq_metrics super = lq_metrics (fq_super self)" using push_notify_metrics by (metis snd_conv)
  moreover have "effs = map Notify es" "self' = self\<lparr>fq_super := super\<rparr>"
    using assms ls by (simp_all add: fifo_push_notify_def)
  ultimately show "gone effs = []" and "fifo_inv self' = fifo_inv self"
    and "queue_items self' = queue_items self" and "all_items self' = all_items self"
    and "fq_backlog_queue self' = fq_backlog_queue self"
    and "lq_metrics (fq_super self') = lq_metrics (fq_super self)"
    and "self' = self\<lparr>fq_super := fq_super self'\<rparr>"
    by (simp_all add: fifo_inv_def queue_items_def all_items_def)
qed

text \<open>The common conclusion on a transition: the invariant holds again and the messages are the old
  ones with \<open>new\<close> added and the ones that left removed; only messages without flow control are
  dropped, and non-empty input queues stay registered with their worker.\<close>

definition step_ok ::
  "LogQueueFifo \<Rightarrow> LogMessageQueueNode multiset \<Rightarrow> (fifo_effect list \<times> LogQueueFifo) outcome \<Rightarrow> bool" where
  "step_ok self new res \<longleftrightarrow>
     (\<exists>effs self'. res = Inr (effs, self') \<and> fifo_inv self' \<and>
        all_items self' + mset (gone effs) = all_items self + new \<and>
        (\<forall>node. MsgDropped node \<in> set effs \<longrightarrow> \<not> qn_flow_control_requested node) \<and>
        (inputs_registered (fq_input_queues self) \<longrightarrow> inputs_registered (fq_input_queues self')))"

lemma step_okI:
  assumes "res = Inr (effs, self')" and "fifo_inv self'"
    and "all_items self' + mset (gone effs) = all_items self + new"
    and "\<And>node. MsgDropped node \<in> set effs \<Longrightarrow> \<not> qn_flow_control_requested node"
    and "inputs_registered (fq_input_queues self) \<Longrightarrow> inputs_registered (fq_input_queues self')"
  shows "step_ok self new res"
  using assms by (auto simp: step_ok_def)

lemma inputs_registered_update:
  assumes "inputs_registered qs" and "iq_items q = [] \<or> iq_cb_registered q"
  shows "inputs_registered (qs[i := q])"
proof -
  have "p = q \<or> p \<in> set qs" if "p \<in> set (qs[i := q])" for p
    using that set_update_subset_insert [of qs i q] by blast
  with assms show ?thesis by (auto simp: inputs_registered_def)
qed

lemma move_input:
  assumes inv: "fifo_inv self" and i: "i < length (fq_input_queues self)"
  shows "\<exists>effs self' dropped q. log_queue_fifo_move_input self i r = Inr (effs, self') \<and> fifo_inv self' \<and>
           all_items self' + mset (gone effs) = all_items self \<and>
           (\<forall>node. MsgDropped node \<in> set effs \<longrightarrow> \<not> qn_flow_control_requested node) \<and>
           fq_input_queues self' = (fq_input_queues self)[i := q] \<and> iq_items q = []"
proof -
  from move_input_unlocked [OF inv i] obtain kept dropped self1 where s1:
    "log_queue_fifo_move_input_unlocked self i r = Inr (map MsgDropped dropped, self1)" "fifo_inv self1"
    "all_items self1 + mset dropped = all_items self" "filter qn_flow_control_requested dropped = []"
    "fq_input_queues self1 = (fq_input_queues self)[i := (fq_input_queues self ! i)\<lparr>iq_items := [], iq_len := 0,
             iq_non_flow_controlled_len := 0, iq_total_size := 0\<rparr>]"
    by blast
  obtain effs self2 where s2: "fifo_push_notify self1 = (effs, self2)" by fastforce
  note pn = fifo_push_notify [OF s2]
  have "fq_input_queues self2 = fq_input_queues self1" by (subst pn(7)) simp
  moreover have "MsgDropped node \<notin> set effs" for node
    using s2 by (auto simp: fifo_push_notify_def split: prod.splits)
  moreover have "log_queue_fifo_move_input self i r = Inr (map MsgDropped dropped @ effs, self2)"
    by (simp add: log_queue_fifo_move_input_def s1(1) s2)
  ultimately show ?thesis
    using pn(1,2,4) s1(2-5)
    by (intro exI [of _ "map MsgDropped dropped @ effs"] exI [of _ self2] exI)
      (auto simp: filter_empty_conv)
qed

lemma replace_input:
  assumes "fifo_inv self" and "iq_ok q"
    and "size (all_items (self\<lparr>fq_input_queues := (fq_input_queues self)[i := q]\<rparr>)) < 2 ^ 31"
  shows "fifo_inv (self\<lparr>fq_input_queues := (fq_input_queues self)[i := q], fq_nodes := nodes\<rparr>)"
  using assms iq_ok_update [of "fq_input_queues self" q i]
  by (simp add: fifo_inv_def queue_items_def all_items_def)

lemma move_replaced_input:
  assumes inv: "fifo_inv self" and i: "i < length (fq_input_queues self)" and q: "iq_ok q"
    and items: "mset (iq_items q) = mset (iq_items (fq_input_queues self ! i)) + new"
    and small: "size (all_items self + new) < 2 ^ 31"
  shows "step_ok self new
           (log_queue_fifo_move_input (self\<lparr>fq_input_queues := (fq_input_queues self)[i := q], fq_nodes := nodes\<rparr>) i r)"
proof -
  let ?self = "self\<lparr>fq_input_queues := (fq_input_queues self)[i := q], fq_nodes := nodes\<rparr>"
  have all: "all_items (self\<lparr>fq_input_queues := (fq_input_queues self)[i := q]\<rparr>) = all_items self + new"
    "all_items ?self = all_items self + new"
    using mset_concat_update [OF i, of q] items by (simp_all add: all_items_def queue_items_def ac_simps)
  have inv': "fifo_inv ?self" by (rule replace_input [OF inv q]) (use small all in simp)
  from move_input [OF inv', of i r] i obtain effs self' p where
    "log_queue_fifo_move_input ?self i r = Inr (effs, self')" "fifo_inv self'"
    "all_items self' + mset (gone effs) = all_items ?self"
    "\<forall>node. MsgDropped node \<in> set effs \<longrightarrow> \<not> qn_flow_control_requested node"
    "fq_input_queues self' = (fq_input_queues self)[i := p]" "iq_items p = []" by auto
  then show ?thesis
    using all by (intro step_okI [of _ effs self']) (auto intro: inputs_registered_update)
qed

lemma batch_callback_ok:
  assumes inv: "fifo_inv self" and i: "i < length (fq_input_queues self)"
  shows "step_ok self {#} (log_queue_fifo_input_batch_callback self (int i) r)"
  using move_replaced_input [OF inv i, of "(fq_input_queues self ! i)\<lparr>iq_cb_registered := False\<rparr>" "{#}" "fq_nodes self"] inv i
  by (simp add: log_queue_fifo_input_batch_callback_def fifo_inv_def iq_ok_def)

lemma push_fast_ok:
  assumes inv: "fifo_inv self" and i: "i < length (fq_input_queues self)"
    and small: "size (all_items self) + 1 < 2 ^ 31"
    and cur: "qs_cur_node (fq_nodes self) (msg_id msg) \<le> LOGMSG_NODES_ASSERT"
  shows "step_ok self {#log_msg_init_queue_node msg po#} (push_tail_fast self msg po i r)"
proof -
  let ?iq = "fq_input_queues self ! i" and ?node = "log_msg_init_queue_node msg po"
  define iq1 where "iq1 = (if \<not> iq_cb_registered ?iq
                 then ?iq\<lparr>iq_cb_registered := True, iq_first_message_recvd := msg_recvd msg\<rparr>
                 else ?iq)"
  define iq2 where "iq2 = iq1\<lparr>iq_items := iq_items iq1 @ [?node],
       iq_total_size := iq_total_size iq1 + msg_size msg, iq_len := iq_len iq1 + 1,
       iq_non_flow_controlled_len := iq_non_flow_controlled_len iq1
         + (if \<not> po_flow_control_requested po then 1 else 0)\<rparr>"
  from alloc_queue_node [OF cur] obtain nodes where
    al: "log_msg_alloc_queue_node (fq_nodes self) msg po = Inr (?node, nodes)" by blast
  have ok: "iq_ok ?iq" using inv i by (simp add: fifo_inv_def)
  have len: "length (iq_items ?iq) + 1 < 2 ^ 32" using length_input_le [OF i] small by (simp add: size_all_items)
  have "unat (iq_len ?iq + 1) = Suc (unat (iq_len ?iq))"
    using ok len by (simp add: iq_ok_def unat_word_ariths)
  moreover have "unat (iq_non_flow_controlled_len ?iq + 1) = Suc (unat (iq_non_flow_controlled_len ?iq))"
    using ok len nfc_le_length [of "iq_items ?iq"] by (simp add: iq_ok_def unat_word_ariths)
  ultimately have ok2: "iq_ok iq2"
    using ok by (simp add: iq2_def iq1_def iq_ok_def log_msg_init_queue_node_def)
  have items: "mset (iq_items iq2) = mset (iq_items ?iq) + {#?node#}" and reg: "iq_cb_registered iq2"
    by (simp_all add: iq2_def iq1_def)
  let ?self = "self\<lparr>fq_input_queues := (fq_input_queues self)[i := iq2], fq_nodes := nodes\<rparr>"
  have push: "push_tail_fast self msg po i r =
      (if take_bit 7 (iq_len iq2) = 0 \<and> unix_time_diff_in_msec (msg_recvd msg) (iq_first_message_recvd iq2) > 100
       then log_queue_fifo_move_input ?self i r else Inr ([], ?self))"
    unfolding push_tail_fast_def Let_def al bindO_Inr prod.case iq2_def iq1_def by simp
  have all: "all_items (self\<lparr>fq_input_queues := (fq_input_queues self)[i := iq2]\<rparr>) = all_items self + {#?node#}"
    "all_items ?self = all_items self + {#?node#}"
    using mset_concat_update [OF i, of iq2] items by (simp_all add: all_items_def queue_items_def ac_simps)
  then have "fifo_inv ?self" by (intro replace_input [OF inv ok2]) (use small in simp)
  then have "step_ok self {#?node#} (Inr ([], ?self))"
    using all reg by (intro step_okI [of _ "[]" ?self]) (auto intro: inputs_registered_update)
  with move_replaced_input [OF inv i ok2 items] small show ?thesis unfolding push by simp
qed

lemma push_slow_ok:
  assumes inv: "fifo_inv self" and small: "size (all_items self) + 1 < 2 ^ 31"
    and cur: "qs_cur_node (fq_nodes self) (msg_id msg) \<le> LOGMSG_NODES_ASSERT"
  shows "step_ok self {#log_msg_init_queue_node msg po#} (push_tail_slow self msg po r)"
proof -
  let ?node = "log_msg_init_queue_node msg po"
  show ?thesis
  proof (cases "message_has_to_be_dropped self po r")
    case True
    then show ?thesis
      using inv
      by (intro step_okI [of _ "[MsgDropped ?node]"
            "self\<lparr>fq_super := log_queue_dropped_messages_inc (fq_super self)\<rparr>"])
        (auto simp: push_tail_slow_def Let_def fifo_inv_def all_items_def queue_items_def
          message_has_to_be_dropped_def log_msg_init_queue_node_def log_queue_dropped_messages_inc_def)
  next
    case False
    from alloc_queue_node [OF cur] obtain nodes where
      al: "log_msg_alloc_queue_node (fq_nodes self) msg po = Inr (?node, nodes)" by blast
    let ?self1 = "self\<lparr>fq_wait_queue := overflow_add_tail (fq_wait_queue self) ?node, fq_nodes := nodes\<rparr>"
    obtain effs self2 where s2: "fifo_push_notify ?self1 = (effs, self2)" by fastforce
    note pn = fifo_push_notify [OF s2]
    let ?self3 = "self2\<lparr>fq_super :=
        log_queue_memory_usage_add (log_queue_queued_messages_inc (fq_super self2)) (msg_size msg)\<rparr>"
    have q: "queue_items ?self3 = queue_items self @ [?node]"
      using pn(3) by (simp add: queue_items_def)
    have fields: "fq_wait_queue ?self3 = overflow_add_tail (fq_wait_queue self) ?node"
      "fq_output_queue ?self3 = fq_output_queue self" "fq_backlog_queue ?self3 = fq_backlog_queue self"
      "fq_input_queues ?self3 = fq_input_queues self"
      by (subst pn(7), simp)+
    have all: "all_items ?self3 = all_items self + {#?node#}"
      unfolding all_items_def q fields by simp
    have "oq_ok (overflow_add_tail (fq_wait_queue self) ?node)"
      using inv small by (intro overflow_add_ok) (simp_all add: fifo_inv_def size_all_items)
    moreover have "size (all_items ?self3) < 2 ^ 31" using small by (simp only: all) simp
    ultimately have "fifo_inv ?self3"
      using inv pn(6) unfolding fifo_inv_def q fields by (auto simp: log_msg_init_queue_node_def)
    moreover have "MsgDropped node \<notin> set effs" for node
      using s2 by (auto simp: fifo_push_notify_def split: prod.splits)
    ultimately show ?thesis
      using False s2 pn(1) fields(4) all al
      by (intro step_okI [of _ effs ?self3]) (simp_all add: push_tail_slow_def Let_def)
  qed
qed

lemma push_tail_ok:
  assumes "fifo_inv self" and "fifo_enabled (PushTail msg po i r) self"
  shows "step_ok self {#log_msg_init_queue_node msg po#} (log_queue_fifo_push_tail self msg po i r)"
  using assms push_fast_ok [of self "nat i" msg po r] push_slow_ok [of self msg po r]
  by (auto simp: log_queue_fifo_push_tail_def fifo_enabled_def)

text \<open>The consumer side.  \<open>queue_items\<close> is the order in which messages are sent.\<close>

lemma refill_output:
  assumes "fifo_inv self"
  shows "fifo_inv (refill_output self)" and "queue_items (refill_output self) = queue_items self"
    and "fq_backlog_queue (refill_output self) = fq_backlog_queue self"
    and "fq_input_queues (refill_output self) = fq_input_queues self"
    and "oq_items (fq_output_queue (refill_output self)) = [] \<longleftrightarrow> queue_items self = []"
    and "oq_len (fq_output_queue (refill_output self)) = int (length (oq_items (fq_output_queue (refill_output self))))"
  using assms
  by (auto simp: refill_output_def move_items_from_wait_queue_to_output_queue_def fifo_inv_def queue_items_def
      all_items_def oq_ok_def)

lemma pop_head:
  assumes inv: "fifo_inv self"
  shows "\<exists>self'. log_queue_fifo_pop_head self
             = Inr (case queue_items self of [] \<Rightarrow> None | node # _ \<Rightarrow> Some node, self') \<and>
           fifo_inv self' \<and> queue_items self' = tl (queue_items self) \<and>
           oq_items (fq_backlog_queue self') = oq_items (fq_backlog_queue self) @ take 1 (queue_items self) \<and>
           fq_input_queues self' = fq_input_queues self"
proof -
  let ?r = "refill_output self"
  note rf = refill_output [OF inv]
  show ?thesis
  proof (cases "queue_items self")
    case Nil
    then show ?thesis using rf by (simp add: log_queue_fifo_pop_head_def Let_def)
  next
    case (Cons node rest)
    then obtain rest' where out: "oq_items (fq_output_queue ?r) = node # rest'"
      using rf(2,5) by (cases "oq_items (fq_output_queue ?r)") (auto simp: queue_items_def)
    let ?self' = "?r\<lparr>fq_output_queue := overflow_del (fq_output_queue ?r) node rest',
       fq_super := log_queue_queued_messages_dec (fq_super ?r),
       fq_backlog_queue := overflow_add_tail (fq_backlog_queue ?r) node\<rparr>"
    have "log_queue_fifo_pop_head self = Inr (Some node, ?self')"
      using out rf(6) by (simp add: log_queue_fifo_pop_head_def Let_def)
    moreover have len: "length (oq_items (fq_output_queue ?r)) + length (oq_items (fq_backlog_queue ?r)) < 2 ^ 31"
      using fifo_inv_lengths [OF rf(1)] by simp
    have "oq_ok (overflow_del (fq_output_queue ?r) node rest')"
      using rf(1) out len by (intro overflow_del_ok) (simp_all add: fifo_inv_def)
    moreover have "oq_ok (overflow_add_tail (fq_backlog_queue ?r) node)"
      using rf(1) out len by (intro overflow_add_ok) (simp_all add: fifo_inv_def)
    ultimately have "log_queue_fifo_pop_head self = Inr (Some node, ?self')" "fifo_inv ?self'"
      using rf(1) out by (auto simp: fifo_inv_def queue_items_def all_items_def)
    moreover have "queue_items ?self' = rest"
      using rf(2) out Cons by (simp add: queue_items_def)
    ultimately show ?thesis
      using Cons rf(3,4) by simp
  qed
qed

lemma peek_head:
  assumes inv: "fifo_inv self"
  shows "\<exists>self'. log_queue_fifo_peek_head self
             = Inr (case queue_items self of [] \<Rightarrow> None | node # _ \<Rightarrow> Some (qn_msg node), self') \<and>
           fifo_inv self' \<and> queue_items self' = queue_items self \<and>
           fq_backlog_queue self' = fq_backlog_queue self \<and> fq_input_queues self' = fq_input_queues self"
proof -
  note rf = refill_output [OF inv]
  show ?thesis
    using rf by (cases "oq_items (fq_output_queue (refill_output self))")
      (auto simp: log_queue_fifo_peek_head_def Let_def queue_items_def split: list.splits)
qed

lemma ack_backlog_loop:
  assumes "fifo_inv self"
  shows "\<exists>self'. ack_backlog_loop n self = Inr (map MsgAcked (take n (oq_items (fq_backlog_queue self))), self') \<and>
           fifo_inv self' \<and> queue_items self' = queue_items self \<and>
           oq_items (fq_backlog_queue self') = drop n (oq_items (fq_backlog_queue self)) \<and>
           fq_input_queues self' = fq_input_queues self"
  using assms
proof (induction n arbitrary: self)
  case 0
  then show ?case by simp
next
  case (Suc n)
  show ?case
  proof (cases "oq_items (fq_backlog_queue self)")
    case Nil
    then show ?thesis using Suc.prems by (simp add: fifo_inv_def oq_ok_def)
  next
    case (Cons node rest)
    let ?self1 = "self\<lparr>fq_backlog_queue := overflow_del (fq_backlog_queue self) node rest,
       fq_super := log_queue_memory_usage_sub (fq_super self) (msg_size (qn_msg node))\<rparr>"
    have "oq_ok (overflow_del (fq_backlog_queue self) node rest)"
      using Suc.prems Cons fifo_inv_lengths [OF Suc.prems] by (intro overflow_del_ok) (simp_all add: fifo_inv_def)
    then have "fifo_inv ?self1" using Suc.prems Cons by (auto simp: fifo_inv_def queue_items_def all_items_def)
    from Suc.IH [OF this] obtain self' where s':
      "ack_backlog_loop n ?self1 = Inr (map MsgAcked (take n rest), self')" "fifo_inv self'"
      "queue_items self' = queue_items self" "oq_items (fq_backlog_queue self') = drop n rest"
      "fq_input_queues self' = fq_input_queues self"
      by (auto simp: queue_items_def)
    have "oq_len (fq_backlog_queue self) > 0" using Suc.prems Cons by (simp add: fifo_inv_def oq_ok_def)
    then show ?thesis using Cons s' by simp
  qed
qed

lemma rewind_backlog_loop:
  assumes "fifo_inv self" and "n \<le> length (oq_items (fq_backlog_queue self))"
  defines "b \<equiv> oq_items (fq_backlog_queue self)"
  shows "\<exists>self'. rewind_backlog_loop n self = Inr self' \<and> fifo_inv self' \<and>
           queue_items self' = drop (length b - n) b @ queue_items self \<and>
           oq_items (fq_backlog_queue self') = take (length b - n) b \<and>
           fq_input_queues self' = fq_input_queues self"
  using assms(1,2) unfolding b_def
proof (induction n arbitrary: self)
  case 0
  then show ?case by simp
next
  case (Suc n)
  let ?b = "oq_items (fq_backlog_queue self)"
  from Suc.prems(2) obtain init node where b: "?b = init @ [node]" by (cases ?b rule: rev_cases) auto
  let ?self1 = "self\<lparr>fq_backlog_queue := overflow_del (fq_backlog_queue self) node init,
     fq_output_queue := overflow_add_head (fq_output_queue self) node,
     fq_super := log_queue_queued_messages_inc (fq_super self)\<rparr>"
  have len: "length (oq_items (fq_output_queue self)) + length ?b < 2 ^ 31"
    using fifo_inv_lengths [OF Suc.prems(1)] by simp
  have "oq_ok (overflow_del (fq_backlog_queue self) node init)"
    using Suc.prems(1) len b by (intro overflow_del_ok) (simp_all add: fifo_inv_def)
  moreover have "oq_ok (overflow_add_head (fq_output_queue self) node)"
    using Suc.prems(1) len b by (intro overflow_add_ok) (simp_all add: fifo_inv_def)
  ultimately have "fifo_inv ?self1"
    using Suc.prems(1) b by (auto simp: fifo_inv_def queue_items_def all_items_def)
  moreover have "n \<le> length (oq_items (fq_backlog_queue ?self1))" using Suc.prems(2) b by simp
  ultimately obtain self' where s':
    "rewind_backlog_loop n ?self1 = Inr self'" "fifo_inv self'"
    "queue_items self' = drop (length init - n) init @ queue_items ?self1"
    "oq_items (fq_backlog_queue self') = take (length init - n) init"
    "fq_input_queues self' = fq_input_queues self"
    using Suc.IH [of ?self1] by auto
  have "rewind_backlog_loop (Suc n) self = rewind_backlog_loop n ?self1" by (simp add: b Let_def)
  moreover have "queue_items ?self1 = node # queue_items self" by (simp add: queue_items_def)
  ultimately show ?case
    using s' Suc.prems(2) b by (auto simp: drop_append take_append)
qed

lemma rewind_backlog:
  fixes self :: LogQueueFifo and n :: guint32
  assumes inv: "fifo_inv self"
  defines "b \<equiv> oq_items (fq_backlog_queue self)"
  defines "k \<equiv> length (oq_items (fq_backlog_queue self)) - unat n"
  shows "\<exists>self'. log_queue_fifo_rewind_backlog self n = Inr self' \<and> fifo_inv self' \<and>
           queue_items self' = drop k b @ queue_items self \<and>
           oq_items (fq_backlog_queue self') = take k b \<and> fq_input_queues self' = fq_input_queues self"
proof -
  let ?m = "min (unat n) (length b)"
  have len: "oq_len (fq_backlog_queue self) = int (length b)"
    using inv by (simp add: fifo_inv_def oq_ok_def b_def)
  have "length b < 2 ^ 32" using fifo_inv_lengths [OF inv] by (simp add: b_def)
  then have u: "unat (of_int (int (length b)) :: guint32) = length b" by (simp add: unat_of_nat)
  have "log_queue_fifo_rewind_backlog self n = rewind_backlog_loop ?m self"
    unfolding log_queue_fifo_rewind_backlog_def len
    by (cases "unat n \<le> length b") (simp_all add: word_less_nat_alt u min_def del: of_int_of_nat_eq)
  moreover have "length b - ?m = k" by (simp add: k_def b_def min_def)
  ultimately show ?thesis
    using rewind_backlog_loop [OF inv, of ?m] by (simp add: b_def)
qed

lemma rewind_all:
  assumes inv: "fifo_inv self"
  shows "fifo_inv (log_queue_fifo_rewind_backlog_all self)"
    and "all_items (log_queue_fifo_rewind_backlog_all self) = all_items self"
proof -
  let ?out = "fq_output_queue self" and ?backlog = "fq_backlog_queue self"
  show all: "all_items (log_queue_fifo_rewind_backlog_all self) = all_items self"
    by (simp add: log_queue_fifo_rewind_backlog_all_def queue_items_def all_items_def ac_simps)
  have "oq_ok \<lparr>oq_items = oq_items ?out @ oq_items ?backlog, oq_len = to_gint (oq_len ?out + oq_len ?backlog),
      oq_non_flow_controlled_len = to_gint (oq_non_flow_controlled_len ?out + oq_non_flow_controlled_len ?backlog)\<rparr>"
    using fifo_inv_lengths [OF inv] inv by (intro oq_okI) (simp_all add: fifo_inv_def oq_ok_def)
  moreover have "size (all_items (log_queue_fifo_rewind_backlog_all self)) < 2 ^ 31"
    unfolding all using inv by (simp add: fifo_inv_def)
  moreover have "oq_ok \<lparr>oq_items = [], oq_len = 0, oq_non_flow_controlled_len = 0\<rparr>" by (simp add: oq_ok_def)
  ultimately show "fifo_inv (log_queue_fifo_rewind_backlog_all self)"
    using inv unfolding fifo_inv_def
    by (simp add: log_queue_fifo_rewind_backlog_all_def queue_items_def oq_ok_def)
qed

lemma mset_take_drop: "mset (drop k xs) + mset (take k xs) = mset xs"
  by (metis append_take_drop_id mset_append union_commute)

lemma gone_MsgAcked [simp]: "gone (map MsgAcked ns) = ns"
  by (induction ns) auto

lemma fifo_step_ok:
  assumes inv: "fifo_inv self" and en: "fifo_enabled ins self"
  shows "step_ok self (mset (pushed [ins])) (fifo_step ins self)"
proof (cases ins)
  case (PushTail msg po i r)
  then show ?thesis using push_tail_ok [OF inv, of msg po i r] en by (simp add: fifo_step_def)
next
  case (BatchDone i r)
  then show ?thesis using batch_callback_ok [OF inv, of i r] en by (simp add: fifo_step_def fifo_enabled_def)
next
  case PopHead
  from pop_head [OF inv] obtain self' where s': "log_queue_fifo_pop_head self
        = Inr (case queue_items self of [] \<Rightarrow> None | node # _ \<Rightarrow> Some node, self')"
    "fifo_inv self'" "queue_items self' = tl (queue_items self)"
    "oq_items (fq_backlog_queue self') = oq_items (fq_backlog_queue self) @ take 1 (queue_items self)"
    "fq_input_queues self' = fq_input_queues self" by blast
  then show ?thesis
    by (cases "queue_items self") (auto simp: PopHead fifo_step_def step_ok_def all_items_def)
next
  case PeekHead
  then show ?thesis using peek_head [OF inv] by (auto simp: fifo_step_def step_ok_def all_items_def)
next
  case (AckBacklog n)
  from ack_backlog_loop [OF inv, of "unat n"] obtain self' where s':
    "ack_backlog_loop (unat n) self = Inr (map MsgAcked (take (unat n) (oq_items (fq_backlog_queue self))), self')"
    "fifo_inv self'" "queue_items self' = queue_items self"
    "oq_items (fq_backlog_queue self') = drop (unat n) (oq_items (fq_backlog_queue self))"
    "fq_input_queues self' = fq_input_queues self" by blast
  have "all_items self' + mset (take (unat n) (oq_items (fq_backlog_queue self))) = all_items self"
    unfolding all_items_def s'(3-5) by (simp only: add.assoc mset_take_drop)
  then show ?thesis
    using s'(1,2,5)
    by (intro step_okI [of _ "map MsgAcked (take (unat n) (oq_items (fq_backlog_queue self)))" self'])
      (auto simp: AckBacklog fifo_step_def log_queue_fifo_ack_backlog_def)
next
  case (RewindBacklog n)
  from rewind_backlog [OF inv, of n] obtain self' where s':
    "log_queue_fifo_rewind_backlog self n = Inr self'" "fifo_inv self'"
    "queue_items self' = drop (length (oq_items (fq_backlog_queue self)) - unat n) (oq_items (fq_backlog_queue self))
       @ queue_items self"
    "oq_items (fq_backlog_queue self')
       = take (length (oq_items (fq_backlog_queue self)) - unat n) (oq_items (fq_backlog_queue self))"
    "fq_input_queues self' = fq_input_queues self" by blast
  have "mset (oq_items (fq_backlog_queue self))
      = mset (drop (length (oq_items (fq_backlog_queue self)) - unat n) (oq_items (fq_backlog_queue self)))
        + mset (take (length (oq_items (fq_backlog_queue self)) - unat n) (oq_items (fq_backlog_queue self)))"
    by (rule mset_take_drop [symmetric])
  then have "all_items self' = all_items self"
    unfolding all_items_def s'(3-5) mset_append by (simp only: ac_simps)
  then show ?thesis
    using s'(1,2,5) by (intro step_okI [of _ "[]" self']) (auto simp: RewindBacklog fifo_step_def)
next
  case RewindBacklogAll
  then show ?thesis
    using rewind_all [OF inv]
    by (auto simp: fifo_step_def step_ok_def log_queue_fifo_rewind_backlog_all_def)
qed

lemma pushed_Cons: "pushed (ins # rest) = pushed [ins] @ pushed rest"
  by (cases ins) auto

lemma fifo_run_ok:
  assumes "fifo_inv self" and "fifo_admissible ops self"
  shows "step_ok self (mset (pushed ops)) (fifo_run ops self)"
  using assms
proof (induction ops arbitrary: self)
  case Nil
  then show ?case by (simp add: step_ok_def)
next
  case (Cons ins ops)
  from fifo_step_ok [OF Cons.prems(1), of ins] Cons.prems(2) obtain e1 s1 where s1:
    "fifo_step ins self = Inr (e1, s1)" "fifo_inv s1"
    "all_items s1 + mset (gone e1) = all_items self + mset (pushed [ins])"
    "\<forall>node. MsgDropped node \<in> set e1 \<longrightarrow> \<not> qn_flow_control_requested node"
    "inputs_registered (fq_input_queues self) \<longrightarrow> inputs_registered (fq_input_queues s1)"
    by (auto simp: step_ok_def)
  from Cons.IH [OF s1(2)] Cons.prems(2) s1(1) obtain e2 s2 where s2:
    "fifo_run ops s1 = Inr (e2, s2)" "fifo_inv s2"
    "all_items s2 + mset (gone e2) = all_items s1 + mset (pushed ops)"
    "\<forall>node. MsgDropped node \<in> set e2 \<longrightarrow> \<not> qn_flow_control_requested node"
    "inputs_registered (fq_input_queues s1) \<longrightarrow> inputs_registered (fq_input_queues s2)"
    by (auto simp: step_ok_def)
  have "all_items s2 + mset (gone (e1 @ e2)) = (all_items s1 + mset (gone e1)) + mset (pushed ops)"
    using s2(3) by (simp add: ac_simps)
  also have "\<dots> = all_items self + mset (pushed (ins # ops))"
    unfolding s1(3) pushed_Cons [of ins ops] by (simp add: ac_simps)
  finally show ?case
    using s1 s2 by (intro step_okI [of _ "e1 @ e2" s2]) auto
qed

definition zero_metrics :: "LogQueueMetrics \<Rightarrow> bool" where
  "zero_metrics m \<longleftrightarrow> owned_queued_messages m = 0 \<and> owned_memory_usage m = 0"

lemma new_inv:
  assumes "zero_metrics (lq_metrics super)"
  shows "fifo_inv (log_queue_fifo_new sz threads super nodes)"
    and "all_items (log_queue_fifo_new sz threads super nodes) = {#}"
    and "inputs_registered (fq_input_queues (log_queue_fifo_new sz threads super nodes))"
proof -
  have "concat (replicate threads []) = ([] :: LogMessageQueueNode list)" by (induction threads) auto
  then show "fifo_inv (log_queue_fifo_new sz threads super nodes)"
    and "all_items (log_queue_fifo_new sz threads super nodes) = {#}"
    and "inputs_registered (fq_input_queues (log_queue_fifo_new sz threads super nodes))"
    using assms
    by (auto simp: log_queue_fifo_new_def Let_def fifo_inv_def oq_ok_def iq_ok_def queue_items_def all_items_def
        inputs_registered_def zero_metrics_def set_replicate_conv_if split: if_splits)
qed

section \<open>Properties\<close>

text \<open>C6: No message is lost or duplicated by the memory queue.  On every run of pushes from worker
  threads or from outside, batch callbacks, pops, peeks, acknowledgements and rewinds, the messages in
  the input queues, the wait and output queues and the backlog together with those reported as
  acknowledged or dropped are exactly the pushed ones; only messages without flow control are ever
  dropped; a non-empty input queue always has its batch callback registered; and at the end the
  length, flow control and memory counters agree with the lists.\<close>

theorem fifo_conserves_messages:
  assumes "zero_metrics (lq_metrics super)" and "fifo_admissible ops (log_queue_fifo_new sz threads super nodes)"
  shows "\<exists>effs self. fifo_run ops (log_queue_fifo_new sz threads super nodes) = Inr (effs, self) \<and> fifo_inv self \<and>
           all_items self + mset (gone effs) = mset (pushed ops) \<and>
           (\<forall>node. MsgDropped node \<in> set effs \<longrightarrow> \<not> qn_flow_control_requested node) \<and>
           inputs_registered (fq_input_queues self)"
  using fifo_run_ok [OF new_inv(1) [OF assms(1)] assms(2)] new_inv(2,3) [OF assms(1), of sz threads nodes]
  by (auto simp: step_ok_def)

definition example_msg :: "nat \<Rightarrow> LogMessage" where
  "example_msg i = \<lparr>msg_id = i, msg_size = 100, msg_recvd = \<lparr>ut_sec = 0, ut_usec = 0\<rparr>, msg_num_nodes = 2\<rparr>"

definition example_nodes :: QueueNodes where
  "example_nodes = \<lparr>qs_cur_node = (\<lambda>_. 0), qs_logmsg_queue_node_max = 2\<rparr>"

definition example_fifo_ops :: "fifo_op list" where
  "example_fifo_ops =
     [PushTail (example_msg 0) \<lparr>po_ack_needed = True, po_flow_control_requested = False\<rparr> 0 0,
      PushTail (example_msg 1) \<lparr>po_ack_needed = True, po_flow_control_requested = True\<rparr> (-1) 0,
      BatchDone 0 0, PopHead, RewindBacklog 1, PopHead, AckBacklog 1]"

theorem fifo_conserves_messages_witness:
  "\<exists>effs self. fifo_run example_fifo_ops (log_queue_fifo_new 10 1 (example_queue 0 0) example_nodes) = Inr (effs, self) \<and>
     fifo_inv self \<and> all_items self + mset (gone effs) = mset (pushed example_fifo_ops) \<and>
     inputs_registered (fq_input_queues self)"
proof -
  let ?new = "log_queue_fifo_new 10 1 (example_queue 0 0) example_nodes"
  have "fifo_admissible example_fifo_ops ?new"
    by (simp add: example_fifo_ops_def fifo_enabled_def fifo_step_def log_queue_fifo_new_def Let_def
        log_queue_fifo_push_tail_def push_tail_fast_def push_tail_slow_def message_has_to_be_dropped_def
        fifo_push_notify_def log_queue_push_notify_def example_queue_def log_queue_fifo_input_batch_callback_def
        log_queue_fifo_move_input_def log_queue_fifo_move_input_unlocked_def
        log_queue_fifo_calculate_num_of_messages_to_drop_def log_queue_fifo_get_non_flow_controlled_length_def
        log_msg_alloc_queue_node_def example_nodes_def example_msg_def size_all_items
        split: sum.splits prod.splits)
  from fifo_conserves_messages [OF _ this] show ?thesis
    by (auto simp: zero_metrics_def example_queue_def)
qed

fun pop_many :: "nat \<Rightarrow> LogQueueFifo \<Rightarrow> (LogMessageQueueNode list \<times> LogQueueFifo) outcome" where
  "pop_many 0 self = Inr ([], self)"
| "pop_many (Suc n) self =
     bindO (log_queue_fifo_pop_head self) (\<lambda>(node, self').
       case node of
         None \<Rightarrow> Inr ([], self')
       | Some x \<Rightarrow> bindO (pop_many n self') (\<lambda>(xs, self''). Inr (x # xs, self'')))"

lemma pop_many:
  assumes "fifo_inv self" and "n \<le> length (queue_items self)"
  shows "\<exists>self'. pop_many n self = Inr (take n (queue_items self), self') \<and> fifo_inv self' \<and>
           queue_items self' = drop n (queue_items self) \<and>
           oq_items (fq_backlog_queue self') = oq_items (fq_backlog_queue self) @ take n (queue_items self)"
  using assms
proof (induction n arbitrary: self)
  case 0
  then show ?case by simp
next
  case (Suc n)
  then obtain x q where q: "queue_items self = x # q" by (cases "queue_items self") auto
  with pop_head [OF Suc.prems(1)] obtain s1 where s1: "log_queue_fifo_pop_head self = Inr (Some x, s1)"
    "fifo_inv s1" "queue_items s1 = q"
    "oq_items (fq_backlog_queue s1) = oq_items (fq_backlog_queue self) @ [x]" by auto
  from Suc.IH [OF s1(2)] Suc.prems(2) q s1 show ?case by auto
qed

text \<open>C14: Messages are sent in order, and a rewind undoes the sending.  Popping \<open>n\<close> messages returns the
  first \<open>n\<close> of the queue and moves them to the backlog; rewinding \<open>n\<close> then restores the queue and the
  backlog exactly, so the next pops return the same messages in the same order.\<close>

theorem fifo_rewind_restores_order:
  assumes "fifo_inv self" and "unat n \<le> length (queue_items self)"
  shows "\<exists>s1 s2. pop_many (unat n) self = Inr (take (unat n) (queue_items self), s1) \<and>
           log_queue_fifo_rewind_backlog s1 n = Inr s2 \<and> queue_items s2 = queue_items self \<and>
           oq_items (fq_backlog_queue s2) = oq_items (fq_backlog_queue self) \<and> fifo_inv s2"
proof -
  from pop_many [OF assms] obtain s1 where s1:
    "pop_many (unat n) self = Inr (take (unat n) (queue_items self), s1)" "fifo_inv s1"
    "queue_items s1 = drop (unat n) (queue_items self)"
    "oq_items (fq_backlog_queue s1) = oq_items (fq_backlog_queue self) @ take (unat n) (queue_items self)"
    by blast
  from rewind_backlog [OF s1(2), of n] assms(2) s1 show ?thesis by auto
qed

definition example_fifo :: LogQueueFifo where
  "example_fifo =
     (log_queue_fifo_new 10 1 (example_queue 0 0) example_nodes)\<lparr>
       fq_output_queue := \<lparr>oq_items = [\<lparr>qn_msg = example_msg 0, qn_ack_needed = True, qn_flow_control_requested = False\<rparr>,
                                       \<lparr>qn_msg = example_msg 1, qn_ack_needed = True, qn_flow_control_requested = True\<rparr>],
                           oq_len = 2, oq_non_flow_controlled_len = 1\<rparr>,
       fq_super := log_queue_memory_usage_add (log_queue_queued_messages_add (example_queue 0 0) 2) 200\<rparr>"

lemma example_fifo_inv: "fifo_inv example_fifo"
  by (simp add: example_fifo_def fifo_inv_def log_queue_fifo_new_def Let_def oq_ok_def iq_ok_def
      queue_items_def size_all_items example_queue_def example_msg_def)

theorem fifo_rewind_restores_order_witness:
  "\<exists>s1 s2. pop_many 1 example_fifo = Inr (take 1 (queue_items example_fifo), s1) \<and>
     log_queue_fifo_rewind_backlog s1 1 = Inr s2 \<and> queue_items s2 = queue_items example_fifo"
proof -
  have "length (queue_items example_fifo) = 2"
    by (simp add: example_fifo_def queue_items_def log_queue_fifo_new_def Let_def)
  with fifo_rewind_restores_order [OF example_fifo_inv, of 1] show ?thesis by auto
qed

text \<open>C34: Rewinding the whole backlog does not restore the order: the backlog is put behind the
  messages that are still in the output queue, so messages sent earlier are sent again after them.\<close>

theorem fifo_rewind_all_reorders:
  assumes "fifo_inv self" and "n \<le> length (oq_items (fq_output_queue self))" and "0 < n"
    and "oq_items (fq_backlog_queue self) = []"
  shows "\<exists>s1. pop_many n self = Inr (take n (queue_items self), s1) \<and>
           queue_items (log_queue_fifo_rewind_backlog_all s1)
             = drop n (oq_items (fq_output_queue self)) @ take n (queue_items self)
               @ oq_items (fq_wait_queue self)"
proof -
  have "\<exists>s1. pop_many n self = Inr (take n (queue_items self), s1) \<and>
      oq_items (fq_output_queue s1) = drop n (oq_items (fq_output_queue self)) \<and>
      oq_items (fq_wait_queue s1) = oq_items (fq_wait_queue self) \<and>
      oq_items (fq_backlog_queue s1) = oq_items (fq_backlog_queue self) @ take n (queue_items self)"
    using assms(1,2)
  proof (induction n arbitrary: self)
    case 0
    then show ?case by simp
  next
    case (Suc n)
    then obtain x q where q: "oq_items (fq_output_queue self) = x # q"
      by (cases "oq_items (fq_output_queue self)") auto
    have len: "oq_len (fq_output_queue self) > 0" using Suc.prems(1) q by (simp add: fifo_inv_def oq_ok_def)
    obtain s1 where s1: "log_queue_fifo_pop_head self = Inr (Some x, s1)" "oq_items (fq_output_queue s1) = q"
      "oq_items (fq_wait_queue s1) = oq_items (fq_wait_queue self)"
      "oq_items (fq_backlog_queue s1) = oq_items (fq_backlog_queue self) @ [x]" "queue_items self = x # queue_items s1"
      using q len by (auto simp: log_queue_fifo_pop_head_def refill_output_def Let_def queue_items_def)
    have "fifo_inv s1" using pop_head [OF Suc.prems(1)] s1(1) by auto
    from Suc.IH [OF this] Suc.prems(2) q s1 show ?case by auto
  qed
  then show ?thesis
    using assms(4) by (auto simp: log_queue_fifo_rewind_backlog_all_def queue_items_def)
qed

theorem fifo_rewind_all_reorders_witness:
  "\<exists>s1. pop_many 1 example_fifo = Inr (take 1 (queue_items example_fifo), s1) \<and>
     map (\<lambda>node. msg_id (qn_msg node)) (queue_items (log_queue_fifo_rewind_backlog_all s1)) = [1, 0]"
proof -
  have "length (oq_items (fq_output_queue example_fifo)) = 2" "oq_items (fq_backlog_queue example_fifo) = []"
    "map (\<lambda>node. msg_id (qn_msg node))
       (drop 1 (oq_items (fq_output_queue example_fifo)) @ take 1 (queue_items example_fifo)
         @ oq_items (fq_wait_queue example_fifo)) = [1, 0]"
    by (simp_all add: example_fifo_def queue_items_def log_queue_fifo_new_def Let_def example_msg_def)
  then show ?thesis
    using fifo_rewind_all_reorders [OF example_fifo_inv, of 1] by (auto simp del: map_append)
qed

lemma racy_queue_len:
  assumes "fifo_inv self" and "0 \<le> r" and "int (nfc (oq_items (fq_wait_queue self))) + r < 2 ^ 31"
  shows "log_queue_fifo_get_non_flow_controlled_length self r = int (nfc (oq_items (fq_wait_queue self))) + r"
  using assms by (simp add: log_queue_fifo_get_non_flow_controlled_length_def fifo_inv_def oq_ok_def to_gint_id)

lemma calculate_dropped:
  assumes inv: "fifo_inv self" and ok: "iq_ok iq" and few: "nfc (iq_items iq) < 2 ^ 16"
    and r: "0 \<le> r" "int (nfc (oq_items (fq_wait_queue self))) + r + 2 ^ 16 \<le> 2 ^ 31"
    and lim: "0 \<le> fq_log_fifo_size self" "fq_log_fifo_size self < 2 ^ 31"
  shows "max 0 (case log_queue_fifo_calculate_num_of_messages_to_drop self iq r of None \<Rightarrow> 0 | Some num \<Rightarrow> num)
    = max 0 (int (nfc (iq_items iq))
        - max 0 (fq_log_fifo_size self - (int (nfc (oq_items (fq_wait_queue self))) + r)))"
proof -
  let ?w = "int (nfc (oq_items (fq_wait_queue self)))" and ?n = "int (nfc (iq_items iq))"
  have "take_bit 16 (nfc (iq_items iq)) = nfc (iq_items iq)"
    using few by (intro take_bit_nat_eq_self) simp
  then have u: "int (unat (ucast (iq_non_flow_controlled_len iq) :: guint16)) = ?n"
    using ok by (simp add: iq_ok_def unsigned_ucast_eq)
  have ql: "log_queue_fifo_get_non_flow_controlled_length self r = ?w + r"
    using racy_queue_len [OF inv r(1)] r(2) by simp
  have g: "to_gint (?w + r + ?n) = ?w + r + ?n"
    "to_gint (fq_log_fifo_size self - (?w + r)) = fq_log_fifo_size self - (?w + r)"
    using few r lim by (auto intro!: to_gint_id)
  show ?thesis
    unfolding log_queue_fifo_calculate_num_of_messages_to_drop_def Let_def ql u g by simp
qed

text \<open>C15: The size limit.  Moving an input queue drops exactly the messages without flow control by which
  the length read by the producer exceeds \<^verbatim>\<open>log_fifo_size\<close>.  The consumer changes the counter of the
  output queue concurrently, so the producer reads some value \<open>r\<close> of it; the queue then holds at
  most \<^verbatim>\<open>log_fifo_size\<close> such messages, or as many as there were if there were more, plus what the
  output queue holds beyond \<open>r\<close>.  The input queue must hold fewer than \<open>2 ^ 16\<close> of them and the
  counters stay below \<open>2 ^ 31\<close>.\<close>

theorem fifo_limit_respected:
  assumes "fifo_inv self" and "i < length (fq_input_queues self)"
    and "nfc (iq_items (fq_input_queues self ! i)) < 2 ^ 16"
    and "0 \<le> r" and "int (nfc (oq_items (fq_wait_queue self))) + r + 2 ^ 16 \<le> 2 ^ 31"
    and "0 \<le> fq_log_fifo_size self" and "fq_log_fifo_size self < 2 ^ 31"
  shows "\<exists>dropped self'. log_queue_fifo_move_input_unlocked self i r = Inr (map MsgDropped dropped, self') \<and>
           int (length dropped) = max 0 (int (nfc (iq_items (fq_input_queues self ! i)))
             - max 0 (fq_log_fifo_size self - (int (nfc (oq_items (fq_wait_queue self))) + r))) \<and>
           int (nfc (queue_items self'))
             \<le> max (int (nfc (queue_items self))) (fq_log_fifo_size self)
               + max 0 (int (nfc (oq_items (fq_output_queue self))) - r)"
proof -
  let ?iq = "fq_input_queues self ! i"
  have ok: "iq_ok ?iq" using assms(1,2) by (simp add: fifo_inv_def)
  from move_input_unlocked [OF assms(1,2), of r] obtain kept dropped self' where s':
    "log_queue_fifo_move_input_unlocked self i r = Inr (map MsgDropped dropped, self')"
    "queue_items self' = queue_items self @ kept"
    "int (length dropped) = max 0 (case log_queue_fifo_calculate_num_of_messages_to_drop self ?iq r of
                               None \<Rightarrow> 0 | Some num \<Rightarrow> num)"
    "nfc (iq_items ?iq) = nfc kept + length dropped"
    by (elim exE conjE) (rule that; assumption)
  note d = s'(3) [unfolded calculate_dropped [OF assms(1) ok assms(3-7)]]
  have "int (nfc (queue_items self'))
      \<le> max (int (nfc (queue_items self))) (fq_log_fifo_size self)
        + max 0 (int (nfc (oq_items (fq_output_queue self))) - r)"
    using d s'(4) unfolding s'(2) by (simp add: queue_items_def)
  with s'(1) d show ?thesis by blast
qed

text \<open>A queue of limit 1 with one message in the output queue, put back by the consumer after the producer
  read the counter as 0, and two in the input queue: one is dropped, one more than the limit is kept.\<close>

definition example_race :: LogQueueFifo where
  "example_race =
     (let node = (\<lambda>i. \<lparr>qn_msg = example_msg i, qn_ack_needed = True, qn_flow_control_requested = False\<rparr>)
      in (log_queue_fifo_new 1 1 (example_queue 0 0) example_nodes)\<lparr>
       fq_output_queue := \<lparr>oq_items = [node 0], oq_len = 1, oq_non_flow_controlled_len = 1\<rparr>,
       fq_input_queues := [\<lparr>iq_items = [node 1, node 2], iq_cb_registered = True, iq_len = 2,
         iq_non_flow_controlled_len = 2, iq_first_message_recvd = \<lparr>ut_sec = 0, ut_usec = 0\<rparr>,
         iq_total_size = 200\<rparr>],
       fq_super := log_queue_memory_usage_add (log_queue_queued_messages_add (example_queue 0 0) 1) 100\<rparr>)"

theorem fifo_limit_respected_witness:
  "\<exists>dropped self'. log_queue_fifo_move_input_unlocked example_race 0 0 = Inr (map MsgDropped dropped, self') \<and>
     length dropped = 1 \<and> nfc (queue_items self') \<le> 2"
proof -
  have f: "nfc (queue_items example_race) = 1" "fq_log_fifo_size example_race = 1"
    "nfc (oq_items (fq_wait_queue example_race)) = 0" "nfc (oq_items (fq_output_queue example_race)) = 1"
    "nfc (iq_items (fq_input_queues example_race ! 0)) = 2" "length (fq_input_queues example_race) = 1"
    by (simp_all add: example_race_def queue_items_def log_queue_fifo_new_def Let_def)
  have "fifo_inv example_race"
    by (simp add: example_race_def fifo_inv_def log_queue_fifo_new_def Let_def oq_ok_def iq_ok_def
        queue_items_def size_all_items example_queue_def example_msg_def)
  from fifo_limit_respected [OF this, of 0 0] f show ?thesis by fastforce
qed

text \<open>C33: The bound on the input queue is needed: the source keeps its length in a
  \<^verbatim>\<open>guint16\<close>, so when the length read by the producer is not above the limit, an input queue that
  holds a multiple of \<open>2 ^ 16\<close> messages without flow control is moved completely, whatever the
  limit is.\<close>

theorem fifo_limit_truncated:
  assumes "fifo_inv self" and "i < length (fq_input_queues self)"
    and "nfc (iq_items (fq_input_queues self ! i)) mod 2 ^ 16 = 0"
    and "0 \<le> r" and "int (nfc (oq_items (fq_wait_queue self))) + r \<le> fq_log_fifo_size self"
    and "fq_log_fifo_size self < 2 ^ 31"
  shows "\<exists>self'. log_queue_fifo_move_input_unlocked self i r = Inr ([], self') \<and>
           int (nfc (queue_items self'))
             = int (nfc (queue_items self)) + int (nfc (iq_items (fq_input_queues self ! i)))"
proof -
  let ?iq = "fq_input_queues self ! i"
  have ok: "iq_ok ?iq" using assms(1,2) by (simp add: fifo_inv_def)
  have "take_bit 16 (nfc (iq_items ?iq)) = 0" using assms(3) by (simp add: take_bit_eq_mod)
  then have u: "int (unat (ucast (iq_non_flow_controlled_len ?iq) :: guint16)) = 0"
    using ok by (simp add: iq_ok_def unsigned_ucast_eq)
  have ql: "log_queue_fifo_get_non_flow_controlled_length self r = int (nfc (oq_items (fq_wait_queue self))) + r"
    using racy_queue_len [OF assms(1,4)] assms(5,6) by simp
  then have none: "log_queue_fifo_calculate_num_of_messages_to_drop self ?iq r = None"
    unfolding log_queue_fifo_calculate_num_of_messages_to_drop_def Let_def ql u
    using assms(4-6) by (simp add: to_gint_id)
  from move_input_unlocked [OF assms(1,2), of r] obtain kept dropped self' where s':
    "log_queue_fifo_move_input_unlocked self i r = Inr (map MsgDropped dropped, self')"
    "queue_items self' = queue_items self @ kept" "int (length dropped) = 0"
    "nfc (iq_items ?iq) = nfc kept + length dropped"
    unfolding none option.case max.idem by (elim exE conjE) (rule that; assumption)
  then show ?thesis by simp
qed

definition example_overfull :: LogQueueFifo where
  "example_overfull =
     (log_queue_fifo_new 10 1 (example_queue 0 0) example_nodes)\<lparr>
       fq_input_queues := [\<lparr>iq_items = replicate 65536
           \<lparr>qn_msg = example_msg 0, qn_ack_needed = True, qn_flow_control_requested = False\<rparr>,
         iq_cb_registered = True, iq_len = 65536, iq_non_flow_controlled_len = 65536,
         iq_first_message_recvd = \<lparr>ut_sec = 0, ut_usec = 0\<rparr>, iq_total_size = 6553600\<rparr>]\<rparr>"

lemma nfc_replicate: "\<not> qn_flow_control_requested node \<Longrightarrow> nfc (replicate n node) = n"
  by (induction n) simp_all

theorem fifo_limit_truncated_witness:
  "\<exists>self'. log_queue_fifo_move_input_unlocked example_overfull 0 0 = Inr ([], self') \<and>
     int (nfc (queue_items self')) = 65536 \<and> fq_log_fifo_size example_overfull = 10"
proof -
  let ?node = "\<lparr>qn_msg = example_msg 0, qn_ack_needed = True, qn_flow_control_requested = False\<rparr>"
  have n: "nfc (replicate k ?node) = k" for k by (simp add: nfc_replicate)
  have t: "total_msg_size (replicate k ?node) = int k * 100" for k
    by (induction k) (simp_all add: example_msg_def)
  have "iq_ok (fq_input_queues example_overfull ! 0)"
    unfolding iq_ok_def example_overfull_def by (simp add: n t)
  then have "fifo_inv example_overfull"
    by (simp add: example_overfull_def fifo_inv_def log_queue_fifo_new_def Let_def oq_ok_def
        queue_items_def size_all_items example_queue_def)
  moreover have "nfc (iq_items (fq_input_queues example_overfull ! 0)) = 65536"
    "length (fq_input_queues example_overfull) = 1" "nfc (queue_items example_overfull) = 0"
    "nfc (oq_items (fq_wait_queue example_overfull)) = 0"
    "fq_log_fifo_size example_overfull = 10"
    by (simp_all add: example_overfull_def n queue_items_def log_queue_fifo_new_def Let_def)
  ultimately show ?thesis using fifo_limit_truncated [of example_overfull 0 0] by auto
qed

end
