(* ===== verification/NV_Table.thy ===== *)
theory NV_Table
  imports Prelude
begin

text \<open>
  The name-value table of a log message, \<^verbatim>\<open>lib/logmsg/nvtable.c\<close> and \<^verbatim>\<open>nvtable.h\<close>.  The table is
  one block of memory: a header, the offsets of the static entries, an index of (handle, offset)
  pairs sorted by handle, and entries allocated downwards from the end of the block.  Offsets count
  from the end of the block, so an offset identifies an entry in every copy of the table.

  The memory of the entries is a map from offsets to entries.  Every store into an entry is checked
  against the length that was allocated for it, so a store that would run into the next entry is an
  \<open>InvalidAccess\<close> of the model; reading an offset that holds no entry is one, too.
\<close>

section \<open>Data\<close>

type_synonym bytes = "byte list"
type_synonym NVHandle = guint32
type_synonym NVType = byte

record NVIndexEntry =
  ie_handle :: NVHandle
  ie_ofs :: nat

record NVReferencedSlice =
  rs_handle :: NVHandle
  rs_ofs :: guint32
  rs_len :: guint32

text \<open>The union of \<^verbatim>\<open>vdirect\<close> and \<^verbatim>\<open>vindirect\<close>, discriminated by the \<^verbatim>\<open>indirect\<close> bit.\<close>

datatype NVData =
    VDirect bytes
  | VIndirect NVReferencedSlice

record NVEntry =
  ne_referenced :: bool
  ne_unset :: bool
  ne_type :: NVType
  ne_name :: bytes
  ne_alloc_len :: nat
  ne_data :: NVData

record NVTable =
  nt_size :: nat
  nt_used :: nat
  nt_static_entries :: "nat list"
  nt_index :: "NVIndexEntry list"
  nt_ref_cnt :: nat
  nt_borrowed :: bool
  nt_mem :: "nat \<rightharpoonup> NVEntry"

abbreviation NV_TABLE_MAX_BYTES :: nat where
  "NV_TABLE_MAX_BYTES \<equiv> 268435456"

abbreviation NV_TABLE_MIN_BYTES :: nat where
  "NV_TABLE_MIN_BYTES \<equiv> 128"

definition NV_TABLE_BOUND :: "nat \<Rightarrow> nat" where
  "NV_TABLE_BOUND x = (x + 3) div 4 * 4"

text \<open>Layout: the data of a direct entry starts at byte 12, \<^verbatim>\<open>sizeof(NVEntry)\<close> is 24,
  \<^verbatim>\<open>sizeof(NVIndexEntry)\<close> 8, \<^verbatim>\<open>sizeof(NVTable)\<close> 20 and the offset tables start at byte 16.\<close>

definition NV_ENTRY_DIRECT_SIZE :: "nat \<Rightarrow> nat \<Rightarrow> nat" where
  "NV_ENTRY_DIRECT_SIZE name_len value_len = value_len + 12 + name_len + 2"

definition NV_ENTRY_INDIRECT_SIZE :: "nat \<Rightarrow> nat" where
  "NV_ENTRY_INDIRECT_SIZE name_len = 24 + name_len + 1"

section \<open>Space\<close>

definition nv_table_get_alloc_size :: "nat \<Rightarrow> nat \<Rightarrow> nat \<Rightarrow> nat" where
  "nv_table_get_alloc_size num_static_entries index_size_hint init_length =
     (let size = NV_TABLE_BOUND init_length
                 + NV_TABLE_BOUND (20 + num_static_entries * 4 + index_size_hint * 8)
      in if size < NV_TABLE_MIN_BYTES then NV_TABLE_MIN_BYTES
         else if size > NV_TABLE_MAX_BYTES then NV_TABLE_MAX_BYTES
         else size)"

definition nv_table_get_ofs_table_top :: "NVTable \<Rightarrow> nat" where
  "nv_table_get_ofs_table_top self = 16 + length (nt_static_entries self) * 4 + length (nt_index self) * 8"

text \<open>The difference of two pointers, cast to the unsigned \<^verbatim>\<open>gsize\<close>.\<close>

definition nv_table_get_available :: "NVTable \<Rightarrow> nat" where
  "nv_table_get_available self =
     nat ((int (nt_size self) - int (nt_used self) - int (nv_table_get_ofs_table_top self)) mod 2 ^ 64)"

definition nv_table_alloc_check :: "NVTable \<Rightarrow> nat \<Rightarrow> bool" where
  "nv_table_alloc_check self alloc_size = (\<not> nv_table_get_available self < alloc_size)"

definition nv_table_get_next_size :: "NVTable \<Rightarrow> nat \<Rightarrow> nat" where
  "nv_table_get_next_size self requested_space =
     (let avail_size = nv_table_get_available self;
          additional_space = (if requested_space < 256 then 256 else requested_space)
      in if additional_space \<le> avail_size then nt_size self
         else let new_size = nt_size self + (additional_space - avail_size);
                  aligned = (if new_size > 8192 then (new_size + 4095) div 4096 * 4096
                             else if new_size > 4096 then (new_size + 2047) div 2048 * 2048
                             else if new_size > 1024 then (new_size + 1023) div 1024 * 1024
                             else 1024)
              in if aligned > NV_TABLE_MAX_BYTES then NV_TABLE_MAX_BYTES else aligned)"

definition nv_table_alloc_value :: "NVTable \<Rightarrow> nat \<Rightarrow> nat option \<times> NVTable" where
  "nv_table_alloc_value self requested =
     (let alloc_size = NV_TABLE_BOUND requested
      in if \<not> nv_table_alloc_check self alloc_size then (None, self)
         else let ofs = nt_used self + alloc_size
              in (Some ofs,
                  self\<lparr>nt_used := ofs,
                       nt_mem := (nt_mem self)(ofs \<mapsto>
                         \<lparr>ne_referenced = False, ne_unset = False, ne_type = 0, ne_name = [],
                          ne_alloc_len = alloc_size, ne_data = VDirect []\<rparr>)\<rparr>))"

section \<open>Lookup\<close>

definition nv_table_is_handle_static :: "NVTable \<Rightarrow> NVHandle \<Rightarrow> bool" where
  "nv_table_is_handle_static self handle = (unat handle \<le> length (nt_static_entries self))"

text \<open>The binary search of \<^verbatim>\<open>_find_index_entry\<close>.  The result is the position of the handle, if there
  is one, and the position where it is or has to be inserted.\<close>

function find_index_loop :: "NVIndexEntry list \<Rightarrow> NVHandle \<Rightarrow> int \<Rightarrow> int \<Rightarrow> nat option \<times> int" where
  "find_index_loop index_table handle l h =
     (if l \<le> h then
        let m = (l + h) div 2;
            mv = ie_handle (index_table ! nat m)
        in if mv = handle then (Some (nat m), m)
           else if mv > handle then find_index_loop index_table handle l (m - 1)
           else find_index_loop index_table handle (m + 1) h
      else (None, l))"
  by pat_completeness auto
termination
  by (relation "measure (\<lambda>(t, handle, l, h). nat (h + 1 - l))") auto

declare find_index_loop.simps [simp del]

definition find_index_entry :: "NVIndexEntry list \<Rightarrow> NVHandle \<Rightarrow> (nat option \<times> nat) outcome" where
  "find_index_entry index_table handle =
     (let index_size = length index_table
      in if index_size > 0 \<and> ie_handle (index_table ! (index_size - 1)) < handle
         then Inr (None, index_size)
         else case find_index_loop index_table handle 0 (int index_size - 1) of
                (Some m, slot) \<Rightarrow> Inr (Some m, nat slot)
              | (None, slot) \<Rightarrow> g_assert (slot \<le> int index_size) (Inr (None, nat slot)))"

definition nv_table_get_entry_at_ofs :: "nat \<Rightarrow> nat option" where
  "nv_table_get_entry_at_ofs ofs = (if ofs = 0 then None else Some ofs)"

definition nv_table_get_entry_slow ::
  "NVTable \<Rightarrow> NVHandle \<Rightarrow> (nat option \<times> nat option \<times> nat option) outcome" where
  "nv_table_get_entry_slow self handle =
     bindO (find_index_entry (nt_index self) handle) (\<lambda>(index_entry, index_slot).
       Inr (case index_entry of
              None \<Rightarrow> (None, None, Some index_slot)
            | Some m \<Rightarrow> (nv_table_get_entry_at_ofs (ie_ofs (nt_index self ! m)), Some m, Some index_slot)))"

text \<open>The entry (its offset), \<^verbatim>\<open>index_entry\<close> and \<^verbatim>\<open>index_slot\<close>.\<close>

definition nv_table_get_entry ::
  "NVTable \<Rightarrow> NVHandle \<Rightarrow> (nat option \<times> nat option \<times> nat option) outcome" where
  "nv_table_get_entry self handle =
     (if handle = 0 then Inr (None, None, None)
      else if nv_table_is_handle_static self handle
      then Inr (nv_table_get_entry_at_ofs (nt_static_entries self ! (unat handle - 1)), None, None)
      else nv_table_get_entry_slow self handle)"

definition deref :: "NVTable \<Rightarrow> nat \<Rightarrow> NVEntry outcome" where
  "deref self ofs = (case nt_mem self ofs of None \<Rightarrow> Inl InvalidAccess | Some entry \<Rightarrow> Inr entry)"

definition nv_table_is_value_set :: "NVTable \<Rightarrow> NVHandle \<Rightarrow> bool outcome" where
  "nv_table_is_value_set self handle =
     bindO (nv_table_get_entry self handle) (\<lambda>(entry, _). Inr (entry \<noteq> None))"

text \<open>Resolving an indirect entry looks the referenced handle up again, with \<^verbatim>\<open>get_value\<close> the recursive
  call.  A negative length (the 32 bit sum of offset and length wrapped) is an \<open>InvalidAccess\<close>.\<close>

definition resolve_slice ::
  "(NVHandle \<Rightarrow> (bytes \<times> NVType) option outcome) \<Rightarrow> NVReferencedSlice \<Rightarrow> bytes outcome" where
  "resolve_slice get_value ref =
     bindO (get_value (rs_handle ref)) (\<lambda>referenced.
       case referenced of
         None \<Rightarrow> Inr []
       | Some (referenced_value, _) \<Rightarrow>
           if unat (rs_ofs ref) > length referenced_value then Inr []
           else let len = min (int (unat (rs_ofs ref + rs_len ref))) (int (length referenced_value))
                          - int (unat (rs_ofs ref))
                in if len < 0 then Inl InvalidAccess
                   else Inr (take (nat len) (drop (unat (rs_ofs ref)) referenced_value)))"

fun get_value_fuel :: "nat \<Rightarrow> NVTable \<Rightarrow> NVHandle \<Rightarrow> (bytes \<times> NVType) option outcome" where
  "get_value_fuel 0 self handle = Inl RecursionLimit"
| "get_value_fuel (Suc n) self handle =
     bindO (nv_table_get_entry self handle) (\<lambda>(entry, _).
       case entry of
         None \<Rightarrow> Inr None
       | Some ofs \<Rightarrow>
           bindO (deref self ofs) (\<lambda>entry.
             if ne_unset entry then Inr None
             else case ne_data entry of
                    VDirect value \<Rightarrow> Inr (Some (value, ne_type entry))
                  | VIndirect ref \<Rightarrow>
                      bindO (resolve_slice (get_value_fuel n self) ref) (\<lambda>value.
                        Inr (Some (value, ne_type entry)))))"

text \<open>One indirection is all the table creates, so two levels are enough.\<close>

definition nv_table_get_value :: "NVTable \<Rightarrow> NVHandle \<Rightarrow> (bytes \<times> NVType) option outcome" where
  "nv_table_get_value = get_value_fuel 2"

definition nv_table_resolve_indirect :: "NVTable \<Rightarrow> NVEntry \<Rightarrow> bytes outcome" where
  "nv_table_resolve_indirect self entry =
     (case ne_data entry of
        VDirect _ \<Rightarrow> Inl AssertionFailed
      | VIndirect ref \<Rightarrow> resolve_slice (nv_table_get_value self) ref)"

definition nv_table_resolve_direct :: "NVEntry \<Rightarrow> bytes outcome" where
  "nv_table_resolve_direct entry =
     (case ne_data entry of VDirect value \<Rightarrow> Inr value | VIndirect _ \<Rightarrow> Inl AssertionFailed)"

definition nv_table_resolve_entry :: "NVTable \<Rightarrow> NVEntry \<Rightarrow> (bytes \<times> NVType) outcome" where
  "nv_table_resolve_entry self entry =
     (if ne_unset entry then Inr ([], 0)
      else bindO (case ne_data entry of
                    VIndirect _ \<Rightarrow> nv_table_resolve_indirect self entry
                  | VDirect _ \<Rightarrow> nv_table_resolve_direct entry)
             (\<lambda>value. Inr (value, ne_type entry)))"


section \<open>Stores\<close>

text \<open>\<^verbatim>\<open>_alloc_index_entry\<close>: success, the index entry to use, the table.  \<^verbatim>\<open>index_size\<close> is a
  \<^verbatim>\<open>guint16\<close>: what lies beyond it is no longer part of the index.\<close>

definition alloc_index_entry ::
  "NVTable \<Rightarrow> NVHandle \<Rightarrow> nat option \<Rightarrow> nat option \<Rightarrow> (bool \<times> nat option \<times> NVTable) outcome" where
  "alloc_index_entry self handle index_entry index_slot =
     (if index_entry = None \<and> \<not> nv_table_is_handle_static self handle then
        if \<not> nv_table_alloc_check self 8 then Inr (False, None, self)
        else case index_slot of
               None \<Rightarrow> Inl NullDereference
             | Some slot \<Rightarrow>
                 Inr (True, Some slot,
                      self\<lparr>nt_index :=
                        take ((length (nt_index self) + 1) mod 2 ^ 16)
                          (take slot (nt_index self) @ [\<lparr>ie_handle = handle, ie_ofs = 0\<rparr>]
                           @ drop slot (nt_index self))\<rparr>)
      else Inr (True, index_entry, self))"

text \<open>For a dynamic handle the store goes through the \<^verbatim>\<open>index_entry\<close> pointer.\<close>

definition nv_table_set_table_entry ::
  "NVTable \<Rightarrow> NVHandle \<Rightarrow> nat \<Rightarrow> nat option \<Rightarrow> NVTable outcome" where
  "nv_table_set_table_entry self handle ofs index_entry =
     (if nv_table_is_handle_static self handle then
        if handle = 0 then Inl InvalidAccess
        else Inr (self\<lparr>nt_static_entries := (nt_static_entries self)[unat handle - 1 := ofs]\<rparr>)
      else case index_entry of
             None \<Rightarrow> Inl NullDereference
           | Some i \<Rightarrow> Inr (self\<lparr>nt_index := (nt_index self)[i := \<lparr>ie_handle = handle, ie_ofs = ofs\<rparr>]\<rparr>))"

definition set_entry :: "NVTable \<Rightarrow> nat \<Rightarrow> NVEntry \<Rightarrow> NVTable" where
  "set_entry self ofs entry = self\<lparr>nt_mem := (nt_mem self)(ofs \<mapsto> entry)\<rparr>"

text \<open>Storing name and value into an entry, within the space of the entry.\<close>

definition store_direct :: "NVEntry \<Rightarrow> bytes \<Rightarrow> bytes \<Rightarrow> NVEntry outcome" where
  "store_direct entry name value =
     (if NV_ENTRY_DIRECT_SIZE (length name) (length value) \<le> ne_alloc_len entry
      then Inr (entry\<lparr>ne_name := name, ne_data := VDirect value\<rparr>)
      else Inl InvalidAccess)"

definition store_indirect :: "NVEntry \<Rightarrow> bytes \<Rightarrow> NVReferencedSlice \<Rightarrow> NVEntry outcome" where
  "store_indirect entry name ref =
     (if NV_ENTRY_INDIRECT_SIZE (length name) \<le> ne_alloc_len entry
      then Inr (entry\<lparr>ne_name := name, ne_data := VIndirect ref\<rparr>)
      else Inl InvalidAccess)"

definition overwrite_with_a_direct_entry ::
  "NVTable \<Rightarrow> NVHandle \<Rightarrow> nat \<Rightarrow> bytes \<Rightarrow> bytes \<Rightarrow> NVType \<Rightarrow> NVTable outcome" where
  "overwrite_with_a_direct_entry self handle ofs name value type =
     bindO (deref self ofs) (\<lambda>entry.
       bindO (case ne_data entry of
                VDirect _ \<Rightarrow> store_direct entry (ne_name entry) value
              | VIndirect _ \<Rightarrow>
                  if \<not> nv_table_is_handle_static self handle
                  then g_assert (length (ne_name entry) = length name) (store_direct entry name value)
                  else if ne_name entry = [] then store_direct entry [] value
                  else Inl InvalidAccess)
         (\<lambda>entry. Inr (set_entry self ofs (entry\<lparr>ne_unset := False, ne_type := type\<rparr>))))"

section \<open>Iteration\<close>

text \<open>
  \<^verbatim>\<open>nv_table_foreach_entry\<close> walks over the static entries and then over the index.  The callback may
  change the table, so each step looks at the table as it is then: \<open>table_of\<close> reads it from the state.
  There are at most 255 static entries (a \<^verbatim>\<open>guint8\<close>) and 65535 index entries (a \<^verbatim>\<open>guint16\<close>), which
  bounds the two loops.
\<close>

definition static_slot :: "NVTable \<Rightarrow> nat \<Rightarrow> (NVHandle \<times> nat) option" where
  "static_slot self i =
     (if i < length (nt_static_entries self) then Some (of_nat (i + 1), nt_static_entries self ! i) else None)"

definition index_slot_at :: "NVTable \<Rightarrow> nat \<Rightarrow> (NVHandle \<times> nat) option" where
  "index_slot_at self i =
     (if i < length (nt_index self) then Some (ie_handle (nt_index self ! i), ie_ofs (nt_index self ! i))
      else None)"

fun foreach_slots ::
  "(NVTable \<Rightarrow> nat \<Rightarrow> (NVHandle \<times> nat) option) \<Rightarrow> ('s \<Rightarrow> NVTable) \<Rightarrow>
   (NVHandle \<Rightarrow> nat \<Rightarrow> 's \<Rightarrow> (bool \<times> 's) outcome) \<Rightarrow> nat \<Rightarrow> nat \<Rightarrow> 's \<Rightarrow> (bool \<times> 's) outcome" where
  "foreach_slots slot table_of func 0 i s = Inl RecursionLimit"
| "foreach_slots slot table_of func (Suc n) i s =
     (case slot (table_of s) i of
        None \<Rightarrow> Inr (False, s)
      | Some (handle, ofs) \<Rightarrow>
          (case nv_table_get_entry_at_ofs ofs of
             None \<Rightarrow> foreach_slots slot table_of func n (Suc i) s
           | Some entry \<Rightarrow>
               bindO (func handle entry s) (\<lambda>(stop, s').
                 if stop then Inr (True, s') else foreach_slots slot table_of func n (Suc i) s')))"

definition nv_table_foreach_entry ::
  "('s \<Rightarrow> NVTable) \<Rightarrow> (NVHandle \<Rightarrow> nat \<Rightarrow> 's \<Rightarrow> (bool \<times> 's) outcome) \<Rightarrow> 's \<Rightarrow> (bool \<times> 's) outcome" where
  "nv_table_foreach_entry table_of func s =
     bindO (foreach_slots static_slot table_of func 256 0 s) (\<lambda>(stop, s').
       if stop then Inr (True, s') else foreach_slots index_slot_at table_of func 65536 0 s')"

section \<open>Adding and removing values\<close>

text \<open>The out parameters of a store: the return value, \<^verbatim>\<open>*new_entry\<close> (kept \<open>False\<close> when the caller
  passes \<^verbatim>\<open>NULL\<close>), \<^verbatim>\<open>*memory_needed\<close> and the table.\<close>

type_synonym store_result = "bool \<times> bool \<times> guint32 \<times> NVTable"

type_synonym add_value_fun =
  "NVTable \<Rightarrow> NVHandle \<Rightarrow> bytes \<Rightarrow> bytes \<Rightarrow> NVType \<Rightarrow> bool \<Rightarrow> guint32 \<Rightarrow> store_result outcome"

definition make_entry_direct ::
  "add_value_fun \<Rightarrow> NVHandle \<Rightarrow> NVHandle \<Rightarrow> nat \<Rightarrow> NVTable \<times> guint32 \<Rightarrow> (bool \<times> NVTable \<times> guint32) outcome" where
  "make_entry_direct add_value ref_handle handle ofs = (\<lambda>(self, memory_needed).
     bindO (deref self ofs) (\<lambda>entry.
       case ne_data entry of
         VDirect _ \<Rightarrow> Inr (False, self, memory_needed)
       | VIndirect ref \<Rightarrow>
           if rs_handle ref = ref_handle then
             bindO (nv_table_resolve_indirect self entry) (\<lambda>value.
             bindO (add_value self handle (ne_name entry) value (ne_type entry) False 0)
               (\<lambda>(ok, _, mem, self').
                 Inr (False, self', if ok then memory_needed else memory_needed + mem)))
           else Inr (False, self, memory_needed)))"

definition nv_table_break_references_to_entry ::
  "add_value_fun \<Rightarrow> NVTable \<Rightarrow> NVHandle \<Rightarrow> nat option \<Rightarrow> guint32 \<Rightarrow> (bool \<times> guint32 \<times> NVTable) outcome" where
  "nv_table_break_references_to_entry add_value self handle entry memory_needed =
     (case entry of
        None \<Rightarrow> Inr (True, memory_needed, self)
      | Some ofs \<Rightarrow>
          bindO (deref self ofs) (\<lambda>e.
            case ne_data e of
              VIndirect _ \<Rightarrow> Inr (True, memory_needed, self)
            | VDirect _ \<Rightarrow>
                if ne_referenced e then
                  bindO (nv_table_foreach_entry fst (make_entry_direct add_value handle) (self, 0))
                    (\<lambda>(_, self', mem). Inr (mem = 0, memory_needed + mem, self'))
                else Inr (True, memory_needed, self)))"

text \<open>What \<^verbatim>\<open>nv_table_add_value\<close> does once the references to the entry are broken.\<close>

definition add_value_new_entry ::
  "NVTable \<Rightarrow> NVHandle \<Rightarrow> bytes \<Rightarrow> bytes \<Rightarrow> NVType \<Rightarrow> bool \<Rightarrow> nat option \<Rightarrow> nat option \<Rightarrow>
   guint32 \<Rightarrow> guint32 \<Rightarrow> store_result outcome" where
  "add_value_new_entry self handle name value type is_new index_entry index_slot mem memory_needed =
     bindO (alloc_index_entry self handle index_entry index_slot) (\<lambda>(ok, index_entry, self).
       if \<not> ok then Inr (False, is_new, memory_needed + mem, self)
       else let name = (if nv_table_is_handle_static self handle then [] else name)
            in case nv_table_alloc_value self (NV_ENTRY_DIRECT_SIZE (length name) (length value)) of
                 (None, self) \<Rightarrow> Inr (False, is_new, memory_needed + mem, self)
               | (Some ofs, self) \<Rightarrow>
                   bindO (deref self ofs) (\<lambda>entry.
                   bindO (store_direct (entry\<lparr>ne_type := type\<rparr>) name value) (\<lambda>entry.
                   bindO (nv_table_set_table_entry (set_entry self ofs entry) handle ofs index_entry) (\<lambda>self.
                     Inr (True, is_new, memory_needed, self)))))"

definition add_value_store ::
  "NVTable \<Rightarrow> NVHandle \<Rightarrow> bytes \<Rightarrow> bytes \<Rightarrow> NVType \<Rightarrow> bool \<Rightarrow> nat option \<Rightarrow> nat option \<Rightarrow> nat option \<Rightarrow>
   guint32 \<Rightarrow> guint32 \<Rightarrow> store_result outcome" where
  "add_value_store self handle name value type want_new entry index_entry index_slot mem memory_needed =
     (case entry of
        None \<Rightarrow> add_value_new_entry self handle name value type want_new index_entry index_slot mem memory_needed
      | Some ofs \<Rightarrow>
          bindO (deref self ofs) (\<lambda>e.
            if NV_ENTRY_DIRECT_SIZE (length (ne_name e)) (length value) \<le> ne_alloc_len e
            then bindO (overwrite_with_a_direct_entry self handle ofs name value type) (\<lambda>self.
                   Inr (True, False, memory_needed, self))
            else add_value_new_entry self handle name value type False index_entry index_slot mem memory_needed))"

text \<open>The body of \<^verbatim>\<open>nv_table_add_value\<close>, with the recursive call made by the breaking of references
  as a parameter.\<close>

definition add_value_body :: "add_value_fun \<Rightarrow> add_value_fun" where
  "add_value_body add_value self handle name value type want_new memory_needed =
     (let value = take NV_TABLE_MAX_BYTES value;
          mem = of_nat (NV_TABLE_BOUND (NV_ENTRY_DIRECT_SIZE (length name) (length value)) + 8)
      in bindO (nv_table_get_entry self handle) (\<lambda>(entry, index_entry, index_slot).
         bindO (nv_table_break_references_to_entry add_value self handle entry mem) (\<lambda>(ok, mem, self).
           if \<not> ok then Inr (False, False, memory_needed + mem, self)
           else add_value_store self handle name value type want_new entry index_entry index_slot
                  mem memory_needed)))"

fun add_value_fuel :: "nat \<Rightarrow> add_value_fun" where
  "add_value_fuel 0 self handle name value type want_new memory_needed = Inl RecursionLimit"
| "add_value_fuel (Suc n) self handle name value type want_new memory_needed =
     add_value_body (add_value_fuel n) self handle name value type want_new memory_needed"

text \<open>Breaking references rewrites indirect entries, which are never referenced themselves: the
  recursion ends at the second level.\<close>

definition nv_table_add_value :: add_value_fun where
  "nv_table_add_value = add_value_fuel 2"

definition nv_table_unset_value :: "NVTable \<Rightarrow> NVHandle \<Rightarrow> guint32 \<Rightarrow> (bool \<times> guint32 \<times> NVTable) outcome" where
  "nv_table_unset_value self handle memory_needed =
     bindO (nv_table_get_entry self handle) (\<lambda>(entry, index_entry, _).
       case entry of
         None \<Rightarrow> Inr (True, memory_needed, self)
       | Some ofs \<Rightarrow>
           bindO (nv_table_break_references_to_entry nv_table_add_value self handle entry 0) (\<lambda>(ok, mem, self).
             if \<not> ok then Inr (False, memory_needed + mem, self)
             else bindO (deref self ofs) (\<lambda>e.
               let data = (case ne_data e of
                             VIndirect ref \<Rightarrow> VIndirect (ref\<lparr>rs_ofs := 0, rs_len := 0\<rparr>)
                           | VDirect _ \<Rightarrow> VDirect [])
               in Inr (True, memory_needed, set_entry self ofs (e\<lparr>ne_unset := True, ne_data := data\<rparr>)))))"

section \<open>Indirect values\<close>

definition nv_table_set_indirect_entry ::
  "NVTable \<Rightarrow> NVHandle \<Rightarrow> nat \<Rightarrow> bytes \<Rightarrow> NVReferencedSlice \<Rightarrow> NVType \<Rightarrow> NVTable outcome" where
  "nv_table_set_indirect_entry self handle ofs name ref type =
     bindO (deref self ofs) (\<lambda>entry.
       let entry = entry\<lparr>ne_type := type, ne_unset := False\<rparr>
       in bindO (case ne_data entry of
                   VIndirect _ \<Rightarrow> store_indirect entry (ne_name entry) ref
                 | VDirect _ \<Rightarrow>
                     store_indirect entry (if nv_table_is_handle_static self handle then [] else name) ref)
            (\<lambda>entry. Inr (set_entry self ofs entry)))"

definition mark_referenced :: "NVTable \<Rightarrow> nat \<Rightarrow> NVTable outcome" where
  "mark_referenced self ofs = bindO (deref self ofs) (\<lambda>e. Inr (set_entry self ofs (e\<lparr>ne_referenced := True\<rparr>)))"

text \<open>\<^verbatim>\<open>ref_entry\<close> may be \<^verbatim>\<open>NULL\<close> here, when a value that does not exist is set to a slice of itself.\<close>

definition nv_table_copy_referenced_value ::
  "NVTable \<Rightarrow> nat option \<Rightarrow> NVHandle \<Rightarrow> bytes \<Rightarrow> NVReferencedSlice \<Rightarrow> NVType \<Rightarrow> bool \<Rightarrow> guint32 \<Rightarrow>
   store_result outcome" where
  "nv_table_copy_referenced_value self ref_entry handle name ref type want_new memory_needed =
     (case ref_entry of
        None \<Rightarrow> Inl NullDereference
      | Some ref_ofs \<Rightarrow>
          bindO (deref self ref_ofs) (\<lambda>e.
          bindO (nv_table_resolve_entry self e) (\<lambda>(ref_value, _).
            let (ofs, len) = (if unat (rs_ofs ref) > length ref_value then (0, 0)
                              else (int (unat (rs_ofs ref)),
                                    min (int (unat (rs_ofs ref + rs_len ref))) (int (length ref_value))
                                    - int (unat (rs_ofs ref))))
            in if len < 0 then Inl InvalidAccess
               else nv_table_add_value self handle name (take (nat len) (drop (nat ofs) ref_value)) type
                      want_new memory_needed)))"

definition add_indirect_new_entry ::
  "NVTable \<Rightarrow> NVHandle \<Rightarrow> bytes \<Rightarrow> NVReferencedSlice \<Rightarrow> NVType \<Rightarrow> bool \<Rightarrow> nat option \<Rightarrow> nat option \<Rightarrow> nat \<Rightarrow>
   guint32 \<Rightarrow> guint32 \<Rightarrow> store_result outcome" where
  "add_indirect_new_entry self handle name ref type is_new index_entry index_slot ref_ofs mem memory_needed =
     bindO (alloc_index_entry self handle index_entry index_slot) (\<lambda>(ok, index_entry, self).
       if \<not> ok then Inr (False, is_new, memory_needed + mem, self)
       else case nv_table_alloc_value self (NV_ENTRY_INDIRECT_SIZE (length name)) of
              (None, self) \<Rightarrow> Inr (False, is_new, memory_needed + mem, self)
            | (Some ofs, self) \<Rightarrow>
                bindO (nv_table_set_indirect_entry self handle ofs name ref type) (\<lambda>self.
                bindO (mark_referenced self ref_ofs) (\<lambda>self.
                bindO (nv_table_set_table_entry self handle ofs index_entry) (\<lambda>self.
                  Inr (True, is_new, memory_needed, self)))))"

definition nv_table_add_value_indirect ::
  "NVTable \<Rightarrow> NVHandle \<Rightarrow> bytes \<Rightarrow> NVReferencedSlice \<Rightarrow> NVType \<Rightarrow> bool \<Rightarrow> guint32 \<Rightarrow> store_result outcome" where
  "nv_table_add_value_indirect self handle name ref type want_new memory_needed =
     bindO (nv_table_get_entry self (rs_handle ref)) (\<lambda>(ref_entry, _).
     bindO (case ref_entry of
              None \<Rightarrow> Inr False
            | Some ref_ofs \<Rightarrow> bindO (deref self ref_ofs) (\<lambda>e. Inr (case ne_data e of VIndirect _ \<Rightarrow> True | VDirect _ \<Rightarrow> False)))
       (\<lambda>ref_indirect.
       if ref_indirect \<or> handle = rs_handle ref
       then nv_table_copy_referenced_value self ref_entry handle name ref type want_new memory_needed
       else
         let mem = of_nat (NV_TABLE_BOUND (NV_ENTRY_INDIRECT_SIZE (length name)) + 8)
         in bindO (nv_table_get_entry self handle) (\<lambda>(entry, index_entry, index_slot).
            case ref_entry of
              None \<Rightarrow> Inr (True, False, memory_needed, self)
            | Some ref_ofs \<Rightarrow>
                if entry = None \<and> \<not> want_new \<and> rs_len ref = 0 then Inr (True, False, memory_needed, self)
                else
                  bindO (nv_table_break_references_to_entry nv_table_add_value self handle entry mem)
                    (\<lambda>(ok, mem, self).
                    if \<not> ok then Inr (False, False, memory_needed + mem, self)
                    else case entry of
                           None \<Rightarrow>
                             add_indirect_new_entry self handle name ref type want_new index_entry index_slot
                               ref_ofs mem memory_needed
                         | Some ofs \<Rightarrow>
                             bindO (deref self ofs) (\<lambda>e.
                               if NV_ENTRY_INDIRECT_SIZE (length name) \<le> ne_alloc_len e
                               then bindO (nv_table_set_indirect_entry self handle ofs name ref type) (\<lambda>self.
                                    bindO (mark_referenced self ref_ofs) (\<lambda>self.
                                      Inr (True, False, memory_needed, self)))
                               else add_indirect_new_entry self handle name ref type False index_entry index_slot
                                      ref_ofs mem memory_needed)))))"


section \<open>Visiting the values\<close>

text \<open>\<^verbatim>\<open>func\<close> gets the handle, the name from the registry, the value and the type.\<close>

definition nv_table_call_foreach ::
  "NVTable \<Rightarrow> (NVHandle \<Rightarrow> bytes option) \<Rightarrow>
   (NVHandle \<Rightarrow> bytes option \<Rightarrow> bytes \<Rightarrow> NVType \<Rightarrow> 's \<Rightarrow> bool \<times> 's) \<Rightarrow> NVHandle \<Rightarrow> nat \<Rightarrow> 's \<Rightarrow>
   (bool \<times> 's) outcome" where
  "nv_table_call_foreach self handle_name func handle ofs s =
     bindO (deref self ofs) (\<lambda>entry.
       if ne_unset entry then Inr (False, s)
       else bindO (nv_table_resolve_entry self entry) (\<lambda>(value, type).
              Inr (func handle (handle_name handle) value type s)))"

definition nv_table_foreach ::
  "NVTable \<Rightarrow> (NVHandle \<Rightarrow> bytes option) \<Rightarrow>
   (NVHandle \<Rightarrow> bytes option \<Rightarrow> bytes \<Rightarrow> NVType \<Rightarrow> 's \<Rightarrow> bool \<times> 's) \<Rightarrow> 's \<Rightarrow> (bool \<times> 's) outcome" where
  "nv_table_foreach self handle_name func s =
     nv_table_foreach_entry (\<lambda>_. self) (nv_table_call_foreach self handle_name func) s"

section \<open>Creation, growth and copies\<close>

definition nv_table_init :: "nat \<Rightarrow> nat \<Rightarrow> NVTable outcome" where
  "nv_table_init alloc_length num_static_entries =
     g_assert (alloc_length \<le> NV_TABLE_MAX_BYTES)
       (Inr \<lparr>nt_size = alloc_length, nt_used = 0, nt_static_entries = replicate num_static_entries 0,
             nt_index = [], nt_ref_cnt = 1, nt_borrowed = False, nt_mem = (\<lambda>_. None)\<rparr>)"

definition nv_table_new :: "nat \<Rightarrow> nat \<Rightarrow> nat \<Rightarrow> NVTable outcome" where
  "nv_table_new num_static_entries index_size_hint init_length =
     nv_table_init (nv_table_get_alloc_size num_static_entries index_size_hint init_length) num_static_entries"

definition nv_table_init_borrowed :: "nat \<Rightarrow> nat \<Rightarrow> NVTable outcome" where
  "nv_table_init_borrowed space_len num_static_entries =
     (let space_len = space_len div 4 * 4
      in g_assert (space_len > num_static_entries * 4 + 20)
           (bindO (nv_table_init (NV_TABLE_BOUND space_len) num_static_entries) (\<lambda>self.
              Inr (self\<lparr>nt_borrowed := True\<rparr>))))"

text \<open>\<^verbatim>\<open>ref_cnt\<close> has 15 bits.  \<open>nv_table_unref\<close> returns whether the block is freed.\<close>

definition nv_table_ref :: "NVTable \<Rightarrow> NVTable" where
  "nv_table_ref self = self\<lparr>nt_ref_cnt := (nt_ref_cnt self + 1) mod 2 ^ 15\<rparr>"

definition nv_table_unref :: "NVTable \<Rightarrow> bool \<times> NVTable" where
  "nv_table_unref self =
     (let self = self\<lparr>nt_ref_cnt := (nt_ref_cnt self + 2 ^ 15 - 1) mod 2 ^ 15\<rparr>
      in (nt_ref_cnt self = 0 \<and> \<not> nt_borrowed self, self))"

text \<open>The new table, and what became of the old block: \<open>None\<close> if it was resized in place (its memory is
  gone), otherwise the unreferenced old table.\<close>

definition nv_table_realloc :: "NVTable \<Rightarrow> nat \<Rightarrow> bool \<times> NVTable \<times> (bool \<times> NVTable) option" where
  "nv_table_realloc self memory_needed =
     (let new_size = nv_table_get_next_size self memory_needed
      in if new_size = nt_size self then (False, self, None)
         else if nt_ref_cnt self = 1 \<and> \<not> nt_borrowed self
         then (True, self\<lparr>nt_size := new_size\<rparr>, None)
         else (True, self\<lparr>nt_ref_cnt := 1, nt_borrowed := False, nt_size := new_size\<rparr>,
               Some (nv_table_unref self)))"

definition nv_table_clone :: "NVTable \<Rightarrow> nat \<Rightarrow> NVTable" where
  "nv_table_clone self memory_needed =
     self\<lparr>nt_size := nv_table_get_next_size self (NV_TABLE_BOUND memory_needed + 24 + 8),
          nt_ref_cnt := 1, nt_borrowed := False\<rparr>"

section \<open>Compaction\<close>

definition compact_foreach_entry ::
  "NVTable \<Rightarrow> NVHandle \<Rightarrow> nat \<Rightarrow> NVTable \<Rightarrow> (bool \<times> NVTable) outcome" where
  "compact_foreach_entry old handle ofs new =
     bindO (deref old ofs) (\<lambda>entry.
       if ne_unset entry then Inr (False, new)
       else case ne_data entry of
              VDirect _ \<Rightarrow>
                bindO (nv_table_resolve_direct entry) (\<lambda>value.
                bindO (nv_table_add_value new handle (ne_name entry) value (ne_type entry) False 0)
                  (\<lambda>(ok, _, _, new). g_assert ok (Inr (False, new))))
            | VIndirect ref \<Rightarrow>
                bindO (nv_table_add_value_indirect new handle (ne_name entry) ref (ne_type entry) False 0)
                  (\<lambda>(ok, _, _, new). g_assert ok (Inr (False, new))))"

definition nv_table_compact :: "NVTable \<Rightarrow> NVTable outcome" where
  "nv_table_compact self =
     bindO (nv_table_init (nt_size self) (length (nt_static_entries self))) (\<lambda>new.
     bindO (nv_table_foreach_entry (\<lambda>_. self) (compact_foreach_entry self) new) (\<lambda>(_, new). Inr new))"

end
