(* ===== verification/NV_Table_Store.thy ===== *)
theory NV_Table_Store
  imports NV_Table
begin

text \<open>
  The invariant of the name-value table and the effect of its stores: which entry a handle has, which
  value it resolves to, and what the allocation of entries and index slots leaves alone.
\<close>

section \<open>The index\<close>

abbreviation index_handles :: "NVIndexEntry list \<Rightarrow> NVHandle list" where
  "index_handles \<equiv> map ie_handle"

definition index_sorted :: "NVIndexEntry list \<Rightarrow> bool" where
  "index_sorted idx = sorted_wrt (<) (index_handles idx)"

lemma index_sorted_nth:
  assumes "index_sorted idx" "i < j" "j < length idx"
  shows "ie_handle (idx ! i) < ie_handle (idx ! j)"
  using assms by (simp add: index_sorted_def sorted_wrt_iff_nth_less)

text \<open>A result of the search: a position of the handle, or the position it has to be inserted at.\<close>

definition search_result :: "NVIndexEntry list \<Rightarrow> NVHandle \<Rightarrow> nat option \<Rightarrow> nat \<Rightarrow> bool" where
  "search_result idx h pos slot =
     (slot \<le> length idx \<and>
      (case pos of
         Some m \<Rightarrow> m = slot \<and> m < length idx \<and> ie_handle (idx ! m) = h
       | None \<Rightarrow> (\<forall>i < slot. ie_handle (idx ! i) < h) \<and>
                 (\<forall>i. slot \<le> i \<longrightarrow> i < length idx \<longrightarrow> h < ie_handle (idx ! i))))"

lemma find_index_loop:
  assumes "index_sorted idx" "0 \<le> l" "h < int (length idx)" "l \<le> h + 1"
    and "\<forall>i < nat l. ie_handle (idx ! i) < x"
    and "\<forall>i. h < int i \<longrightarrow> i < length idx \<longrightarrow> x < ie_handle (idx ! i)"
  shows "\<exists>pos slot. find_index_loop idx x l h = (pos, int slot) \<and> search_result idx x pos slot"
  using assms
proof (induction idx x l h rule: find_index_loop.induct)
  case (1 idx x l h)
  let ?m = "(l + h) div 2"
  show ?case
  proof (cases "l \<le> h")
    case False
    with "1.prems" have "nat l \<le> length idx" "\<forall>i. nat l \<le> i \<longrightarrow> i < length idx \<longrightarrow> x < ie_handle (idx ! i)"
      by auto
    with False "1.prems" show ?thesis
      by (intro exI [of _ None] exI [of _ "nat l"])
        (auto simp: find_index_loop.simps [of idx x l h] search_result_def)
  next
    case True
    have m: "l \<le> ?m" "?m \<le> h" "0 \<le> ?m" using True "1.prems"(2) by auto
    consider "ie_handle (idx ! nat ?m) = x" | "ie_handle (idx ! nat ?m) > x" | "ie_handle (idx ! nat ?m) < x"
      by fastforce
    then show ?thesis
    proof cases
      case 1
      with True m "1.prems"(3) show ?thesis
        by (intro exI [of _ "Some (nat ?m)"] exI [of _ "nat ?m"])
          (auto simp: find_index_loop.simps [of idx x l h] search_result_def Let_def)
    next
      case 2
      have above: "\<forall>i. ?m - 1 < int i \<longrightarrow> i < length idx \<longrightarrow> x < ie_handle (idx ! i)"
      proof (intro allI impI)
        fix i assume i: "?m - 1 < int i" "i < length idx"
        show "x < ie_handle (idx ! i)"
        proof (cases "i = nat ?m")
          case True
          then show ?thesis using 2 by simp
        next
          case False
          then have "nat ?m < i" using i m by linarith
          then show ?thesis using index_sorted_nth [OF "1.prems"(1) _ i(2)] 2 by (meson less_trans)
        qed
      qed
      have "?m - 1 < int (length idx)" "l \<le> ?m - 1 + 1" using m "1.prems"(3) by auto
      from "1.IH"(1) [OF True refl refl _ _ "1.prems"(1,2) this "1.prems"(5) above] 2 True
      show ?thesis by (auto simp: find_index_loop.simps [of idx x l h] Let_def)
    next
      case 3
      have below: "\<forall>i < nat (?m + 1). ie_handle (idx ! i) < x"
      proof (intro allI impI)
        fix i assume i: "i < nat (?m + 1)"
        show "ie_handle (idx ! i) < x"
        proof (cases "i = nat ?m")
          case True
          then show ?thesis using 3 by simp
        next
          case False
          then have "i < nat ?m" using i by linarith
          moreover have "nat ?m < length idx" using m "1.prems"(3) by linarith
          ultimately show ?thesis using index_sorted_nth [OF "1.prems"(1)] 3 by (meson less_trans)
        qed
      qed
      have "0 \<le> ?m + 1" "?m + 1 \<le> h + 1" using m by auto
      from "1.IH"(2) [OF True refl refl _ _ "1.prems"(1) this(1) "1.prems"(3) this(2) below "1.prems"(6)] 3 True
      show ?thesis by (auto simp: find_index_loop.simps [of idx x l h] Let_def)
    qed
  qed
qed

lemma find_index_entry:
  assumes "index_sorted idx"
  shows "\<exists>pos slot. find_index_entry idx x = Inr (pos, slot) \<and> search_result idx x pos slot"
proof (cases "length idx > 0 \<and> ie_handle (idx ! (length idx - 1)) < x")
  case True
  have "ie_handle (idx ! i) < x" if "i < length idx" for i
  proof (cases "i = length idx - 1")
    case False
    then have "i < length idx - 1" using that by linarith
    then have "ie_handle (idx ! i) < ie_handle (idx ! (length idx - 1))"
      using that by (intro index_sorted_nth [OF assms]) auto
    with True show ?thesis by (meson less_trans)
  qed (use True in simp)
  with True show ?thesis by (auto simp: find_index_entry_def search_result_def)
next
  case False
  have "\<exists>pos slot. find_index_loop idx x 0 (int (length idx) - 1) = (pos, int slot) \<and>
          search_result idx x pos slot"
    by (rule find_index_loop) (use assms in auto)
  then obtain pos slot where ps: "find_index_loop idx x 0 (int (length idx) - 1) = (pos, int slot)"
    "search_result idx x pos slot" by blast
  then have "slot \<le> length idx" by (simp add: search_result_def)
  with ps False show ?thesis
    by (auto simp: find_index_entry_def split: option.splits)
qed


section \<open>Entries of handles\<close>

definition slot_ofs :: "NVTable \<Rightarrow> NVHandle \<Rightarrow> nat" where
  "slot_ofs t h =
     (if nv_table_is_handle_static t h then nt_static_entries t ! (unat h - 1)
      else case map_of (map (\<lambda>x. (ie_handle x, ie_ofs x)) (nt_index t)) h of None \<Rightarrow> 0 | Some ofs \<Rightarrow> ofs)"

definition slot :: "NVTable \<Rightarrow> NVHandle \<Rightarrow> nat option" where
  "slot t h = (if h = 0 \<or> slot_ofs t h = 0 then None else Some (slot_ofs t h))"

text \<open>What a lookup leaves in \<^verbatim>\<open>index_entry\<close> and \<^verbatim>\<open>index_slot\<close>.\<close>

definition index_ref :: "NVTable \<Rightarrow> NVHandle \<Rightarrow> nat option \<Rightarrow> nat option \<Rightarrow> bool" where
  "index_ref t h index_entry index_slot =
     (if h = 0 \<or> nv_table_is_handle_static t h then index_entry = None \<and> index_slot = None
      else \<exists>s. index_slot = Some s \<and> search_result (nt_index t) h index_entry s)"

lemma distinct_index: "index_sorted idx \<Longrightarrow> distinct (index_handles idx)"
  unfolding index_sorted_def by (simp add: strict_sorted_iff)

lemma map_of_index_Some:
  assumes "index_sorted idx" "m < length idx" "ie_handle (idx ! m) = h"
  shows "map_of (map (\<lambda>x. (ie_handle x, ie_ofs x)) idx) h = Some (ie_ofs (idx ! m))"
proof -
  have "map fst (map (\<lambda>x. (ie_handle x, ie_ofs x)) idx) = index_handles idx" by (simp add: o_def)
  with distinct_index [OF assms(1)] have "distinct (map fst (map (\<lambda>x. (ie_handle x, ie_ofs x)) idx))" by metis
  moreover have "(h, ie_ofs (idx ! m)) \<in> set (map (\<lambda>x. (ie_handle x, ie_ofs x)) idx)"
    using assms(2,3) by (auto simp: image_iff intro!: bexI [of _ "idx ! m"])
  ultimately show ?thesis by (rule map_of_is_SomeI)
qed

lemma search_result_None:
  assumes "search_result idx h None s"
  shows "h \<notin> set (index_handles idx)"
proof
  assume "h \<in> set (index_handles idx)"
  then obtain i where i: "i < length idx" "ie_handle (idx ! i) = h" by (auto simp: in_set_conv_nth)
  have "ie_handle (idx ! i) < h \<or> h < ie_handle (idx ! i)"
    using assms i(1) by (cases "i < s") (simp_all add: search_result_def)
  with i(2) show False by simp
qed

lemma map_of_index_None: "h \<notin> set (index_handles idx) \<Longrightarrow>
    map_of (map (\<lambda>x. (ie_handle x, ie_ofs x)) idx) h = None"
  by (auto simp: map_of_eq_None_iff)

lemma get_entry:
  assumes "index_sorted (nt_index t)"
  shows "\<exists>ie is. nv_table_get_entry t h = Inr (slot t h, ie, is) \<and> index_ref t h ie is"
proof (cases "h = 0 \<or> nv_table_is_handle_static t h")
  case True
  then show ?thesis
    by (auto simp: nv_table_get_entry_def slot_def slot_ofs_def index_ref_def nv_table_get_entry_at_ofs_def)
next
  case False
  from find_index_entry [OF assms, of h] obtain pos s where
    f: "find_index_entry (nt_index t) h = Inr (pos, s)" "search_result (nt_index t) h pos s" by blast
  show ?thesis
  proof (cases pos)
    case None
    then have "map_of (map (\<lambda>x. (ie_handle x, ie_ofs x)) (nt_index t)) h = None"
      using f(2) by (intro map_of_index_None search_result_None) simp
    with f None False show ?thesis
      by (simp add: nv_table_get_entry_def nv_table_get_entry_slow_def index_ref_def slot_def slot_ofs_def)
  next
    case (Some m)
    with f(2) have "map_of (map (\<lambda>x. (ie_handle x, ie_ofs x)) (nt_index t)) h = Some (ie_ofs (nt_index t ! m))"
      by (intro map_of_index_Some assms) (auto simp: search_result_def)
    with f Some False show ?thesis
      by (simp add: nv_table_get_entry_def nv_table_get_entry_slow_def index_ref_def slot_def slot_ofs_def
          nv_table_get_entry_at_ofs_def)
  qed
qed

section \<open>The invariant\<close>

definition nt_shape :: "NVTable \<Rightarrow> bool" where
  "nt_shape t =
     (nt_size t \<le> NV_TABLE_MAX_BYTES \<and> nt_used t + nv_table_get_ofs_table_top t \<le> nt_size t \<and>
      length (nt_static_entries t) < 256 \<and> length (nt_index t) < 65536 \<and> index_sorted (nt_index t) \<and>
      (\<forall>x \<in> set (nt_index t). length (nt_static_entries t) < unat (ie_handle x)))"

text \<open>An entry holds the name of its handle unless it is static, fits into its space, and an indirect
  one refers to a direct entry that is marked as referenced.\<close>

definition refers_to_direct :: "NVTable \<Rightarrow> NVReferencedSlice \<Rightarrow> bool" where
  "refers_to_direct t r =
     (\<exists>ofs e v. slot t (rs_handle r) = Some ofs \<and> nt_mem t ofs = Some e \<and> ne_data e = VDirect v \<and>
        ne_referenced e)"

definition entry_wf :: "(NVHandle \<Rightarrow> bytes) \<Rightarrow> NVTable \<Rightarrow> NVHandle \<Rightarrow> NVEntry \<Rightarrow> bool" where
  "entry_wf names t h e =
     (ne_name e = (if nv_table_is_handle_static t h then [] else names h) \<and>
      (case ne_data e of
         VDirect v \<Rightarrow> NV_ENTRY_DIRECT_SIZE (length (ne_name e)) (length v) \<le> ne_alloc_len e
       | VIndirect r \<Rightarrow> NV_ENTRY_INDIRECT_SIZE (length (ne_name e)) \<le> ne_alloc_len e \<and>
           unat (rs_ofs r) + unat (rs_len r) < 2 ^ 32 \<and> refers_to_direct t r))"

definition nt_wf :: "(NVHandle \<Rightarrow> bytes) \<Rightarrow> NVTable \<Rightarrow> bool" where
  "nt_wf names t =
     (nt_shape t \<and>
      (\<forall>h ofs. slot t h = Some ofs \<longrightarrow>
         (\<exists>e. nt_mem t ofs = Some e \<and> ofs \<le> nt_used t \<and> ne_alloc_len e \<le> ofs \<and> 4 dvd ne_alloc_len e \<and>
            entry_wf names t h e)) \<and>
      (\<forall>h h' ofs ofs' e'. slot t h = Some ofs \<longrightarrow> slot t h' = Some ofs' \<longrightarrow> nt_mem t ofs' = Some e' \<longrightarrow>
         h \<noteq> h' \<longrightarrow> ofs < ofs' \<and> ofs + ne_alloc_len e' \<le> ofs' \<or> ofs' < ofs))"

lemma nt_wf_shape: "nt_wf names t \<Longrightarrow> nt_shape t"
  by (simp add: nt_wf_def)

lemma nt_wf_sorted: "nt_wf names t \<Longrightarrow> index_sorted (nt_index t)"
  by (simp add: nt_wf_def nt_shape_def)

lemma nt_wf_entry:
  assumes "nt_wf names t" "slot t h = Some ofs"
  shows "\<exists>e. nt_mem t ofs = Some e \<and> ofs \<le> nt_used t \<and> ne_alloc_len e \<le> ofs \<and> 4 dvd ne_alloc_len e \<and>
           entry_wf names t h e"
  using assms by (simp add: nt_wf_def)

lemma nt_wf_apart:
  assumes "nt_wf names t" "slot t h = Some ofs" "slot t h' = Some ofs'" "nt_mem t ofs' = Some e'" "h \<noteq> h'"
  shows "ofs < ofs' \<and> ofs + ne_alloc_len e' \<le> ofs' \<or> ofs' < ofs"
  using assms unfolding nt_wf_def by blast

lemma nt_wf_inj:
  assumes "nt_wf names t" "slot t h = Some ofs" "slot t h' = Some ofs"
  shows "h = h'"
proof (rule ccontr)
  assume ne: "h \<noteq> h'"
  obtain e where "nt_mem t ofs = Some e" using nt_wf_entry [OF assms(1,2)] by blast
  from nt_wf_apart [OF assms(1,2,3) this ne] show False by simp
qed

lemma available:
  assumes "nt_shape t"
  shows "nv_table_get_available t = nt_size t - nt_used t - nv_table_get_ofs_table_top t"
proof -
  have b: "nt_used t + nv_table_get_ofs_table_top t \<le> nt_size t" "nt_size t \<le> NV_TABLE_MAX_BYTES"
    using assms by (auto simp: nt_shape_def)
  have "(int (nt_size t) - int (nt_used t) - int (nv_table_get_ofs_table_top t)) mod 2 ^ 64
      = int (nt_size t) - int (nt_used t) - int (nv_table_get_ofs_table_top t)"
    using b by (intro mod_pos_pos_trivial) auto
  then show ?thesis unfolding nv_table_get_available_def using b by simp
qed

section \<open>Values\<close>

definition entry_of :: "NVTable \<Rightarrow> NVHandle \<Rightarrow> NVEntry option" where
  "entry_of t h = (case slot t h of None \<Rightarrow> None | Some ofs \<Rightarrow> nt_mem t ofs)"

definition direct_value :: "NVEntry option \<Rightarrow> bytes option" where
  "direct_value e =
     (case e of
        None \<Rightarrow> None
      | Some e \<Rightarrow> if ne_unset e then None
                  else (case ne_data e of VDirect v \<Rightarrow> Some v | VIndirect _ \<Rightarrow> None))"

definition slice_of :: "NVReferencedSlice \<Rightarrow> bytes option \<Rightarrow> bytes" where
  "slice_of r v = (case v of None \<Rightarrow> [] | Some v \<Rightarrow> take (unat (rs_len r)) (drop (unat (rs_ofs r)) v))"

definition content :: "NVTable \<Rightarrow> NVEntry \<Rightarrow> bytes" where
  "content t e =
     (case ne_data e of VDirect v \<Rightarrow> v | VIndirect r \<Rightarrow> slice_of r (direct_value (entry_of t (rs_handle r))))"

definition view :: "NVTable \<Rightarrow> NVHandle \<Rightarrow> (bytes \<times> NVType) option" where
  "view t h =
     (case entry_of t h of
        None \<Rightarrow> None
      | Some e \<Rightarrow> if ne_unset e then None else Some (content t e, ne_type e))"

lemma take_min_drop:
  assumes "ofs \<le> length v"
  shows "take (nat (min (int (ofs + len)) (int (length v)) - int ofs)) (drop ofs v) = take len (drop ofs v)"
proof (cases "ofs + len \<le> length v")
  case False
  then have "length (drop ofs v) \<le> len" "nat (min (int (ofs + len)) (int (length v)) - int ofs) = length (drop ofs v)"
    using assms by auto
  then show ?thesis by (metis order_refl take_all)
qed (simp add: min_def)

lemma min_diff_nonneg:
  "ofs \<le> length v \<Longrightarrow> \<not> min (int (ofs + len)) (int (length v)) - int ofs < 0"
  by simp

lemma get_value_direct:
  assumes "nt_wf names t" "entry_of t h = Some e" "ne_data e = VDirect v"
  shows "get_value_fuel (Suc n) t h = Inr (if ne_unset e then None else Some (v, ne_type e))"
proof -
  from get_entry [OF nt_wf_sorted [OF assms(1)], of h] obtain ie "is" where
    g: "nv_table_get_entry t h = Inr (slot t h, ie, is)" by blast
  from assms(2) obtain ofs where "slot t h = Some ofs" "nt_mem t ofs = Some e"
    by (auto simp: entry_of_def split: option.splits)
  with g assms(3) show ?thesis by (simp add: deref_def)
qed

lemma resolve_slice:
  assumes "nt_wf names t" "refers_to_direct t r" "unat (rs_ofs r) + unat (rs_len r) < 2 ^ 32"
  shows "resolve_slice (get_value_fuel (Suc n) t) r = Inr (slice_of r (direct_value (entry_of t (rs_handle r))))"
proof -
  from assms(2) obtain e v where e: "entry_of t (rs_handle r) = Some e" "ne_data e = VDirect v"
    by (auto simp: refers_to_direct_def entry_of_def)
  have s: "unat (rs_ofs r + rs_len r) = unat (rs_ofs r) + unat (rs_len r)"
    by (rule unat_plus_no_wrap) (use assms(3) in simp)
  show ?thesis
  proof (cases "unat (rs_ofs r) \<le> length v")
    case True
    have "\<not> unat (rs_ofs r) > length v" using True by simp
    then show ?thesis
      unfolding resolve_slice_def get_value_direct [OF assms(1) e] Let_def direct_value_def slice_of_def
      by (cases "ne_unset e")
        (simp_all only: bindO_Inr e option.case NVData.case prod.case if_False if_True s
          min_diff_nonneg [OF True] take_min_drop [OF True])
  next
    case False
    then show ?thesis
      unfolding resolve_slice_def get_value_direct [OF assms(1) e] direct_value_def slice_of_def
      by (simp add: e)
  qed
qed

lemma get_value:
  assumes "nt_wf names t"
  shows "nv_table_get_value t h = Inr (view t h)"
proof (cases "slot t h")
  case None
  with get_entry [OF nt_wf_sorted [OF assms], of h] show ?thesis
    by (auto simp: nv_table_get_value_def numeral_2_eq_2 view_def entry_of_def)
next
  case (Some ofs)
  with nt_wf_entry [OF assms] obtain e where e: "nt_mem t ofs = Some e" "entry_wf names t h e" by blast
  have g: "\<exists>ie is. nv_table_get_entry t h = Inr (Some ofs, ie, is)"
    using get_entry [OF nt_wf_sorted [OF assms], of h] Some by auto
  show ?thesis
  proof (cases "ne_data e")
    case (VDirect v)
    with g e Some show ?thesis
      by (auto simp: nv_table_get_value_def numeral_2_eq_2 deref_def view_def entry_of_def content_def)
  next
    case (VIndirect r)
    with e(2) have "resolve_slice (get_value_fuel (Suc 0) t) r
        = Inr (slice_of r (direct_value (entry_of t (rs_handle r))))"
      by (intro resolve_slice [OF assms]) (auto simp: entry_wf_def)
    with g e Some VIndirect show ?thesis
      by (auto simp: nv_table_get_value_def numeral_2_eq_2 deref_def view_def entry_of_def content_def)
  qed
qed


section \<open>Changing one entry\<close>

definition no_refs :: "NVTable \<Rightarrow> NVHandle \<Rightarrow> bool" where
  "no_refs t h =
     (\<forall>x ofs e r. slot t x = Some ofs \<longrightarrow> nt_mem t ofs = Some e \<longrightarrow> ne_data e = VIndirect r \<longrightarrow> rs_handle r \<noteq> h)"

text \<open>
  \<open>t'\<close> is \<open>t\<close> with the entry \<open>e\<close> at the offset \<open>ofs\<close> of the handle \<open>h\<close>: either the old entry of \<open>h\<close> was
  rewritten in place, or \<open>e\<close> was allocated behind the used space.
\<close>

definition store_step :: "NVTable \<Rightarrow> NVHandle \<Rightarrow> nat \<Rightarrow> NVEntry \<Rightarrow> NVTable \<Rightarrow> bool" where
  "store_step t h ofs e t' =
     (nt_shape t' \<and> length (nt_static_entries t') = length (nt_static_entries t) \<and>
      slot t' = (slot t)(h \<mapsto> ofs) \<and> nt_mem t' = (nt_mem t)(ofs \<mapsto> e) \<and>
      4 dvd ne_alloc_len e \<and> nt_used t \<le> nt_used t' \<and>
      (slot t h = Some ofs \<and> (\<exists>old. nt_mem t ofs = Some old \<and> ne_alloc_len e = ne_alloc_len old) \<or>
       ofs = nt_used t + ne_alloc_len e \<and> 0 < ne_alloc_len e \<and> nt_used t' = ofs))"

lemma is_handle_static_cong:
  "length (nt_static_entries t') = length (nt_static_entries t) \<Longrightarrow>
     nv_table_is_handle_static t' = nv_table_is_handle_static t"
  by (simp add: nv_table_is_handle_static_def fun_eq_iff)

lemma store_step_static:
  "store_step t h ofs e t' \<Longrightarrow> nv_table_is_handle_static t' = nv_table_is_handle_static t"
  by (rule is_handle_static_cong) (simp add: store_step_def)

lemma store_step_entry_of_same: "store_step t h ofs e t' \<Longrightarrow> entry_of t' h = Some e"
  by (simp add: store_step_def entry_of_def)

text \<open>The other entries are untouched.\<close>

lemma store_step_other_ofs:
  assumes "nt_wf names t" "store_step t h ofs e t'" "x \<noteq> h" "slot t x = Some o'"
  shows "o' \<noteq> ofs"
proof -
  from nt_wf_entry [OF assms(1,4)] have "o' \<le> nt_used t" by blast
  moreover have "slot t h = Some ofs \<or> nt_used t < ofs" using assms(2) by (auto simp: store_step_def)
  ultimately show ?thesis using nt_wf_inj [OF assms(1,4)] assms(3) by fastforce
qed

lemma store_step_entry_of:
  assumes "nt_wf names t" "store_step t h ofs e t'" "x \<noteq> h"
  shows "entry_of t' x = entry_of t x"
proof (cases "slot t x")
  case (Some o')
  with store_step_other_ofs [OF assms this] assms show ?thesis by (simp add: store_step_def entry_of_def)
qed (use assms in \<open>simp add: store_step_def entry_of_def\<close>)

lemma refers_to_direct_entry_of:
  "refers_to_direct t r \<longleftrightarrow>
     (\<exists>e v. entry_of t (rs_handle r) = Some e \<and> ne_data e = VDirect v \<and> ne_referenced e)"
  by (auto simp: refers_to_direct_def entry_of_def split: option.splits)

lemma no_refs_entry_of:
  "no_refs t h \<longleftrightarrow> (\<forall>x e r. entry_of t x = Some e \<longrightarrow> ne_data e = VIndirect r \<longrightarrow> rs_handle r \<noteq> h)"
  by (auto simp: no_refs_def entry_of_def split: option.splits)

definition keeps_referents :: "NVTable \<Rightarrow> NVHandle \<Rightarrow> NVEntry \<Rightarrow> bool" where
  "keeps_referents t h e = (no_refs t h \<or> (\<exists>v. ne_data e = VDirect v \<and> ne_referenced e))"

lemma store_step_refers:
  assumes "nt_wf names t" "store_step t h ofs e t'" "keeps_referents t h e"
    and "entry_of t x = Some e'" "ne_data e' = VIndirect r" "refers_to_direct t r"
  shows "refers_to_direct t' r"
proof (cases "rs_handle r = h")
  case True
  then have "\<not> no_refs t h" using assms(4,5) unfolding no_refs_entry_of by blast
  with assms(3) True show ?thesis
    using store_step_entry_of_same [OF assms(2)] by (auto simp: keeps_referents_def refers_to_direct_entry_of)
next
  case False
  then show ?thesis
    using assms(6) store_step_entry_of [OF assms(1,2) False] by (simp add: refers_to_direct_entry_of)
qed

lemma store_step_wf:
  assumes wf: "nt_wf names t" and st: "store_step t h ofs e t'" and keep: "keeps_referents t h e"
    and ewf: "entry_wf names t' h e"
  shows "nt_wf names t'"
  unfolding nt_wf_def
proof (intro conjI allI impI)
  show "nt_shape t'" using st by (simp add: store_step_def)
  have ofs: "ofs \<le> nt_used t'" "ne_alloc_len e \<le> ofs"
  proof -
    have "slot t h = Some ofs \<Longrightarrow> nt_mem t ofs = Some old \<Longrightarrow> ne_alloc_len old \<le> ofs \<and> ofs \<le> nt_used t" for old
      using nt_wf_entry [OF wf, of h ofs] by auto
    with st show "ofs \<le> nt_used t'" "ne_alloc_len e \<le> ofs" by (auto simp: store_step_def)
  qed
  {
    fix x o' assume "slot t' x = Some o'"
    show "\<exists>e'. nt_mem t' o' = Some e' \<and> o' \<le> nt_used t' \<and> ne_alloc_len e' \<le> o' \<and> 4 dvd ne_alloc_len e' \<and>
        entry_wf names t' x e'"
    proof (cases "x = h")
      case True
      with \<open>slot t' x = Some o'\<close> st ofs ewf show ?thesis by (auto simp: store_step_def)
    next
      case False
      with \<open>slot t' x = Some o'\<close> st have sx: "slot t x = Some o'" by (simp add: store_step_def)
      from nt_wf_entry [OF wf this] obtain e' where e': "nt_mem t o' = Some e'" "o' \<le> nt_used t"
        "ne_alloc_len e' \<le> o'" "4 dvd ne_alloc_len e'" "entry_wf names t x e'" by blast
      have "entry_of t x = Some e'" using sx e'(1) by (simp add: entry_of_def)
      then have "entry_wf names t' x e'"
        using e'(5) store_step_refers [OF wf st keep] store_step_static [OF st]
        by (auto simp: entry_wf_def split: NVData.splits)
      moreover have "nt_mem t' o' = Some e'"
        using st e'(1) store_step_other_ofs [OF wf st False sx] by (simp add: store_step_def)
      moreover have "o' \<le> nt_used t'" using e'(2) st by (simp add: store_step_def)
      ultimately show ?thesis using e' by blast
    qed
  }
  {
    fix x y ox oy ey
    assume a: "slot t' x = Some ox" "slot t' y = Some oy" "nt_mem t' oy = Some ey" "x \<noteq> y"
    have new: "ox \<le> nt_used t" if "x \<noteq> h" "slot t x = Some ox" for x ox
      using nt_wf_entry [OF wf that(2)] by blast
    consider "x = h" "y \<noteq> h" | "y = h" "x \<noteq> h" | "x \<noteq> h" "y \<noteq> h" using a(4) by blast
    then show "ox < oy \<and> ox + ne_alloc_len ey \<le> oy \<or> oy < ox"
    proof cases
      case 1
      then have y: "slot t y = Some oy" "nt_mem t oy = Some ey" "ox = ofs"
        using a st store_step_other_ofs [OF wf st 1(2), of oy] by (auto simp: store_step_def)
      show ?thesis
        using st new [OF 1(2) y(1)] nt_wf_apart [OF wf _ y(1,2), of h ox] 1 a(4) y(3)
        by (auto simp: store_step_def)
    next
      case 2
      then have x: "slot t x = Some ox" "oy = ofs" "ey = e" using a st by (auto simp: store_step_def)
      show ?thesis
        using st new [OF 2(2) x(1)] nt_wf_apart [OF wf x(1), of h ofs] 2 a(4) x
        by (auto simp: store_step_def)
    next
      case 3
      then have "slot t x = Some ox" "slot t y = Some oy" "nt_mem t oy = Some ey"
        using a st store_step_other_ofs [OF wf st 3(2), of oy] by (auto simp: store_step_def)
      then show ?thesis using nt_wf_apart [OF wf] a(4) by blast
    qed
  }
qed

text \<open>If nothing refers to the entry, or its value is the same as before, the other values stay.\<close>

lemma store_step_view:
  assumes "nt_wf names t" "store_step t h ofs e t'" "x \<noteq> h"
    and "no_refs t h \<or> direct_value (entry_of t h) = direct_value (Some e)"
  shows "view t' x = view t x"
proof -
  have "content t' ex = content t ex" if "entry_of t x = Some ex" for ex
  proof (cases "ne_data ex")
    case (VIndirect r)
    show ?thesis
    proof (cases "rs_handle r = h")
      case True
      then have "\<not> no_refs t h" using that VIndirect unfolding no_refs_entry_of by blast
      with assms(4) True show ?thesis
        by (simp add: content_def VIndirect store_step_entry_of_same [OF assms(2)])
    next
      case False
      then show ?thesis by (simp add: content_def VIndirect store_step_entry_of [OF assms(1,2)])
    qed
  qed (simp add: content_def)
  then show ?thesis
    by (simp add: view_def store_step_entry_of [OF assms(1-3)] split: option.splits)
qed

end
