(* ===== verification/NV_Table_Alloc.thy ===== *)
theory NV_Table_Alloc
  imports NV_Table_Store
begin

text \<open>
  What the allocating operations of the name-value table do to the entries of the handles: storing into
  an entry, making room in the index, allocating an entry and binding it to its handle.
\<close>

section \<open>Tables with the same contents\<close>

definition same_content :: "NVTable \<Rightarrow> NVTable \<Rightarrow> bool" where
  "same_content t t' =
     (slot t' = slot t \<and> nt_mem t' = nt_mem t \<and> nt_used t' = nt_used t \<and>
      length (nt_static_entries t') = length (nt_static_entries t))"

lemma same_content_refl [simp]: "same_content t t"
  by (simp add: same_content_def)

lemma same_content_entry_of: "same_content t t' \<Longrightarrow> entry_of t' = entry_of t"
  by (rule ext) (simp add: same_content_def entry_of_def split: option.split)

lemma same_content_view: "same_content t t' \<Longrightarrow> view t' = view t"
  by (auto simp: view_def content_def fun_eq_iff same_content_entry_of split: option.splits NVData.splits)

lemma same_content_no_refs: "same_content t t' \<Longrightarrow> no_refs t' = no_refs t"
  by (simp add: no_refs_def same_content_def fun_eq_iff)

lemma same_content_refers: "same_content t t' \<Longrightarrow> refers_to_direct t' = refers_to_direct t"
  by (simp add: refers_to_direct_def same_content_def fun_eq_iff)

lemma same_content_entry_wf: "same_content t t' \<Longrightarrow> entry_wf names t' = entry_wf names t"
  using is_handle_static_cong [of t' t] same_content_refers [of t t']
  by (intro ext) (simp add: entry_wf_def same_content_def split: NVData.split)

lemma same_content_wf:
  assumes "nt_wf names t" "same_content t t'" "nt_shape t'"
  shows "nt_wf names t'"
  using assms same_content_entry_wf [OF assms(2), of names]
  by (simp add: nt_wf_def same_content_def)

section \<open>Rewriting an entry in place\<close>

lemma set_entry_simps [simp]:
  "nt_size (set_entry t ofs e) = nt_size t" "nt_used (set_entry t ofs e) = nt_used t"
  "nt_static_entries (set_entry t ofs e) = nt_static_entries t" "nt_index (set_entry t ofs e) = nt_index t"
  "nt_mem (set_entry t ofs e) = (nt_mem t)(ofs \<mapsto> e)"
  "nt_ref_cnt (set_entry t ofs e) = nt_ref_cnt t" "nt_borrowed (set_entry t ofs e) = nt_borrowed t"
  by (simp_all add: set_entry_def)

lemma slot_cong:
  "nt_static_entries t' = nt_static_entries t \<Longrightarrow> nt_index t' = nt_index t \<Longrightarrow> slot t' = slot t"
  by (simp add: slot_def slot_ofs_def nv_table_is_handle_static_def fun_eq_iff)

lemma shape_cong:
  "nt_static_entries t' = nt_static_entries t \<Longrightarrow> nt_index t' = nt_index t \<Longrightarrow> nt_used t' = nt_used t \<Longrightarrow>
     nt_size t' = nt_size t \<Longrightarrow> nt_shape t' = nt_shape t"
  by (simp add: nt_shape_def nv_table_get_ofs_table_top_def)

lemma slot_set_entry [simp]: "slot (set_entry t ofs e) = slot t"
  by (rule slot_cong) simp_all

lemma set_entry_step:
  assumes "nt_wf names t" "slot t h = Some ofs" "nt_mem t ofs = Some old" "ne_alloc_len e = ne_alloc_len old"
  shows "store_step t h ofs e (set_entry t ofs e)"
proof -
  have "nt_shape (set_entry t ofs e)"
    using nt_wf_shape [OF assms(1)] shape_cong [of "set_entry t ofs e" t] by simp
  moreover have "4 dvd ne_alloc_len e" using nt_wf_entry [OF assms(1,2)] assms(3,4) by auto
  ultimately show ?thesis using assms(2-4) by (auto simp: store_step_def fun_upd_idem)
qed

lemma overwrite_with_a_direct_entry:
  assumes wf: "nt_wf names t" and s: "slot t h = Some ofs" "nt_mem t ofs = Some old"
    and refs: "no_refs t h" and fits: "NV_ENTRY_DIRECT_SIZE (length (ne_name old)) (length value) \<le> ne_alloc_len old"
    and name: "\<not> nv_table_is_handle_static t h \<Longrightarrow> name = names h"
  shows "\<exists>e t'. overwrite_with_a_direct_entry t h ofs name value type = Inr t' \<and> store_step t h ofs e t' \<and>
           nt_wf names t' \<and> ne_data e = VDirect value \<and> ne_type e = type \<and> \<not> ne_unset e \<and>
           nt_index t' = nt_index t \<and> nt_size t' = nt_size t \<and> nt_used t' = nt_used t"
proof -
  let ?e = "old\<lparr>ne_name := ne_name old, ne_data := VDirect value, ne_unset := False, ne_type := type\<rparr>"
  from nt_wf_entry [OF wf s(1)] s(2) have ewf: "entry_wf names t h old" by auto
  have ow: "overwrite_with_a_direct_entry t h ofs name value type = Inr (set_entry t ofs ?e)"
  proof (cases "ne_data old")
    case VDirect
    then show ?thesis
      using s fits by (simp add: overwrite_with_a_direct_entry_def deref_def store_direct_def)
  next
    case VIndirect
    show ?thesis
    proof (cases "nv_table_is_handle_static t h")
      case True
      then have "ne_name old = []" using ewf by (simp add: entry_wf_def)
      with True VIndirect s fits show ?thesis
        by (simp add: overwrite_with_a_direct_entry_def deref_def store_direct_def)
    next
      case False
      then have "name = ne_name old" using ewf name by (simp add: entry_wf_def)
      with False VIndirect s fits show ?thesis
        by (simp add: overwrite_with_a_direct_entry_def deref_def store_direct_def)
    qed
  qed
  have st: "store_step t h ofs ?e (set_entry t ofs ?e)" by (rule set_entry_step [OF wf s]) simp
  have "entry_wf names (set_entry t ofs ?e) h ?e"
    using ewf fits store_step_static [OF st] by (simp add: entry_wf_def)
  with store_step_wf [OF wf st] refs have "nt_wf names (set_entry t ofs ?e)"
    by (simp add: keeps_referents_def)
  with ow st show ?thesis by (intro exI [of _ ?e] exI [of _ "set_entry t ofs ?e"]) simp
qed

section \<open>Making room in the index\<close>

definition insert_index :: "NVIndexEntry list \<Rightarrow> nat \<Rightarrow> NVHandle \<Rightarrow> NVIndexEntry list" where
  "insert_index idx s h = take s idx @ [\<lparr>ie_handle = h, ie_ofs = 0\<rparr>] @ drop s idx"

lemma length_insert_index: "s \<le> length idx \<Longrightarrow> length (insert_index idx s h) = Suc (length idx)"
  by (simp add: insert_index_def)

lemma nth_insert_index: "s \<le> length idx \<Longrightarrow> insert_index idx s h ! s = \<lparr>ie_handle = h, ie_ofs = 0\<rparr>"
  by (simp add: insert_index_def nth_append)

lemma search_result_split:
  assumes "search_result idx h None s"
  shows "\<forall>x \<in> set (take s idx). ie_handle x < h" "\<forall>x \<in> set (drop s idx). h < ie_handle x" "s \<le> length idx"
proof -
  show "s \<le> length idx" using assms by (simp add: search_result_def)
  then show "\<forall>x \<in> set (take s idx). ie_handle x < h"
    using assms by (auto simp: search_result_def in_set_conv_nth)
  show "\<forall>x \<in> set (drop s idx). h < ie_handle x"
    using assms \<open>s \<le> length idx\<close> by (auto simp: search_result_def in_set_conv_nth)
qed

lemma insert_index_sorted:
  assumes "index_sorted idx" "search_result idx h None s"
  shows "index_sorted (insert_index idx s h)"
proof -
  note sp = search_result_split [OF assms(2)]
  have "sorted_wrt (<) (index_handles (take s idx) @ index_handles (drop s idx))"
    using assms(1) by (simp add: index_sorted_def flip: map_append)
  with sp show ?thesis
    by (auto simp: index_sorted_def insert_index_def sorted_wrt_append intro: less_trans)
qed

lemma map_of_insert_index:
  assumes "x \<noteq> h"
  shows "map_of (map (\<lambda>x. (ie_handle x, ie_ofs x)) (insert_index idx s h)) x
       = map_of (map (\<lambda>x. (ie_handle x, ie_ofs x)) idx) x"
proof -
  have "map_of (map (\<lambda>x. (ie_handle x, ie_ofs x)) (take s idx @ drop s idx)) x
      = map_of (map (\<lambda>x. (ie_handle x, ie_ofs x)) (insert_index idx s h)) x"
    unfolding insert_index_def map_append map_of_append using assms
    by (simp add: map_add_def split: option.splits)
  then show ?thesis by simp
qed

text \<open>The index has an entry for the handle, if the handle needs one.\<close>

definition index_ready :: "NVTable \<Rightarrow> NVHandle \<Rightarrow> nat option \<Rightarrow> bool" where
  "index_ready t h ie =
     (nv_table_is_handle_static t h \<or>
      (\<exists>i. ie = Some i \<and> i < length (nt_index t) \<and> ie_handle (nt_index t ! i) = h))"

text \<open>The space of an index entry, for a handle that needs one.\<close>

definition dyn_cost :: "NVTable \<Rightarrow> NVHandle \<Rightarrow> nat" where
  "dyn_cost t h = (if nv_table_is_handle_static t h then 0 else 8)"

lemma alloc_index_entry:
  assumes sh: "nt_shape t" and ref: "index_ref t h ie is" and h: "h \<noteq> 0" and room: "length (nt_index t) < 65535"
  shows "\<exists>ok ie' t'. alloc_index_entry t h ie is = Inr (ok, ie', t') \<and>
           same_content t t' \<and> nt_shape t' \<and> nt_size t' = nt_size t \<and>
           (index_handles (nt_index t') = index_handles (nt_index t) \<or>
            slot t h = None \<and> \<not> nv_table_is_handle_static t h \<and> length (nt_index t') = Suc (length (nt_index t))) \<and>
           (ok \<longrightarrow> index_ready t' h ie' \<and> nv_table_get_available t \<le> nv_table_get_available t' + dyn_cost t h) \<and>
           (\<not> ok \<longrightarrow> t' = t \<and> nv_table_get_available t < dyn_cost t h)"
proof (cases "ie = None \<and> \<not> nv_table_is_handle_static t h")
  case False
  then have "alloc_index_entry t h ie is = Inr (True, ie, t)"
    unfolding alloc_index_entry_def by (simp only: if_False)
  moreover have "index_ready t h ie"
    using False ref h by (auto simp: index_ready_def index_ref_def search_result_def)
  ultimately show ?thesis using sh by (intro exI [of _ True] exI [of _ ie] exI [of _ t]) simp
next
  case True
  with ref h obtain s where s: "is = Some s" "search_result (nt_index t) h None s"
    by (auto simp: index_ref_def)
  note sp = search_result_split [OF s(2)]
  show ?thesis
  proof (cases "nv_table_alloc_check t 8")
    case False
    then show ?thesis using True sh by (auto simp: alloc_index_entry_def nv_table_alloc_check_def dyn_cost_def)
  next
    case check: True
    let ?t' = "t\<lparr>nt_index := insert_index (nt_index t) s h\<rparr>"
    have "(length (nt_index t) + 1) mod 2 ^ 16 = length (insert_index (nt_index t) s h)"
      using room by (simp add: length_insert_index [OF sp(3)])
    then have "take ((length (nt_index t) + 1) mod 2 ^ 16) (insert_index (nt_index t) s h)
        = insert_index (nt_index t) s h" by simp
    then have al: "alloc_index_entry t h ie is = Inr (True, Some s, ?t')"
      using True check s(1) by (simp add: alloc_index_entry_def insert_index_def [symmetric] del: append_Cons append_Nil)
    have top: "nv_table_get_ofs_table_top ?t' = nv_table_get_ofs_table_top t + 8"
      by (simp add: nv_table_get_ofs_table_top_def length_insert_index [OF sp(3)])
    have stat: "nv_table_is_handle_static ?t' = nv_table_is_handle_static t"
      by (rule is_handle_static_cong) simp
    have "h \<notin> set (index_handles (nt_index t))" by (rule search_result_None [OF s(2)])
    then have z: "slot t h = None"
      using True by (simp add: slot_def slot_ofs_def map_of_index_None)
    have srt: "index_sorted (insert_index (nt_index t) s h)"
      by (rule insert_index_sorted [OF _ s(2)]) (use sh in \<open>simp add: nt_shape_def\<close>)
    have members: "set (insert_index (nt_index t) s h) = insert \<lparr>ie_handle = h, ie_ofs = 0\<rparr> (set (nt_index t))"
      unfolding insert_index_def set_append by (subst (3) append_take_drop_id [of s, symmetric]) (simp only: set_append, auto)
    have shape: "nt_shape ?t'"
      using sh check srt top True room
      by (simp add: nt_shape_def nv_table_alloc_check_def available [OF sh] length_insert_index [OF sp(3)]
          members nv_table_is_handle_static_def)
    have "map_of (map (\<lambda>x. (ie_handle x, ie_ofs x)) (insert_index (nt_index t) s h)) h = Some 0"
      using map_of_index_Some [OF srt, of s h] sp(3)
      by (simp add: length_insert_index [OF sp(3)] nth_insert_index [OF sp(3)])
    then have "slot ?t' h = None" using True stat by (simp add: slot_def slot_ofs_def)
    moreover have "slot ?t' x = slot t x" if "x \<noteq> h" for x
      using that by (simp add: slot_def slot_ofs_def stat map_of_insert_index)
    ultimately have "slot ?t' = slot t" using z by (intro ext) metis
    then have same: "same_content t ?t'" by (simp add: same_content_def)
    have "nv_table_get_available t \<le> nv_table_get_available ?t' + dyn_cost t h"
      using sh shape top True by (simp add: available dyn_cost_def)
    moreover have "index_ready ?t' h (Some s)"
      using sp(3) by (simp add: index_ready_def length_insert_index nth_insert_index)
    moreover have "length (nt_index ?t') = Suc (length (nt_index t))"
      by (simp add: length_insert_index [OF sp(3)])
    ultimately show ?thesis using al same shape z True
      by (intro exI [of _ True] exI [of _ "Some s"] exI [of _ ?t']) simp
  qed
qed

section \<open>Binding an entry to its handle\<close>

lemma nv_table_set_table_entry:
  assumes sh: "nt_shape t" and h: "h \<noteq> 0" and ready: "index_ready t h ie" and ofs: "0 < ofs"
  shows "\<exists>t'. nv_table_set_table_entry t h ofs ie = Inr t' \<and> slot t' = (slot t)(h \<mapsto> ofs) \<and> nt_shape t' \<and>
           nt_mem t' = nt_mem t \<and> nt_used t' = nt_used t \<and> nt_size t' = nt_size t \<and>
           length (nt_static_entries t') = length (nt_static_entries t) \<and>
           index_handles (nt_index t') = index_handles (nt_index t)"
proof (cases "nv_table_is_handle_static t h")
  case True
  let ?t' = "t\<lparr>nt_static_entries := (nt_static_entries t)[unat h - 1 := ofs]\<rparr>"
  have stat: "nv_table_is_handle_static ?t' = nv_table_is_handle_static t"
    by (rule is_handle_static_cong) simp
  have u: "unat x - 1 = unat h - 1 \<longleftrightarrow> x = h" if "x \<noteq> 0" for x
    using that h by (metis One_nat_def Suc_pred unat_gt_0 word_unat_eq_iff)
  have "slot ?t' = (slot t)(h \<mapsto> ofs)"
  proof
    fix x
    show "slot ?t' x = ((slot t)(h \<mapsto> ofs)) x"
    proof (cases "x = h")
      case x: True
      have "unat h - 1 < length (nt_static_entries t)"
        using True h by (simp add: nv_table_is_handle_static_def unat_gt_0 [symmetric])
      with x h True stat ofs show ?thesis by (simp add: slot_def slot_ofs_def)
    next
      case False
      with u [of x] stat show ?thesis by (auto simp: slot_def slot_ofs_def nth_list_update)
    qed
  qed
  moreover have "nt_shape ?t'" using sh by (simp add: nt_shape_def nv_table_get_ofs_table_top_def)
  ultimately show ?thesis using True h by (simp add: nv_table_set_table_entry_def)
next
  case False
  with ready obtain i where i: "ie = Some i" "i < length (nt_index t)" "ie_handle (nt_index t ! i) = h"
    by (auto simp: index_ready_def)
  let ?idx = "(nt_index t)[i := \<lparr>ie_handle = h, ie_ofs = ofs\<rparr>]"
  let ?t' = "t\<lparr>nt_index := ?idx\<rparr>"
  have stat: "nv_table_is_handle_static ?t' = nv_table_is_handle_static t"
    by (rule is_handle_static_cong) simp
  have hs: "index_handles ?idx = index_handles (nt_index t)"
    using i by (simp add: map_update) (metis length_map list_update_id nth_map)
  have srt: "index_sorted (nt_index t)" "index_sorted ?idx"
    using sh hs by (simp_all add: nt_shape_def index_sorted_def)
  have "slot ?t' = (slot t)(h \<mapsto> ofs)"
  proof
    fix x
    consider "x = h" | "x \<noteq> h" "x \<in> set (index_handles (nt_index t))" | "x \<noteq> h" "x \<notin> set (index_handles (nt_index t))"
      by blast
    then show "slot ?t' x = ((slot t)(h \<mapsto> ofs)) x"
    proof cases
      case 1
      with map_of_index_Some [OF srt(2), of i h] i h False stat ofs show ?thesis
        by (simp add: slot_def slot_ofs_def)
    next
      case 2
      then obtain j where j: "j < length (nt_index t)" "ie_handle (nt_index t ! j) = x"
        by (auto simp: in_set_conv_nth)
      then have "j \<noteq> i" using i 2 by auto
      with map_of_index_Some [OF srt(1) j] map_of_index_Some [OF srt(2), of j x] j 2 stat show ?thesis
        by (simp add: slot_def slot_ofs_def)
    next
      case 3
      then have "x \<notin> set (index_handles ?idx)" by (simp only: hs) simp
      with 3 stat show ?thesis by (simp add: slot_def slot_ofs_def map_of_index_None)
    qed
  qed
  moreover have "nt_shape ?t'"
  proof -
    have "\<forall>x \<in> set (index_handles (nt_index t)). length (nt_static_entries t) < unat x"
      using sh by (simp add: nt_shape_def)
    then have "\<forall>x \<in> set (index_handles ?idx). length (nt_static_entries t) < unat x" by (simp only: hs)
    then show ?thesis
      using sh srt(2) by (simp add: nt_shape_def nv_table_get_ofs_table_top_def del: map_update set_map) (simp only: set_map ball_simps)
  qed
  ultimately show ?thesis using False i hs by (simp add: nv_table_set_table_entry_def del: map_update)
qed

section \<open>Allocating an entry\<close>

lemma NV_TABLE_BOUND_ge: "x \<le> NV_TABLE_BOUND x"
  by (simp add: NV_TABLE_BOUND_def)

lemma NV_TABLE_BOUND_dvd [simp]: "4 dvd NV_TABLE_BOUND x"
  by (simp add: NV_TABLE_BOUND_def)

lemma NV_TABLE_BOUND_mono: "x \<le> y \<Longrightarrow> NV_TABLE_BOUND x \<le> NV_TABLE_BOUND y"
  by (simp add: NV_TABLE_BOUND_def div_le_mono)

lemma NV_TABLE_BOUND_le_iff: "4 dvd y \<Longrightarrow> NV_TABLE_BOUND x \<le> y \<longleftrightarrow> x \<le> y"
  by (auto simp: NV_TABLE_BOUND_def elim!: dvdE)

definition allocated :: "NVTable \<Rightarrow> nat \<Rightarrow> NVEntry \<Rightarrow> NVTable" where
  "allocated t ofs e = t\<lparr>nt_used := ofs, nt_mem := (nt_mem t)(ofs \<mapsto> e)\<rparr>"

lemma allocated_simps [simp]:
  "nt_static_entries (allocated t ofs e) = nt_static_entries t" "nt_index (allocated t ofs e) = nt_index t"
  "nt_size (allocated t ofs e) = nt_size t" "nt_used (allocated t ofs e) = ofs"
  "nt_mem (allocated t ofs e) = (nt_mem t)(ofs \<mapsto> e)"
  by (simp_all add: allocated_def)

lemma bind_new_entry:
  assumes sh: "nt_shape t" and h: "h \<noteq> 0" and ready: "index_ready t h ie"
    and room: "NV_TABLE_BOUND n \<le> nv_table_get_available t" and n: "0 < n"
    and e: "ne_alloc_len e = NV_TABLE_BOUND n" and ofs: "ofs = nt_used t + NV_TABLE_BOUND n"
  shows "\<exists>t'. nv_table_set_table_entry (set_entry (allocated t ofs raw) ofs e) h ofs ie = Inr t' \<and>
           store_step t h ofs e t' \<and> nt_size t' = nt_size t \<and>
           index_handles (nt_index t') = index_handles (nt_index t) \<and>
           nv_table_get_available t' + NV_TABLE_BOUND n = nv_table_get_available t"
proof -
  let ?t = "set_entry (allocated t ofs raw) ofs e"
  have f: "nt_static_entries ?t = nt_static_entries t" "nt_index ?t = nt_index t" "nt_size ?t = nt_size t"
    "nt_used ?t = ofs" "nt_mem ?t = (nt_mem t)(ofs \<mapsto> e)"
    by (simp_all add: allocated_def)
  have stat: "nv_table_is_handle_static ?t = nv_table_is_handle_static t"
    by (rule is_handle_static_cong) (simp only: f)
  have top: "nv_table_get_ofs_table_top ?t = nv_table_get_ofs_table_top t"
    by (simp add: nv_table_get_ofs_table_top_def f)
  have "ofs + nv_table_get_ofs_table_top t \<le> nt_size t"
    using sh room ofs by (auto simp: nt_shape_def available [OF sh])
  then have sh': "nt_shape ?t" using sh by (simp add: nt_shape_def top)
  have ready': "index_ready ?t h ie" using ready by (simp add: index_ready_def f stat)
  have pos: "0 < NV_TABLE_BOUND n" using n NV_TABLE_BOUND_ge [of n] by linarith
  with ofs have "0 < ofs" by simp
  from nv_table_set_table_entry [OF sh' h ready' this] obtain t' where t':
    "nv_table_set_table_entry ?t h ofs ie = Inr t'" "slot t' = (slot ?t)(h \<mapsto> ofs)" "nt_shape t'"
    "nt_mem t' = nt_mem ?t" "nt_used t' = nt_used ?t" "nt_size t' = nt_size ?t"
    "length (nt_static_entries t') = length (nt_static_entries ?t)"
    "index_handles (nt_index t') = index_handles (nt_index ?t)" by blast
  have "slot ?t = slot t" by (rule slot_cong) (simp_all add: f)
  with t' ofs e pos have "store_step t h ofs e t'" by (simp add: store_step_def f)
  moreover have "length (nt_index t') = length (nt_index t)" using t'(8) f(2) by (metis length_map)
  then have "nv_table_get_ofs_table_top t' = nv_table_get_ofs_table_top t"
    using t' by (simp add: nv_table_get_ofs_table_top_def f)
  then have "nv_table_get_available t' + NV_TABLE_BOUND n = nv_table_get_available t"
    using room ofs t' by (simp add: available [OF sh] available [OF t'(3)] f)
  ultimately show ?thesis using t' by (simp add: f)
qed

section \<open>Storing a direct value\<close>

abbreviation stored_name :: "NVTable \<Rightarrow> NVHandle \<Rightarrow> bytes \<Rightarrow> bytes" where
  "stored_name t h name \<equiv> (if nv_table_is_handle_static t h then [] else name)"

text \<open>The space a store asks for: the entry and an index entry.\<close>

definition direct_need :: "bytes \<Rightarrow> bytes \<Rightarrow> nat" where
  "direct_need name value = NV_TABLE_BOUND (NV_ENTRY_DIRECT_SIZE (length name) (length value)) + 8"

definition direct_cost :: "NVTable \<Rightarrow> NVHandle \<Rightarrow> bytes \<Rightarrow> bytes \<Rightarrow> nat" where
  "direct_cost t h name value =
     NV_TABLE_BOUND (NV_ENTRY_DIRECT_SIZE (length (stored_name t h name)) (length value)) + dyn_cost t h"

lemma direct_cost_le: "direct_cost t h name value \<le> direct_need name value"
  by (simp add: direct_cost_def direct_need_def dyn_cost_def NV_ENTRY_DIRECT_SIZE_def NV_TABLE_BOUND_mono
      trans_le_add1)

text \<open>\<open>t'\<close> has the new entry \<open>e\<close> for \<open>h\<close>, and all other entries of \<open>t\<close>.\<close>

definition stored :: "(NVHandle \<Rightarrow> bytes) \<Rightarrow> NVTable \<Rightarrow> NVHandle \<Rightarrow> NVEntry \<Rightarrow> NVTable \<Rightarrow> bool" where
  "stored names t h e t' =
     (nt_wf names t' \<and> nt_size t' = nt_size t \<and>
      length (nt_static_entries t') = length (nt_static_entries t) \<and>
      (index_handles (nt_index t') = index_handles (nt_index t) \<or>
       slot t h = None \<and> \<not> nv_table_is_handle_static t h \<and> length (nt_index t') = Suc (length (nt_index t))) \<and>
      entry_of t' h = Some e \<and> (\<forall>x. x \<noteq> h \<longrightarrow> slot t' x = slot t x \<and> entry_of t' x = entry_of t x))"

lemma storedI:
  assumes "nt_wf names t1" "same_content t t1" "store_step t1 h ofs e t'" "nt_wf names t'" "nt_size t' = nt_size t"
    and "index_handles (nt_index t1) = index_handles (nt_index t) \<or>
         slot t h = None \<and> \<not> nv_table_is_handle_static t h \<and> length (nt_index t1) = Suc (length (nt_index t))"
    and "index_handles (nt_index t') = index_handles (nt_index t1)"
  shows "stored names t h e t'"
  unfolding stored_def
proof (intro conjI allI impI)
  show "length (nt_static_entries t') = length (nt_static_entries t)"
    using assms(2,3) by (simp add: store_step_def same_content_def)
  show "index_handles (nt_index t') = index_handles (nt_index t) \<or>
      slot t h = None \<and> \<not> nv_table_is_handle_static t h \<and> length (nt_index t') = Suc (length (nt_index t))"
    using assms(6,7) by (metis length_map)
  show "entry_of t' h = Some e" by (rule store_step_entry_of_same [OF assms(3)])
  show "slot t' x = slot t x" if "x \<noteq> h" for x
    using assms(2,3) that by (simp add: store_step_def same_content_def)
  show "entry_of t' x = entry_of t x" if "x \<noteq> h" for x
    using store_step_entry_of [OF assms(1,3) that] same_content_entry_of [OF assms(2)] by simp
qed (use assms in auto)

text \<open>The values of the other handles and the absence of references.\<close>

lemma stored_view:
  assumes "stored names t h e t'" "x \<noteq> h"
    and "no_refs t h \<or> direct_value (entry_of t h) = direct_value (Some e)"
  shows "view t' x = view t x"
proof -
  have other: "entry_of t' y = entry_of t y" if "y \<noteq> h" for y using assms(1) that by (simp add: stored_def)
  have "content t' ex = content t ex" if ex: "entry_of t x = Some ex" for ex
  proof (cases "ne_data ex")
    case (VIndirect r)
    show ?thesis
    proof (cases "rs_handle r = h")
      case True
      then have "\<not> no_refs t h" using ex VIndirect unfolding no_refs_entry_of by blast
      moreover have "entry_of t' h = Some e" using assms(1) by (simp add: stored_def)
      ultimately show ?thesis using assms(3) True by (simp add: content_def VIndirect)
    next
      case False
      then show ?thesis by (simp add: content_def VIndirect other)
    qed
  qed (simp add: content_def)
  then show ?thesis by (simp add: view_def other [OF assms(2)] split: option.splits)
qed

lemma stored_view_direct:
  assumes "stored names t h e t'" "no_refs t h" "ne_data e = VDirect value" "\<not> ne_unset e"
  shows "view t' = (view t)(h \<mapsto> (value, ne_type e))"
proof
  fix x
  have "entry_of t' h = Some e" using assms(1) by (simp add: stored_def)
  then show "view t' x = ((view t)(h \<mapsto> (value, ne_type e))) x"
    using assms stored_view [OF assms(1), of x] by (cases "x = h") (simp_all add: view_def content_def)
qed

lemma stored_no_refs:
  assumes "stored names t h e t'" "no_refs t x" "\<And>r. ne_data e = VIndirect r \<Longrightarrow> rs_handle r \<noteq> x"
  shows "no_refs t' x"
  using assms unfolding no_refs_entry_of stored_def by (metis option.inject)

lemma add_value_new_entry:
  assumes wf: "nt_wf names t" and h: "h \<noteq> 0" and refs: "no_refs t h"
    and ref: "index_ref t h ie is" and room: "length (nt_index t) < 65535"
    and name: "\<not> nv_table_is_handle_static t h \<Longrightarrow> name = names h"
  shows "\<exists>ok t'. add_value_new_entry t h name value type is_new ie is mem mn
             = Inr (ok, is_new, if ok then mn else mn + mem, t') \<and>
           nt_wf names t' \<and> nt_size t' = nt_size t \<and> nv_table_get_available t' \<le> nv_table_get_available t \<and>
           nv_table_get_available t \<le> nv_table_get_available t' + direct_cost t h name value \<and>
           (ok \<longrightarrow> (\<exists>e. stored names t h e t' \<and> ne_data e = VDirect value \<and> ne_type e = type \<and> \<not> ne_unset e)) \<and>
           (\<not> ok \<longrightarrow> same_content t t' \<and>
              (index_handles (nt_index t') = index_handles (nt_index t) \<or>
               slot t h = None \<and> \<not> nv_table_is_handle_static t h \<and> length (nt_index t') = Suc (length (nt_index t))) \<and>
              nv_table_get_available t < direct_cost t h name value)"
proof -
  let ?name = "stored_name t h name"
  let ?n = "NV_ENTRY_DIRECT_SIZE (length ?name) (length value)"
  from alloc_index_entry [OF nt_wf_shape [OF wf] ref h room] obtain ok1 ie1 t1 where
    al: "alloc_index_entry t h ie is = Inr (ok1, ie1, t1)" and same: "same_content t t1" and sh: "nt_shape t1"
    and sz: "nt_size t1 = nt_size t"
    and ix: "index_handles (nt_index t1) = index_handles (nt_index t) \<or>
        slot t h = None \<and> \<not> nv_table_is_handle_static t h \<and> length (nt_index t1) = Suc (length (nt_index t))"
    and ok1: "ok1 \<longrightarrow> index_ready t1 h ie1 \<and> nv_table_get_available t \<le> nv_table_get_available t1 + dyn_cost t h"
    and no1: "\<not> ok1 \<longrightarrow> t1 = t \<and> nv_table_get_available t < dyn_cost t h" by blast
  have stat: "nv_table_is_handle_static t1 = nv_table_is_handle_static t"
    using same by (intro is_handle_static_cong) (simp add: same_content_def)
  have wf1: "nt_wf names t1" by (rule same_content_wf [OF wf same sh])
  show ?thesis
  proof (cases "ok1 \<and> nv_table_alloc_check t1 (NV_TABLE_BOUND ?n)")
    case False
    then have "add_value_new_entry t h name value type is_new ie is mem mn = Inr (False, is_new, mn + mem, t1)"
      by (auto simp: add_value_new_entry_def al nv_table_alloc_value_def stat Let_def)
    moreover have "nv_table_get_available t < direct_cost t h name value"
      using False ok1 no1 by (auto simp: direct_cost_def nv_table_alloc_check_def)
    moreover have "nv_table_get_available t \<le> nv_table_get_available t1 + direct_cost t h name value"
      using ok1 no1 by (cases ok1) (simp_all add: direct_cost_def)
    moreover have "length (nt_index t) \<le> length (nt_index t1)" using ix by (metis le_Suc_eq length_map order_refl)
    then have "nv_table_get_available t1 \<le> nv_table_get_available t"
      using same sz by (simp_all add: available [OF sh] available [OF nt_wf_shape [OF wf]] same_content_def
          nv_table_get_ofs_table_top_def)
    ultimately show ?thesis using wf1 sz same ix
      by (intro exI [of _ False] exI [of _ t1]) auto
  next
    case True
    let ?ofs = "nt_used t1 + NV_TABLE_BOUND ?n"
    let ?raw = "\<lparr>ne_referenced = False, ne_unset = False, ne_type = 0, ne_name = [],
                 ne_alloc_len = NV_TABLE_BOUND ?n, ne_data = VDirect []\<rparr>"
    let ?e = "?raw\<lparr>ne_type := type, ne_name := ?name, ne_data := VDirect value\<rparr>"
    have av: "NV_TABLE_BOUND ?n \<le> nv_table_get_available t1"
      using True by (simp add: nv_table_alloc_check_def)
    have "0 < ?n" by (simp add: NV_ENTRY_DIRECT_SIZE_def)
    from bind_new_entry [OF sh h _ av this, of ie1 ?e ?ofs ?raw] ok1 True obtain t' where t':
      "nv_table_set_table_entry (set_entry (allocated t1 ?ofs ?raw) ?ofs ?e) h ?ofs ie1 = Inr t'"
      "store_step t1 h ?ofs ?e t'" "nt_size t' = nt_size t1"
      "index_handles (nt_index t') = index_handles (nt_index t1)"
      "nv_table_get_available t' + NV_TABLE_BOUND ?n = nv_table_get_available t1" by auto
    have eval: "add_value_new_entry t h name value type is_new ie is mem mn = Inr (True, is_new, mn, t')"
      using True t'(1)
      by (simp add: add_value_new_entry_def al stat nv_table_alloc_value_def Let_def deref_def store_direct_def
          NV_TABLE_BOUND_ge allocated_def)
    have "entry_wf names t' h ?e"
      using store_step_static [OF t'(2)] stat name NV_TABLE_BOUND_ge [of ?n] by (simp add: entry_wf_def)
    moreover have "no_refs t1 h" using refs same_content_no_refs [OF same] by simp
    ultimately have wf': "nt_wf names t'"
      using store_step_wf [OF wf1 t'(2)] by (simp add: keeps_referents_def)
    have "length (nt_index t) \<le> length (nt_index t1)" using ix by (metis le_Suc_eq length_map order_refl)
    then have "nv_table_get_available t1 \<le> nv_table_get_available t"
      using same sz by (simp add: available [OF sh] available [OF nt_wf_shape [OF wf]] same_content_def
          nv_table_get_ofs_table_top_def)
    then have "nv_table_get_available t \<le> nv_table_get_available t' + direct_cost t h name value"
      "nv_table_get_available t' \<le> nv_table_get_available t"
      using ok1 True t'(5) by (simp_all add: direct_cost_def)
    moreover have "stored names t h ?e t'"
      by (rule storedI [OF wf1 same t'(2)]) (use wf' t'(3,4) sz ix in auto)
    ultimately show ?thesis
      using eval wf' t'(3) sz by (intro exI [of _ True] exI [of _ t'] conjI impI exI [of _ ?e]) simp_all
  qed
qed

end
