(* ===== verification/NV_Table_Refs.thy ===== *)
theory NV_Table_Refs
  imports NV_Table_Alloc
begin

text \<open>
  Storing a direct value into the name-value table, and what is needed to break the references to an
  entry: the entries that refer to it, the space it takes to make them direct, and the walk over all
  entries of the table.
\<close>

section \<open>Storing a direct value\<close>

lemma add_value_store:
  assumes wf: "nt_wf names t" and h: "h \<noteq> 0" and refs: "no_refs t h"
    and ref: "index_ref t h ie is" and room: "length (nt_index t) < 65535"
    and name: "\<not> nv_table_is_handle_static t h \<Longrightarrow> name = names h"
  shows "\<exists>ok t'. add_value_store t h name value type want (slot t h) ie is mem mn
             = Inr (ok, want \<and> slot t h = None, if ok then mn else mn + mem, t') \<and>
           nt_wf names t' \<and> nt_size t' = nt_size t \<and> nv_table_get_available t' \<le> nv_table_get_available t \<and>
           nv_table_get_available t \<le> nv_table_get_available t' + direct_cost t h name value \<and>
           (ok \<longrightarrow> (\<exists>e. stored names t h e t' \<and> ne_data e = VDirect value \<and> ne_type e = type \<and> \<not> ne_unset e)) \<and>
           (\<not> ok \<longrightarrow> same_content t t' \<and>
              (index_handles (nt_index t') = index_handles (nt_index t) \<or>
               slot t h = None \<and> \<not> nv_table_is_handle_static t h \<and> length (nt_index t') = Suc (length (nt_index t))) \<and>
              nv_table_get_available t < direct_cost t h name value)"
proof (cases "slot t h")
  case None
  with add_value_new_entry [OF assms, of "value" type want mem mn] show ?thesis
    by (simp add: add_value_store_def)
next
  case (Some ofs)
  from nt_wf_entry [OF wf Some] obtain old where old: "nt_mem t ofs = Some old" by blast
  show ?thesis
  proof (cases "NV_ENTRY_DIRECT_SIZE (length (ne_name old)) (length value) \<le> ne_alloc_len old")
    case False
    with Some old add_value_new_entry [OF assms, of "value" type False mem mn] show ?thesis
      by (simp add: add_value_store_def deref_def)
  next
    case True
    from overwrite_with_a_direct_entry [OF wf Some old refs True name, of type] obtain e t' where
      ow: "overwrite_with_a_direct_entry t h ofs name value type = Inr t'" "store_step t h ofs e t'"
      "nt_wf names t'" "ne_data e = VDirect value" "ne_type e = type" "\<not> ne_unset e"
      "nt_index t' = nt_index t" "nt_size t' = nt_size t" "nt_used t' = nt_used t" by blast
    have "nv_table_get_available t' = nv_table_get_available t"
      using ow by (simp add: nv_table_get_available_def nv_table_get_ofs_table_top_def store_step_def)
    moreover have "stored names t h e t'"
      by (rule storedI [OF wf _ ow(2)]) (use ow in auto)
    ultimately show ?thesis
      using Some old True ow
      by (intro exI [of _ True] exI [of _ t']) (auto simp: add_value_store_def deref_def)
  qed
qed

lemma wf_indirect_no_refs:
  assumes "nt_wf names t" "entry_of t x = Some e" "ne_data e = VIndirect r"
  shows "no_refs t x"
  unfolding no_refs_entry_of
proof (intro allI impI notI)
  fix y e' r' assume y: "entry_of t y = Some e'" "ne_data e' = VIndirect r'" "rs_handle r' = x"
  then obtain ofs where "slot t y = Some ofs" "nt_mem t ofs = Some e'"
    by (auto simp: entry_of_def split: option.splits)
  with nt_wf_entry [OF assms(1)] y(2) have "refers_to_direct t r'" by (force simp: entry_wf_def)
  with assms y(3) show False by (auto simp: refers_to_direct_entry_of)
qed

lemma wf_no_refs:
  assumes "nt_wf names t"
    and "\<And>e v. entry_of t h = Some e \<Longrightarrow> ne_data e = VDirect v \<Longrightarrow> \<not> ne_referenced e"
  shows "no_refs t h"
  unfolding no_refs_entry_of
proof (intro allI impI notI)
  fix y e' r' assume y: "entry_of t y = Some e'" "ne_data e' = VIndirect r'" "rs_handle r' = h"
  then obtain ofs where "slot t y = Some ofs" "nt_mem t ofs = Some e'"
    by (auto simp: entry_of_def split: option.splits)
  with nt_wf_entry [OF assms(1)] y(2) have "refers_to_direct t r'" by (force simp: entry_wf_def)
  with assms(2) y(3) show False by (auto simp: refers_to_direct_entry_of)
qed

lemma direct_length:
  assumes "nt_wf names t" "entry_of t h = Some e" "ne_data e = VDirect v"
  shows "length v \<le> NV_TABLE_MAX_BYTES"
proof -
  from assms(2) obtain ofs where s: "slot t h = Some ofs" "nt_mem t ofs = Some e"
    by (auto simp: entry_of_def split: option.splits)
  from nt_wf_entry [OF assms(1) s(1)] s(2) have "ofs \<le> nt_used t" "ne_alloc_len e \<le> ofs" "entry_wf names t h e"
    by auto
  moreover have "nt_used t \<le> NV_TABLE_MAX_BYTES" using nt_wf_shape [OF assms(1)] by (simp add: nt_shape_def)
  ultimately show ?thesis using assms(3) by (simp add: entry_wf_def NV_ENTRY_DIRECT_SIZE_def)
qed

lemma content_length:
  assumes "nt_wf names t" "entry_of t h = Some e"
  shows "length (content t e) \<le> NV_TABLE_MAX_BYTES"
proof (cases "ne_data e")
  case (VDirect v)
  then show ?thesis using direct_length [OF assms] by (simp add: content_def)
next
  case (VIndirect r)
  have "length (slice_of r (direct_value (entry_of t x))) \<le> NV_TABLE_MAX_BYTES" for x
  proof (cases "direct_value (entry_of t x)")
    case (Some v)
    then obtain e' where "entry_of t x = Some e'" "ne_data e' = VDirect v"
      by (auto simp: direct_value_def split: option.splits if_splits NVData.splits)
    from direct_length [OF assms(1) this] Some show ?thesis by (simp add: slice_of_def)
  qed (simp add: slice_of_def)
  then show ?thesis by (simp add: content_def VIndirect)
qed

section \<open>Breaking references\<close>

text \<open>The space that making \<open>x\<close> direct asks for, if \<open>x\<close> refers to \<open>h\<close>.\<close>

definition refers :: "NVTable \<Rightarrow> NVHandle \<Rightarrow> NVHandle \<Rightarrow> NVEntry \<Rightarrow> bool" where
  "refers t h x e = (entry_of t x = Some e \<and> (case ne_data e of VIndirect r \<Rightarrow> rs_handle r = h | VDirect _ \<Rightarrow> False))"

definition ref_cost :: "NVTable \<Rightarrow> NVHandle \<Rightarrow> NVHandle \<Rightarrow> nat" where
  "ref_cost t h x =
     (case entry_of t x of
        None \<Rightarrow> 0
      | Some e \<Rightarrow> if refers t h x e then direct_need (ne_name e) (content t e) else 0)"

definition all_handles :: "NVTable \<Rightarrow> NVHandle list" where
  "all_handles t = map (\<lambda>i. of_nat (i + 1)) [0..<length (nt_static_entries t)] @ index_handles (nt_index t)"

definition ref_need :: "NVTable \<Rightarrow> NVHandle \<Rightarrow> NVHandle list \<Rightarrow> nat" where
  "ref_need t h xs = sum_list (map (ref_cost t h) xs)"

lemma ref_cost_refers: "refers t h x e \<Longrightarrow> ref_cost t h x = direct_need (ne_name e) (content t e)"
  by (simp add: ref_cost_def refers_def)

lemma ref_cost_pos: "refers t h x e \<Longrightarrow> 0 < ref_cost t h x"
  by (simp add: ref_cost_refers direct_need_def)

lemma no_refs_refers: "no_refs t h \<longleftrightarrow> (\<forall>x e. \<not> refers t h x e)"
  by (auto simp: no_refs_entry_of refers_def split: NVData.splits)

lemma no_refs_cost: "no_refs t h \<Longrightarrow> ref_cost t h x = 0"
  by (auto simp: ref_cost_def no_refs_refers split: option.splits)

lemma unat_of_nat_Suc_le:
  assumes "i < 256"
  shows "unat (of_nat (i + 1) :: NVHandle) = i + 1"
  using assms by (simp add: unat_of_nat del: of_nat_Suc of_nat_add)

lemma slot_in_all_handles:
  assumes "nt_shape t" "slot t x \<noteq> None"
  shows "x \<in> set (all_handles t)"
proof (cases "nv_table_is_handle_static t x")
  case True
  have "x \<noteq> 0" using assms(2) by (auto simp: slot_def)
  with True have "unat x - 1 < length (nt_static_entries t)" "x = of_nat (unat x - 1 + 1)"
    by (auto simp: nv_table_is_handle_static_def unat_gt_0 [symmetric])
  then show ?thesis unfolding all_handles_def by (auto simp: image_iff)
next
  case False
  then have "map_of (map (\<lambda>x. (ie_handle x, ie_ofs x)) (nt_index t)) x \<noteq> None"
    using assms(2) by (auto simp: slot_def slot_ofs_def split: if_splits option.splits)
  then have "x \<in> set (index_handles (nt_index t))" using map_of_index_None [of x "nt_index t"] by argo
  then show ?thesis by (simp add: all_handles_def)
qed

lemma distinct_all_handles:
  assumes "nt_shape t"
  shows "distinct (all_handles t)"
proof -
  have "inj_on (\<lambda>i. of_nat (i + 1) :: NVHandle) (set [0..<length (nt_static_entries t)])"
  proof (rule inj_onI)
    fix i j assume "i \<in> set [0..<length (nt_static_entries t)]" "j \<in> set [0..<length (nt_static_entries t)]"
      and eq: "(of_nat (i + 1) :: NVHandle) = of_nat (j + 1)"
    then have "i < 256" "j < 256" using assms by (auto simp: nt_shape_def)
    with eq unat_of_nat_Suc_le [of i] unat_of_nat_Suc_le [of j] show "i = j" by simp
  qed
  moreover have apart: "of_nat (i + 1) \<notin> set (index_handles (nt_index t))" if "i < length (nt_static_entries t)" for i
  proof -
    have "unat (of_nat (i + 1) :: NVHandle) \<le> length (nt_static_entries t)"
      using unat_of_nat_Suc_le [of i] that assms by (simp add: nt_shape_def)
    then show ?thesis using assms by (auto simp: nt_shape_def)
  qed
  have "set (map (\<lambda>i. of_nat (i + 1)) [0..<length (nt_static_entries t)])
      \<inter> set (index_handles (nt_index t)) = {}"
  proof (intro equals0I, elim IntE)
    fix x :: NVHandle
    assume "x \<in> set (map (\<lambda>i. of_nat (i + 1)) [0..<length (nt_static_entries t)])"
    then obtain i where "i < length (nt_static_entries t)" "x = of_nat (i + 1)"
      by (auto simp del: of_nat_Suc of_nat_add)
    moreover assume "x \<in> set (index_handles (nt_index t))"
    ultimately show False using apart by blast
  qed
  moreover have "distinct (index_handles (nt_index t))"
    using assms by (intro distinct_index) (simp add: nt_shape_def)
  ultimately show ?thesis unfolding all_handles_def by (simp only: distinct_append distinct_map) simp
qed

lemma ref_need_eq_0:
  assumes "nt_shape t" "ref_need t h (all_handles t) = 0"
  shows "no_refs t h"
  unfolding no_refs_refers
proof (intro allI notI)
  fix x e assume "refers t h x e"
  then have "slot t x \<noteq> None" by (auto simp: refers_def entry_of_def split: option.splits)
  from slot_in_all_handles [OF assms(1) this] assms(2) have "ref_cost t h x = 0"
    by (auto simp: ref_need_def sum_list_eq_0_iff)
  with ref_cost_pos [OF \<open>refers t h x e\<close>] show False by simp
qed

lemma no_refs_need: "no_refs t h \<Longrightarrow> ref_need t h xs = 0"
  by (simp add: ref_need_def no_refs_cost)

section \<open>Walking over the entries\<close>

lemma static_slot_Some:
  assumes "nt_shape t" "static_slot t i = Some (x, ofs)"
  shows "i < length (nt_static_entries t)" "x = all_handles t ! i" "slot t x = nv_table_get_entry_at_ofs ofs"
proof -
  show i: "i < length (nt_static_entries t)" and x: "x = all_handles t ! i"
    using assms(2) by (auto simp: static_slot_def all_handles_def nth_append split: if_splits)
  have "unat (of_nat (i + 1) :: NVHandle) = i + 1"
    by (rule unat_of_nat_Suc_le) (use i assms(1) in \<open>simp add: nt_shape_def\<close>)
  moreover have "x = of_nat (i + 1)" "ofs = nt_static_entries t ! i"
    using assms(2) by (auto simp: static_slot_def split: if_splits)
  ultimately have "unat x = i + 1" "x \<noteq> 0" by auto
  then show "slot t x = nv_table_get_entry_at_ofs ofs"
    using i \<open>ofs = nt_static_entries t ! i\<close>
    by (simp add: slot_def slot_ofs_def nv_table_is_handle_static_def nv_table_get_entry_at_ofs_def)
qed

lemma index_slot_at_Some:
  assumes "nt_shape t" "index_slot_at t i = Some (x, ofs)"
  shows "i < length (nt_index t)" "x = all_handles t ! (length (nt_static_entries t) + i)"
    "slot t x = nv_table_get_entry_at_ofs ofs"
proof -
  show i: "i < length (nt_index t)" and x: "x = all_handles t ! (length (nt_static_entries t) + i)"
    using assms(2) by (auto simp: index_slot_at_def all_handles_def nth_append split: if_splits)
  have e: "x = ie_handle (nt_index t ! i)" "ofs = ie_ofs (nt_index t ! i)"
    using assms(2) by (auto simp: index_slot_at_def split: if_splits)
  have "length (nt_static_entries t) < unat x" using assms(1) i e(1) by (simp add: nt_shape_def)
  moreover have "map_of (map (\<lambda>x. (ie_handle x, ie_ofs x)) (nt_index t)) x = Some ofs"
    using map_of_index_Some [of "nt_index t" i x] assms(1) i e by (simp add: nt_shape_def)
  ultimately show "slot t x = nv_table_get_entry_at_ofs ofs"
    by (auto simp: slot_def slot_ofs_def nv_table_is_handle_static_def nv_table_get_entry_at_ofs_def)
qed

text \<open>The invariant rule of the two loops: every step that visits a slot goes on.\<close>

lemma foreach_slots:
  assumes "P i s" and "N < n + i" and "i \<le> N"
    and "\<And>i s x ofs. P i s \<Longrightarrow> slot_at (table_of s) i = Some (x, ofs) \<Longrightarrow> i < N"
    and "\<And>i s x. P i s \<Longrightarrow> slot_at (table_of s) i = Some (x, 0) \<Longrightarrow> P (Suc i) s"
    and "\<And>i s x ofs. P i s \<Longrightarrow> slot_at (table_of s) i = Some (x, ofs) \<Longrightarrow> 0 < ofs \<Longrightarrow>
           \<exists>s'. func x ofs s = Inr (False, s') \<and> P (Suc i) s'"
  shows "\<exists>j s'. foreach_slots slot_at table_of func n i s = Inr (False, s') \<and> P j s' \<and>
           slot_at (table_of s') j = None"
  using assms(1-3)
proof (induction n arbitrary: i s)
  case (Suc n)
  show ?case
  proof (cases "slot_at (table_of s) i")
    case None
    with Suc.prems show ?thesis by auto
  next
    case (Some a)
    obtain x ofs where a: "a = (x, ofs)" by (cases a)
    have N: "N < n + Suc i" "Suc i \<le> N" using Suc.prems(2) assms(4) [OF Suc.prems(1)] Some a by auto
    show ?thesis
    proof (cases "ofs = 0")
      case True
      with Suc.IH [OF assms(5) [OF Suc.prems(1)] N, of x] Some a show ?thesis
        by (simp add: nv_table_get_entry_at_ofs_def)
    next
      case False
      then have "0 < ofs" by simp
      from assms(6) [OF Suc.prems(1) _ this, of x] Some a obtain s' where
        s': "func x ofs s = Inr (False, s')" "P (Suc i) s'" by blast
      with Suc.IH [OF s'(2) N] Some a False show ?thesis
        by (simp add: nv_table_get_entry_at_ofs_def)
    qed
  qed
qed simp

text \<open>Over both loops the invariant is about the number \<open>k\<close> of handles of \<open>all_handles\<close> that were
  visited, as long as the set of handles stays.\<close>

lemma foreach_entry:
  assumes init: "P 0 s" and hs: "\<And>k s. P k s \<Longrightarrow> nt_shape (table_of s) \<and>
      length (nt_static_entries (table_of s)) = ns \<and> length (nt_index (table_of s)) = ni"
    and skip: "\<And>k s. P k s \<Longrightarrow> k < ns + ni \<Longrightarrow> slot (table_of s) (all_handles (table_of s) ! k) = None \<Longrightarrow> P (Suc k) s"
    and step: "\<And>k s ofs. P k s \<Longrightarrow> k < ns + ni \<Longrightarrow> slot (table_of s) (all_handles (table_of s) ! k) = Some ofs \<Longrightarrow>
           \<exists>s'. func (all_handles (table_of s) ! k) ofs s = Inr (False, s') \<and> P (Suc k) s'"
  shows "\<exists>s'. nv_table_foreach_entry table_of func s = Inr (False, s') \<and> P (ns + ni) s'"
proof -
  define P1 where "P1 i s \<longleftrightarrow> P i s \<and> i \<le> ns" for i s
  define P2 where "P2 i s \<longleftrightarrow> P (ns + i) s \<and> i \<le> ni" for i s
  have ns: "ns < 256" and ni: "ni < 65536" using hs [OF init] by (auto simp: nt_shape_def)
  have "\<exists>j s1. foreach_slots static_slot table_of func 256 0 s = Inr (False, s1) \<and> P1 j s1 \<and>
      static_slot (table_of s1) j = None"
  proof (rule foreach_slots [where N = ns])
    fix i s x ofs assume P: "P1 i s" and sl: "static_slot (table_of s) i = Some (x, ofs)"
    then have sh: "nt_shape (table_of s)" "length (nt_static_entries (table_of s)) = ns" "P i s"
      using hs by (auto simp: P1_def)
    note f = static_slot_Some [OF sh(1) sl]
    show "i < ns" using f(1) sh(2) by simp
    show "\<exists>s'. func x ofs s = Inr (False, s') \<and> P1 (Suc i) s'" if "0 < ofs"
      using step [OF sh(3), of ofs] f sh(2) that by (auto simp: P1_def nv_table_get_entry_at_ofs_def)
  next
    fix i s x assume P: "P1 i s" and sl: "static_slot (table_of s) i = Some (x, 0)"
    then have sh: "nt_shape (table_of s)" "length (nt_static_entries (table_of s)) = ns" "P i s"
      using hs by (auto simp: P1_def)
    note f = static_slot_Some [OF sh(1) sl]
    show "P1 (Suc i) s"
      using skip [OF sh(3)] f sh(2) by (auto simp: P1_def nv_table_get_entry_at_ofs_def)
  qed (use init ns in \<open>auto simp: P1_def\<close>)
  then obtain j s1 where s1: "foreach_slots static_slot table_of func 256 0 s = Inr (False, s1)" "P1 j s1"
    "static_slot (table_of s1) j = None" by blast
  then have "j = ns" using hs by (auto simp: P1_def static_slot_def split: if_splits)
  with s1(2) have "P2 0 s1" by (simp add: P1_def P2_def)
  then have "\<exists>j s2. foreach_slots index_slot_at table_of func 65536 0 s1 = Inr (False, s2) \<and> P2 j s2 \<and>
      index_slot_at (table_of s2) j = None"
  proof (rule foreach_slots [where N = ni])
    fix i s x ofs assume P: "P2 i s" and sl: "index_slot_at (table_of s) i = Some (x, ofs)"
    then have sh: "nt_shape (table_of s)" "length (nt_static_entries (table_of s)) = ns"
      "length (nt_index (table_of s)) = ni" "P (ns + i) s"
      using hs by (auto simp: P2_def)
    note f = index_slot_at_Some [OF sh(1) sl]
    show "i < ni" using f(1) sh(3) by simp
    show "\<exists>s'. func x ofs s = Inr (False, s') \<and> P2 (Suc i) s'" if "0 < ofs"
      using step [OF sh(4), of ofs] f sh that by (auto simp: P2_def nv_table_get_entry_at_ofs_def)
  next
    fix i s x assume P: "P2 i s" and sl: "index_slot_at (table_of s) i = Some (x, 0)"
    then have sh: "nt_shape (table_of s)" "length (nt_static_entries (table_of s)) = ns"
      "length (nt_index (table_of s)) = ni" "P (ns + i) s"
      using hs by (auto simp: P2_def)
    note f = index_slot_at_Some [OF sh(1) sl]
    show "P2 (Suc i) s"
      using skip [OF sh(4)] f sh by (auto simp: P2_def nv_table_get_entry_at_ofs_def)
  qed (use ni in auto)
  then obtain j2 s2 where s2: "foreach_slots index_slot_at table_of func 65536 0 s1 = Inr (False, s2)" "P2 j2 s2"
    "index_slot_at (table_of s2) j2 = None" by blast
  then have "j2 = ni" using hs by (auto simp: P2_def index_slot_at_def split: if_splits)
  with s1(1) s2 show ?thesis by (simp add: nv_table_foreach_entry_def P2_def)
qed

section \<open>Making the references direct\<close>

text \<open>
  \<open>broken names t0 h k t\<close>: the table \<open>t\<close> that has become of \<open>t0\<close> after the first \<open>k\<close> handles were visited
  while breaking the references to \<open>h\<close>.
\<close>

definition broken :: "(NVHandle \<Rightarrow> bytes) \<Rightarrow> NVTable \<Rightarrow> NVHandle \<Rightarrow> nat \<Rightarrow> NVTable \<Rightarrow> bool" where
  "broken names t0 h k t =
     (nt_wf names t \<and> view t = view t0 \<and> nt_size t = nt_size t0 \<and>
      length (nt_static_entries t) = length (nt_static_entries t0) \<and>
      index_handles (nt_index t) = index_handles (nt_index t0) \<and>
      (\<forall>x e v. entry_of t0 x = Some e \<longrightarrow> ne_data e = VDirect v \<longrightarrow> slot t x = slot t0 x \<and> entry_of t x = Some e) \<and>
      (\<forall>x e. refers t h x e \<longrightarrow> refers t0 h x e) \<and>
      nv_table_get_available t \<le> nv_table_get_available t0 \<and>
      nv_table_get_available t0 \<le> nv_table_get_available t + ref_need t0 h (take k (all_handles t0)) \<and>
      (0 < ref_need t h (take k (all_handles t0)) \<longrightarrow>
         nv_table_get_available t < ref_need t h (take k (all_handles t0)) \<and>
         nv_table_get_available t0 < ref_need t0 h (take k (all_handles t0))))"

lemma broken_0: "nt_wf names t \<Longrightarrow> broken names t h 0 t"
  by (simp add: broken_def ref_need_def)

lemma all_handles_cong:
  "length (nt_static_entries t') = length (nt_static_entries t) \<Longrightarrow>
   index_handles (nt_index t') = index_handles (nt_index t) \<Longrightarrow> all_handles t' = all_handles t"
  by (simp add: all_handles_def)

lemma broken_all_handles: "broken names t0 h k t \<Longrightarrow> all_handles t = all_handles t0"
  by (rule all_handles_cong) (simp_all add: broken_def)

lemma ref_need_take_Suc:
  "k < length hs \<Longrightarrow> ref_need t h (take (Suc k) hs) = ref_need t h (take k hs) + ref_cost t h (hs ! k)"
  by (simp add: ref_need_def take_Suc_conv_app_nth)

lemma content_cong: "entry_of t (rs_handle r) = entry_of t' (rs_handle r) \<Longrightarrow> ne_data e = VIndirect r \<Longrightarrow>
    content t e = content t' e"
  by (simp add: content_def)

lemma refers_content:
  assumes "refers t h x e" "entry_of t h = entry_of t' h"
  shows "content t e = content t' e"
  using assms by (auto simp: refers_def content_def split: NVData.splits)

lemma broken_cost_le:
  assumes "broken names t0 h k t" "entry_of t0 h = Some e0" "ne_data e0 = VDirect v0"
  shows "ref_cost t h x \<le> ref_cost t0 h x"
proof (cases "\<exists>e. refers t h x e")
  case True
  then obtain e where e: "refers t h x e" by blast
  then have e': "refers t0 h x e" using assms(1) by (simp add: broken_def)
  have "entry_of t h = entry_of t0 h" using assms by (simp add: broken_def)
  from refers_content [OF e this] show ?thesis by (simp add: ref_cost_refers [OF e] ref_cost_refers [OF e'])
next
  case False
  then show ?thesis by (auto simp: ref_cost_def split: option.splits)
qed

text \<open>Visiting a handle that does not refer to \<open>h\<close> changes nothing.\<close>

lemma broken_skip:
  assumes "broken names t0 h k t" "k < length (all_handles t0)" "\<forall>e. \<not> refers t h (all_handles t0 ! k) e"
  shows "broken names t0 h (Suc k) t \<and>
         ref_need t h (take (Suc k) (all_handles t0)) = ref_need t h (take k (all_handles t0))"
proof -
  have "ref_cost t h (all_handles t0 ! k) = 0" using assms(3) by (auto simp: ref_cost_def split: option.splits)
  then show ?thesis using assms(1) by (auto simp: broken_def ref_need_take_Suc [OF assms(2)])
qed

text \<open>The store that makes one entry direct.\<close>

lemma add_value_indirect_entry:
  assumes wf: "nt_wf names t" and x: "slot t x = Some ofs" "nt_mem t ofs = Some e" "ne_data e = VIndirect r"
    and room: "length (nt_index t) < 65535"
  shows "\<exists>ok t'. add_value_fuel (Suc n) t x (ne_name e) (content t e) (ne_type e) False 0
             = Inr (ok, False, if ok then 0 else of_nat (direct_need (ne_name e) (content t e)), t') \<and>
           nt_wf names t' \<and> nt_size t' = nt_size t \<and> nv_table_get_available t' \<le> nv_table_get_available t \<and>
           nv_table_get_available t \<le> nv_table_get_available t' + direct_need (ne_name e) (content t e) \<and>
           (ok \<longrightarrow> (\<exists>e'. stored names t x e' t' \<and> ne_data e' = VDirect (content t e) \<and> ne_type e' = ne_type e \<and>
                     \<not> ne_unset e')) \<and>
           (\<not> ok \<longrightarrow> same_content t t' \<and> index_handles (nt_index t') = index_handles (nt_index t) \<and>
              nv_table_get_available t < direct_need (ne_name e) (content t e))"
proof -
  have e: "entry_of t x = Some e" using x by (simp add: entry_of_def)
  have h: "x \<noteq> 0" using x(1) by (auto simp: slot_def)
  have "entry_wf names t x e" using nt_wf_entry [OF wf x(1)] x(2) by auto
  then have nm: "\<not> nv_table_is_handle_static t x \<Longrightarrow> ne_name e = names x"
    by (auto simp: entry_wf_def)
  from get_entry [OF nt_wf_sorted [OF wf], of x] obtain ie "is" where
    g: "nv_table_get_entry t x = Inr (slot t x, ie, is)" "index_ref t x ie is" by blast
  let ?mem = "of_nat (direct_need (ne_name e) (content t e)) :: guint32"
  have "take NV_TABLE_MAX_BYTES (content t e) = content t e"
    using content_length [OF wf e] by simp
  then have eq: "add_value_fuel (Suc n) t x (ne_name e) (content t e) (ne_type e) False 0
      = add_value_store t x (ne_name e) (content t e) (ne_type e) False (slot t x) ie is ?mem 0"
    using x by (simp add: add_value_body_def g(1) nv_table_break_references_to_entry_def deref_def direct_need_def Let_def)
  from add_value_store [OF wf h wf_indirect_no_refs [OF wf e x(3)] g(2) room nm,
      of "content t e" "ne_type e" False ?mem 0]
  obtain ok t' where t': "add_value_store t x (ne_name e) (content t e) (ne_type e) False (slot t x) ie is ?mem 0
      = Inr (ok, False \<and> slot t x = None, if ok then 0 else 0 + ?mem, t')"
    "nt_wf names t'" "nt_size t' = nt_size t" "nv_table_get_available t' \<le> nv_table_get_available t"
    "nv_table_get_available t \<le> nv_table_get_available t' + direct_cost t x (ne_name e) (content t e)"
    "ok \<longrightarrow> (\<exists>e'. stored names t x e' t' \<and> ne_data e' = VDirect (content t e) \<and> ne_type e' = ne_type e \<and>
                     \<not> ne_unset e')"
    "\<not> ok \<longrightarrow> same_content t t' \<and>
              (index_handles (nt_index t') = index_handles (nt_index t) \<or>
               slot t x = None \<and> \<not> nv_table_is_handle_static t x \<and> length (nt_index t') = Suc (length (nt_index t))) \<and>
              nv_table_get_available t < direct_cost t x (ne_name e) (content t e)"
    by blast
  with direct_cost_le [of t x "ne_name e" "content t e"] x(1) show ?thesis
    unfolding eq by (intro exI [of _ ok] exI [of _ t']) (cases ok; simp)
qed

lemma resolve_indirect:
  assumes wf: "nt_wf names t" and x: "slot t x = Some ofs" "nt_mem t ofs = Some e" "ne_data e = VIndirect r"
  shows "nv_table_resolve_indirect t e = Inr (content t e)"
proof -
  have "entry_wf names t x e" using nt_wf_entry [OF wf x(1)] x(2) by auto
  then show ?thesis
    using resolve_slice [OF wf, of r 1] x(3)
    by (simp add: nv_table_resolve_indirect_def nv_table_get_value_def entry_wf_def content_def numeral_2_eq_2)
qed

lemma refers_cong: "entry_of t' x = entry_of t x \<Longrightarrow> refers t' h x = refers t h x"
  by (simp add: refers_def fun_eq_iff)

lemma ref_cost_cong:
  assumes "entry_of t' x = entry_of t x" "entry_of t' h = entry_of t h"
  shows "ref_cost t' h x = ref_cost t h x"
proof (cases "\<exists>e. refers t h x e")
  case True
  then obtain e where e: "refers t h x e" by blast
  then have "refers t' h x e" using refers_cong [of t' x t h] assms(1) by simp
  with e refers_content [OF e assms(2) [symmetric]] show ?thesis by (simp add: ref_cost_refers)
next
  case False
  then show ?thesis
    using refers_cong [of t' x t h] assms(1) by (auto simp: ref_cost_def split: option.splits)
qed

lemma ref_cost_not_refers: "\<forall>e. \<not> refers t h x e \<Longrightarrow> ref_cost t h x = 0"
  by (auto simp: ref_cost_def split: option.splits)

lemma same_content_ref_need:
  assumes "same_content t t'"
  shows "ref_need t' h xs = ref_need t h xs"
proof -
  have "ref_cost t' h = ref_cost t h"
    by (intro ext ref_cost_cong) (simp_all add: same_content_entry_of [OF assms])
  then show ?thesis by (simp add: ref_need_def)
qed

lemma broken_direct:
  assumes br: "broken names t0 h k t" and k: "k < length (all_handles t0)"
    and x: "refers t h (all_handles t0 ! k) e"
    and st: "stored names t (all_handles t0 ! k) e' t'" "ne_data e' = VDirect (content t e)" "ne_type e' = ne_type e"
      "\<not> ne_unset e'" "\<not> ne_unset e"
    and av: "nv_table_get_available t' \<le> nv_table_get_available t"
      "nv_table_get_available t \<le> nv_table_get_available t' + ref_cost t h (all_handles t0 ! k)"
    and h: "entry_of t0 h = Some e0" "ne_data e0 = VDirect v0"
  shows "broken names t0 h (Suc k) t' \<and>
         ref_need t' h (take (Suc k) (all_handles t0)) = ref_need t h (take k (all_handles t0))"
proof -
  let ?x = "all_handles t0 ! k"
  have wf: "nt_wf names t" and eh: "entry_of t h = Some e0" and t0sh: "all_handles t = all_handles t0"
    using br h broken_all_handles [OF br] by (auto simp: broken_def)
  obtain r where r: "entry_of t ?x = Some e" "ne_data e = VIndirect r" "rs_handle r = h"
    using x by (auto simp: refers_def split: NVData.splits)
  then have hx: "?x \<noteq> h" using eh h(2) by auto
  have other: "slot t' y = slot t y" "entry_of t' y = entry_of t y" if "y \<noteq> ?x" for y
    using st(1) that by (auto simp: stored_def)
  have xdir: "entry_of t' ?x = Some e'" using st(1) by (simp add: stored_def)
  have vw: "view t' = view t"
    using stored_view_direct [OF st(1) wf_indirect_no_refs [OF wf r(1,2)] st(2,4)] r(1) st(3,5)
    by (simp add: fun_upd_idem view_def)
  have xno: "\<forall>f. \<not> refers t' h ?x f" using xdir st(2) by (auto simp: refers_def)
  have ref: "refers t0 h y f" if "refers t' h y f" for y f
    using that xno refers_cong [OF other(2), of y h] br by (cases "y = ?x") (auto simp: broken_def)
  have some: "slot t ?x \<noteq> None" using r(1) by (auto simp: entry_of_def split: option.splits)
  have dir: "slot t' y = slot t0 y \<and> entry_of t' y = Some f" if "entry_of t0 y = Some f" "ne_data f = VDirect v" for y f v
  proof -
    have "slot t y = slot t0 y" "entry_of t y = Some f" using br that by (auto simp: broken_def)
    moreover from this that r have "y \<noteq> ?x" by auto
    ultimately show ?thesis using other by simp
  qed
  have "distinct (all_handles t0)"
    using distinct_all_handles [OF nt_wf_shape [OF wf]] t0sh by simp
  then have "?x \<notin> set (take k (all_handles t0))"
    using k by (simp add: id_take_nth_drop [of k] distinct_conv_nth in_set_conv_nth)
  then have mc: "map (ref_cost t' h) (take k (all_handles t0)) = map (ref_cost t h) (take k (all_handles t0))"
    using hx other(2) by (intro map_cong refl ref_cost_cong) metis+
  have rn: "ref_need t' h (take (Suc k) (all_handles t0)) = ref_need t h (take k (all_handles t0))"
    unfolding ref_need_take_Suc [OF k] ref_cost_not_refers [OF xno] unfolding ref_need_def mc by simp
  have le: "ref_cost t h ?x \<le> ref_cost t0 h ?x" by (rule broken_cost_le [OF br h])
  have br': "nv_table_get_available t \<le> nv_table_get_available t0"
    "nv_table_get_available t0 \<le> nv_table_get_available t + ref_need t0 h (take k (all_handles t0))"
    "0 < ref_need t h (take k (all_handles t0)) \<Longrightarrow>
         nv_table_get_available t < ref_need t h (take k (all_handles t0)) \<and>
         nv_table_get_available t0 < ref_need t0 h (take k (all_handles t0))"
    "view t = view t0" "nt_size t = nt_size t0" "index_handles (nt_index t) = index_handles (nt_index t0)"
    "length (nt_static_entries t) = length (nt_static_entries t0)"
    using br by (auto simp: broken_def)
  have "broken names t0 h (Suc k) t'"
    unfolding broken_def rn
  proof (intro conjI)
    show "nv_table_get_available t0 \<le> nv_table_get_available t' + ref_need t0 h (take (Suc k) (all_handles t0))"
      using av le br'(2) by (simp add: ref_need_take_Suc [OF k])
    show "0 < ref_need t h (take k (all_handles t0)) \<longrightarrow>
         nv_table_get_available t' < ref_need t h (take k (all_handles t0)) \<and>
         nv_table_get_available t0 < ref_need t0 h (take (Suc k) (all_handles t0))"
      using br'(3) av(1) by (auto simp: ref_need_take_Suc [OF k])
    show "nv_table_get_available t' \<le> nv_table_get_available t0" using av(1) br'(1) by linarith
    show "index_handles (nt_index t') = index_handles (nt_index t0)"
      using st(1) some br'(6) by (simp add: stored_def)
  qed (use st(1) vw br' dir ref in \<open>auto simp: stored_def\<close>)
  with rn show ?thesis by simp
qed

lemma broken_failed:
  assumes br: "broken names t0 h k t" and k: "k < length (all_handles t0)"
    and x: "refers t h (all_handles t0 ! k) e"
    and st: "same_content t t'" "nt_wf names t'" "nt_size t' = nt_size t"
      "index_handles (nt_index t') = index_handles (nt_index t)"
    and av: "nv_table_get_available t' \<le> nv_table_get_available t"
      "nv_table_get_available t \<le> nv_table_get_available t' + ref_cost t h (all_handles t0 ! k)"
      "nv_table_get_available t < ref_cost t h (all_handles t0 ! k)"
    and h: "entry_of t0 h = Some e0" "ne_data e0 = VDirect v0"
  shows "broken names t0 h (Suc k) t' \<and>
         ref_need t' h (take (Suc k) (all_handles t0))
           = ref_need t h (take k (all_handles t0)) + ref_cost t h (all_handles t0 ! k)"
proof -
  let ?x = "all_handles t0 ! k"
  have rn: "ref_need t' h xs = ref_need t h xs" for xs by (rule same_content_ref_need [OF st(1)])
  have le: "ref_cost t h ?x \<le> ref_cost t0 h ?x" by (rule broken_cost_le [OF br h])
  have ent: "entry_of t' = entry_of t" by (rule same_content_entry_of [OF st(1)])
  then have ref: "refers t' h y f = refers t h y f" for y f using refers_cong [of t' y t h] by simp
  have "broken names t0 h (Suc k) t'"
    unfolding broken_def rn ref ent same_content_view [OF st(1)]
    using br st le av by (auto simp: broken_def ref_need_take_Suc [OF k] same_content_def)
  then show ?thesis unfolding rn by (simp add: ref_need_take_Suc [OF k])
qed

lemma make_entry_direct:
  assumes br: "broken names t0 h k t" and k: "k < length (all_handles t0)"
    and x: "slot t (all_handles t0 ! k) = Some ofs"
    and h: "entry_of t0 h = Some e0" "ne_data e0 = VDirect v0"
    and set: "\<And>x e. refers t0 h x e \<Longrightarrow> \<not> ne_unset e"
    and room: "length (nt_index t0) < 65535"
  shows "\<exists>t'. make_entry_direct (add_value_fuel (Suc n)) h (all_handles t0 ! k) ofs
               (t, of_nat (ref_need t h (take k (all_handles t0))))
             = Inr (False, t', of_nat (ref_need t' h (take (Suc k) (all_handles t0)))) \<and>
           broken names t0 h (Suc k) t'"
proof -
  let ?x = "all_handles t0 ! k"
  have wf: "nt_wf names t" and "index_handles (nt_index t) = index_handles (nt_index t0)"
    using br by (auto simp: broken_def)
  then have len: "length (nt_index t) < 65535" using room by (metis length_map)
  from nt_wf_entry [OF wf x] obtain e where e: "nt_mem t ofs = Some e" by blast
  then have ex: "entry_of t ?x = Some e" using x by (simp add: entry_of_def)
  show ?thesis
  proof (cases "refers t h ?x e")
    case False
    then have "\<forall>f. \<not> refers t h ?x f" using ex by (auto simp: refers_def)
    from broken_skip [OF br k this] show ?thesis
      using False ex e by (auto simp: make_entry_direct_def deref_def refers_def split: NVData.splits)
  next
    case True
    then obtain r where r: "ne_data e = VIndirect r" "rs_handle r = h"
      by (auto simp: refers_def split: NVData.splits)
    have cost: "ref_cost t h ?x = direct_need (ne_name e) (content t e)" by (rule ref_cost_refers [OF True])
    have "refers t0 h ?x e" using True br by (simp add: broken_def)
    then have us: "\<not> ne_unset e" by (rule set)
    from add_value_indirect_entry [OF wf x e r(1) len, of n] obtain ok t' where
      av: "add_value_fuel (Suc n) t ?x (ne_name e) (content t e) (ne_type e) False 0
             = Inr (ok, False, if ok then 0 else of_nat (ref_cost t h ?x), t')"
      "nt_wf names t'" "nt_size t' = nt_size t" "nv_table_get_available t' \<le> nv_table_get_available t"
      "nv_table_get_available t \<le> nv_table_get_available t' + ref_cost t h ?x"
      "ok \<longrightarrow> (\<exists>e'. stored names t ?x e' t' \<and> ne_data e' = VDirect (content t e) \<and> ne_type e' = ne_type e \<and>
                \<not> ne_unset e')"
      "\<not> ok \<longrightarrow> same_content t t' \<and> index_handles (nt_index t') = index_handles (nt_index t) \<and>
              nv_table_get_available t < ref_cost t h ?x"
      unfolding cost by blast
    have eval: "make_entry_direct (add_value_fuel (Suc n)) h ?x ofs (t, m)
        = Inr (False, t', if ok then m else m + of_nat (ref_cost t h ?x))" for m
      using e r av(1) resolve_indirect [OF wf x e r(1)] by (simp add: make_entry_direct_def deref_def del: add_value_fuel.simps)
    show ?thesis
    proof (cases ok)
      case True
      with av(6) obtain e' where "stored names t ?x e' t'" "ne_data e' = VDirect (content t e)"
        "ne_type e' = ne_type e" "\<not> ne_unset e'" by blast
      from broken_direct [OF br k \<open>refers t h ?x e\<close> this us av(4,5) h] show ?thesis
        by (simp add: eval True)
    next
      case False
      with av(7) have "same_content t t'" "index_handles (nt_index t') = index_handles (nt_index t)"
        "nv_table_get_available t < ref_cost t h ?x" by auto
      from broken_failed [OF br k \<open>refers t h ?x e\<close> this(1) av(2,3) this(2) av(4,5) this(3) h] show ?thesis
        by (simp add: eval False)
    qed
  qed
qed

end
