(* ===== verification/NV_Table_Update.thy ===== *)
theory NV_Table_Update
  imports NV_Table_Refs
begin

text \<open>
  The effect of \<^verbatim>\<open>nv_table_add_value\<close>, \<^verbatim>\<open>nv_table_unset_value\<close> and \<^verbatim>\<open>nv_table_add_value_indirect\<close> on the
  values of the table: one value changes, all others stay, and a failed attempt changes none.
\<close>

section \<open>Breaking references\<close>

definition refs_total :: "NVTable \<Rightarrow> NVHandle \<Rightarrow> nat" where
  "refs_total t h = ref_need t h (all_handles t)"

text \<open>No entry that refers to \<open>h\<close> was unset.\<close>

definition refs_set :: "NVTable \<Rightarrow> NVHandle \<Rightarrow> bool" where
  "refs_set t h = (\<forall>x e. refers t h x e \<longrightarrow> \<not> ne_unset e)"

lemma broken_no_refs:
  assumes "nt_wf names t" "no_refs t h"
  shows "broken names t h k t"
  using assms no_refs_need [OF assms(2)] by (simp add: broken_def)

lemma break_references:
  assumes wf: "nt_wf names t" and room: "length (nt_index t) < 65535" and set: "refs_set t h"
  shows "\<exists>t'. nv_table_break_references_to_entry (add_value_fuel (Suc n)) t h (slot t h) mn
             = Inr ((of_nat (refs_total t' h) :: guint32) = 0, mn + of_nat (refs_total t' h), t') \<and>
           broken names t h (length (all_handles t)) t' \<and>
           slot t' h = slot t h \<and> entry_of t' h = entry_of t h"
proof (cases "\<exists>e v. entry_of t h = Some e \<and> ne_data e = VDirect v \<and> ne_referenced e")
  case False
  then have nr: "no_refs t h" by (intro wf_no_refs [OF wf]) blast
  have "nv_table_break_references_to_entry (add_value_fuel (Suc n)) t h (slot t h) mn = Inr (True, mn, t)"
  proof (cases "slot t h")
    case (Some ofs)
    with nt_wf_entry [OF wf] obtain e where "nt_mem t ofs = Some e" by blast
    with Some False show ?thesis
      by (auto simp: nv_table_break_references_to_entry_def deref_def entry_of_def split: NVData.splits)
  qed (simp add: nv_table_break_references_to_entry_def)
  with broken_no_refs [OF wf nr] show ?thesis
    by (intro exI [of _ t]) (simp add: refs_total_def no_refs_need [OF nr])
next
  case True
  then obtain ofs e v where e: "slot t h = Some ofs" "nt_mem t ofs = Some e" "entry_of t h = Some e"
    "ne_data e = VDirect v" "ne_referenced e" by (auto simp: entry_of_def split: option.splits)
  let ?hs = "all_handles t"
  define P where "P k s \<longleftrightarrow> broken names t h k (fst s) \<and> snd s = of_nat (ref_need (fst s) h (take k ?hs))"
    for k and s :: "NVTable \<times> guint32"
  have len: "length ?hs = length (nt_static_entries t) + length (nt_index t)" by (simp add: all_handles_def)
  have "\<exists>s'. nv_table_foreach_entry fst (make_entry_direct (add_value_fuel (Suc n)) h) (t, 0) = Inr (False, s') \<and>
      P (length (nt_static_entries t) + length (nt_index t)) s'"
  proof (rule foreach_entry)
    show "P 0 (t, 0)" using broken_0 [OF wf] by (simp add: P_def ref_need_def)
    fix k s assume P: "P k s"
    then have br: "broken names t h k (fst s)" by (simp add: P_def)
    have hs: "all_handles (fst s) = ?hs" by (rule broken_all_handles [OF br])
    show "nt_shape (fst s) \<and> length (nt_static_entries (fst s)) = length (nt_static_entries t) \<and>
        length (nt_index (fst s)) = length (nt_index t)"
      using br nt_wf_shape unfolding broken_def by (metis length_map)
    assume k: "k < length (nt_static_entries t) + length (nt_index t)"
    {
      assume "slot (fst s) (all_handles (fst s) ! k) = None"
      then have "\<forall>e. \<not> refers (fst s) h (?hs ! k) e" by (simp add: refers_def entry_of_def hs)
      from broken_skip [OF br _ this] k P show "P (Suc k) s" by (simp add: P_def len)
    }
    {
      fix ofs' assume "slot (fst s) (all_handles (fst s) ! k) = Some ofs'"
      then have sl: "slot (fst s) (?hs ! k) = Some ofs'" by (simp only: hs)
      obtain t1 where t1: "make_entry_direct (add_value_fuel (Suc n)) h (?hs ! k) ofs' s
          = Inr (False, t1, of_nat (ref_need t1 h (take (Suc k) ?hs)))" "broken names t h (Suc k) t1"
        using make_entry_direct [OF br _ sl e(3,4) _ room, of n] k set P
        by (cases s) (auto simp: P_def len refs_set_def)
      then show "\<exists>s'. make_entry_direct (add_value_fuel (Suc n)) h (all_handles (fst s) ! k) ofs' s = Inr (False, s') \<and>
          P (Suc k) s'"
        unfolding hs by (intro exI [of _ "(t1, of_nat (ref_need t1 h (take (Suc k) ?hs)))"]) (simp add: P_def)
    }
  qed
  then obtain t' where t': "nv_table_foreach_entry fst (make_entry_direct (add_value_fuel (Suc n)) h) (t, 0)
      = Inr (False, t', of_nat (ref_need t' h ?hs))" "broken names t h (length ?hs) t'"
    by (auto simp: P_def len)
  have hs: "all_handles t' = ?hs" by (rule broken_all_handles [OF t'(2)])
  have "nv_table_break_references_to_entry (add_value_fuel (Suc n)) t h (slot t h) mn
      = Inr (of_nat (ref_need t' h ?hs) = (0 :: guint32), mn + of_nat (ref_need t' h ?hs), t')"
    by (simp add: nv_table_break_references_to_entry_def e deref_def t'(1) del: add_value_fuel.simps)
  moreover have "slot t' h = slot t h \<and> entry_of t' h = entry_of t h"
    using t'(2) e(3,4) by (auto simp: broken_def)
  ultimately show ?thesis using t'(2) by (intro exI [of _ t']) (simp add: refs_total_def hs)
qed

lemma wf_refers_direct:
  assumes "nt_wf names t" "refers t h x e"
  shows "\<exists>e' v. entry_of t h = Some e' \<and> ne_data e' = VDirect v"
proof -
  from assms(2) obtain ofs where s: "slot t x = Some ofs" "nt_mem t ofs = Some e"
    by (auto simp: refers_def entry_of_def split: option.splits)
  obtain r where r: "ne_data e = VIndirect r" "rs_handle r = h"
    using assms(2) by (auto simp: refers_def split: NVData.splits)
  from nt_wf_entry [OF assms(1) s(1)] s(2) r have "refers_to_direct t r" by (auto simp: entry_wf_def)
  with r(2) show ?thesis by (auto simp: refers_to_direct_entry_of)
qed

lemma broken_total:
  assumes "nt_wf names t" "broken names t h (length (all_handles t)) t'"
  shows "refs_total t' h \<le> refs_total t h" "refs_set t h \<Longrightarrow> refs_set t' h"
    "nv_table_get_available t' \<le> nv_table_get_available t"
    "nv_table_get_available t \<le> nv_table_get_available t' + refs_total t h"
    "0 < refs_total t' h \<Longrightarrow> nv_table_get_available t' < refs_total t' h"
    "refs_total t h \<le> nv_table_get_available t \<Longrightarrow> refs_total t' h = 0"
proof -
  have hs: "all_handles t' = all_handles t" by (rule broken_all_handles [OF assms(2)])
  have "ref_cost t' h x \<le> ref_cost t h x" for x
  proof (cases "\<exists>e. refers t h x e")
    case True
    then obtain e0 v0 where "entry_of t h = Some e0" "ne_data e0 = VDirect v0"
      using wf_refers_direct [OF assms(1)] by blast
    then show ?thesis by (rule broken_cost_le [OF assms(2)])
  next
    case False
    then have "\<forall>e. \<not> refers t' h x e" using assms(2) unfolding broken_def by blast
    then show ?thesis using ref_cost_not_refers by simp
  qed
  then show "refs_total t' h \<le> refs_total t h"
    unfolding refs_total_def ref_need_def hs by (intro sum_list_mono)
  show "refs_set t h \<Longrightarrow> refs_set t' h" using assms(2) unfolding broken_def refs_set_def by blast
  show "refs_total t h \<le> nv_table_get_available t \<Longrightarrow> refs_total t' h = 0"
    using assms(2) unfolding broken_def refs_total_def hs by (metis gr0I leD take_all order_refl)
qed (use assms(2) broken_all_handles [OF assms(2)] in \<open>auto simp: broken_def refs_total_def\<close>)

section \<open>Adding a value\<close>

abbreviation stored_value :: "bytes \<Rightarrow> bytes" where
  "stored_value value \<equiv> take NV_TABLE_MAX_BYTES value"

text \<open>The entry of \<open>h\<close> may be replaced: the name is the one of the handle, the index has room for two more
  entries, no unset entry refers to \<open>h\<close>, and the space its references take can be counted in 32 bits.\<close>

definition can_store :: "(NVHandle \<Rightarrow> bytes) \<Rightarrow> NVTable \<Rightarrow> NVHandle \<Rightarrow> bytes \<Rightarrow> bool" where
  "can_store names t h name =
     (nt_wf names t \<and> h \<noteq> 0 \<and> (\<not> nv_table_is_handle_static t h \<longrightarrow> name = names h) \<and>
      length (nt_index t) < 65535 \<and> refs_set t h \<and> refs_total t h < 2 ^ 31)"

lemma of_nat_eq_0_iff: "n < 2 ^ 32 \<Longrightarrow> (of_nat n :: guint32) = 0 \<longleftrightarrow> n = 0"
  using of_nat_word_inj [where 'a = 32, of n 0] by auto

lemma index_ref_cong:
  assumes "length (nt_static_entries t') = length (nt_static_entries t)"
    and "index_handles (nt_index t') = index_handles (nt_index t)"
  shows "index_ref t' h ie is = index_ref t h ie is"
proof -
  have l: "length (nt_index t') = length (nt_index t)" using assms(2) by (metis length_map)
  have n: "ie_handle (nt_index t' ! i) = ie_handle (nt_index t ! i)" if "i < length (nt_index t)" for i
    using assms(2) that l by (metis nth_map)
  have "search_result (nt_index t') h pos s = search_result (nt_index t) h pos s" for pos s
    unfolding search_result_def l
    by (cases pos) (auto simp: n intro: order_less_le_trans)
  then show ?thesis
    using is_handle_static_cong [OF assms(1)] by (simp add: index_ref_def)
qed

lemma add_value_attempt:
  assumes can: "can_store names t h name"
  shows "\<exists>ok new t'. nv_table_add_value t h name value type want mn
             = Inr (ok, new, if ok then mn else mn + of_nat (direct_need name (stored_value value) + refs_total t' h), t') \<and>
           nt_wf names t' \<and> nt_size t' = nt_size t \<and>
           length (nt_static_entries t') = length (nt_static_entries t) \<and>
           (ok \<longrightarrow> view t' = (view t)(h \<mapsto> (stored_value value, type)) \<and> new = (want \<and> slot t h = None)) \<and>
           (\<not> ok \<longrightarrow> view t' = view t \<and> refs_total t' h \<le> refs_total t h \<and> refs_set t' h \<and>
              (slot t' h = None \<longleftrightarrow> slot t h = None) \<and>
              length (nt_index t') \<le> Suc (length (nt_index t)) \<and>
              nv_table_get_available t' < direct_need name (stored_value value) + refs_total t' h) \<and>
           nv_table_get_available t \<le> nv_table_get_available t' + direct_cost t h name (stored_value value) + refs_total t h \<and>
           (direct_cost t h name (stored_value value) + refs_total t h \<le> nv_table_get_available t \<longrightarrow> ok)"
proof -
  let ?v = "stored_value value"
  let ?mem = "of_nat (direct_need name ?v) :: guint32"
  have wf: "nt_wf names t" and h: "h \<noteq> 0" and name: "\<not> nv_table_is_handle_static t h \<Longrightarrow> name = names h"
    and room: "length (nt_index t) < 65535" and set: "refs_set t h" and tot: "refs_total t h < 2 ^ 31"
    using can by (auto simp: can_store_def)
  from get_entry [OF nt_wf_sorted [OF wf], of h] obtain ie "is" where
    g: "nv_table_get_entry t h = Inr (slot t h, ie, is)" "index_ref t h ie is" by blast
  from break_references [OF wf room set, of 0 ?mem] obtain t1 where
    b: "nv_table_break_references_to_entry (add_value_fuel (Suc 0)) t h (slot t h) ?mem
          = Inr ((of_nat (refs_total t1 h) :: guint32) = 0, ?mem + of_nat (refs_total t1 h), t1)"
    "broken names t h (length (all_handles t)) t1" "slot t1 h = slot t h" "entry_of t1 h = entry_of t h" by blast
  note bt = broken_total [OF wf b(2)]
  have f: "nt_wf names t1" "view t1 = view t" "nt_size t1 = nt_size t"
    "length (nt_static_entries t1) = length (nt_static_entries t)"
    "index_handles (nt_index t1) = index_handles (nt_index t)"
    using b(2) by (auto simp: broken_def)
  have len: "length (nt_index t1) = length (nt_index t)" using f(5) by (metis length_map)
  have stat: "nv_table_is_handle_static t1 = nv_table_is_handle_static t" by (rule is_handle_static_cong [OF f(4)])
  have z: "(of_nat (refs_total t1 h) :: guint32) = 0 \<longleftrightarrow> refs_total t1 h = 0"
    using bt(1) tot by (intro of_nat_eq_0_iff) simp
  have body: "nv_table_add_value t h name value type want mn =
      (if refs_total t1 h \<noteq> 0 then Inr (False, False, mn + (?mem + of_nat (refs_total t1 h)), t1)
       else add_value_store t1 h name ?v type want (slot t1 h) ie is (?mem + of_nat (refs_total t1 h)) mn)"
    unfolding nv_table_add_value_def numeral_2_eq_2 add_value_fuel.simps(2) [of "Suc 0"] add_value_body_def Let_def
      direct_need_def [symmetric] g(1) bindO_Inr prod.case b(1) z
    by (simp add: b(3))
  show ?thesis
  proof (cases "refs_total t1 h = 0")
    case False
    then show ?thesis
      using body f bt set len b(3)
      by (intro exI [of _ False] exI [of _ t1]) auto
  next
    case True
    have nr: "no_refs t1 h"
      using True ref_need_eq_0 [OF nt_wf_shape [OF f(1)]] by (simp add: refs_total_def)
    have ir: "index_ref t1 h ie is" using g(2) index_ref_cong [OF f(4,5)] by simp
    from add_value_store [OF f(1) h nr ir _ name, of ?v type want ?mem mn] room len stat obtain ok t' where
      st: "add_value_store t1 h name ?v type want (slot t1 h) ie is ?mem mn
             = Inr (ok, want \<and> slot t1 h = None, if ok then mn else mn + ?mem, t')"
        "nt_wf names t'" "nt_size t' = nt_size t1" "nv_table_get_available t' \<le> nv_table_get_available t1"
        "nv_table_get_available t1 \<le> nv_table_get_available t' + direct_cost t1 h name ?v"
        "ok \<longrightarrow> (\<exists>e. stored names t1 h e t' \<and> ne_data e = VDirect ?v \<and> ne_type e = type \<and> \<not> ne_unset e)"
        "\<not> ok \<longrightarrow> same_content t1 t' \<and>
              (index_handles (nt_index t') = index_handles (nt_index t1) \<or>
               slot t1 h = None \<and> \<not> nv_table_is_handle_static t1 h \<and> length (nt_index t') = Suc (length (nt_index t1))) \<and>
              nv_table_get_available t1 < direct_cost t1 h name ?v"
      by auto
    have cost: "direct_cost t1 h name ?v = direct_cost t h name ?v" by (simp add: direct_cost_def dyn_cost_def stat)
    have eval: "nv_table_add_value t h name value type want mn
        = Inr (ok, want \<and> slot t h = None, if ok then mn else mn + ?mem, t')"
      using body True st(1) b(3) by simp
    show ?thesis
    proof (cases ok)
      case True
      with st(6) obtain e where e: "stored names t1 h e t'" "ne_data e = VDirect ?v" "ne_type e = type" "\<not> ne_unset e"
        by blast
      from stored_view_direct [OF e(1) nr e(2,4)] e(1,3) True eval st(2,3,5) bt(4) cost f show ?thesis
        by (intro exI [of _ True] exI [of _ "want \<and> slot t h = None"] exI [of _ t']) (simp add: stored_def)
    next
      case False
      with st(7) have same: "same_content t1 t'"
        and ix: "index_handles (nt_index t') = index_handles (nt_index t1) \<or>
               slot t1 h = None \<and> \<not> nv_table_is_handle_static t1 h \<and> length (nt_index t') = Suc (length (nt_index t1))"
        and av: "nv_table_get_available t1 < direct_cost t1 h name ?v" by auto
      have nr': "no_refs t' h" using nr same_content_no_refs [OF same] by simp
      then have tot': "refs_total t' h = 0" "refs_set t' h"
        by (simp_all add: refs_total_def no_refs_need refs_set_def no_refs_refers)
      have lt: "nv_table_get_available t1 < direct_need name ?v"
        using av direct_cost_le [of t1 h name ?v] by linarith
      have "length (nt_index t') \<le> Suc (length (nt_index t))" using ix len by (metis le_Suc_eq length_map order_refl)
      moreover have "slot t' h = slot t h" "view t' = view t"
        "length (nt_static_entries t') = length (nt_static_entries t)"
        using same b(3) f same_content_view [OF same] by (simp_all add: same_content_def)
      ultimately show ?thesis
        using False eval st(2-5) f(3) tot' lt av cost bt(4) by (intro exI [of _ False] exI [of _ "want \<and> slot t h = None"] exI [of _ t']) auto
    qed
  qed
qed

section \<open>Removing a value\<close>

lemma wf_indirect_other:
  assumes "nt_wf names t" "entry_of t h = Some e" "ne_data e = VIndirect r"
  shows "rs_handle r \<noteq> h" "refers_to_direct t r"
proof -
  from assms(2) obtain ofs where "slot t h = Some ofs" "nt_mem t ofs = Some e"
    by (auto simp: entry_of_def split: option.splits)
  with nt_wf_entry [OF assms(1)] assms(3) show "refers_to_direct t r" by (force simp: entry_wf_def)
  then show "rs_handle r \<noteq> h" using assms(2,3) by (auto simp: refers_to_direct_entry_of)
qed

text \<open>The space of a table that was only rewritten in place.\<close>

lemma available_set_entry [simp]: "nv_table_get_available (set_entry t ofs e) = nv_table_get_available t"
  by (simp add: nv_table_get_available_def nv_table_get_ofs_table_top_def)

lemma is_handle_static_simps [simp]:
  "nv_table_is_handle_static (set_entry t ofs e) = nv_table_is_handle_static t"
  "nv_table_is_handle_static (allocated t ofs e) = nv_table_is_handle_static t"
  by (rule is_handle_static_cong, simp)+

lemma unset_entry:
  assumes wf: "nt_wf names t" and s: "slot t h = Some ofs" "nt_mem t ofs = Some e" and nr: "no_refs t h"
    and e': "e' = e\<lparr>ne_unset := True, ne_data := (case ne_data e of
                      VIndirect ref \<Rightarrow> VIndirect (ref\<lparr>rs_ofs := 0, rs_len := 0\<rparr>) | VDirect _ \<Rightarrow> VDirect [])\<rparr>"
  shows "nt_wf names (set_entry t ofs e') \<and> view (set_entry t ofs e') = (view t)(h := None)"
proof -
  let ?t = "set_entry t ofs e'"
  have ent: "entry_of t h = Some e" using s by (simp add: entry_of_def)
  have st: "store_step t h ofs e' ?t" by (rule set_entry_step [OF wf s]) (simp add: e')
  have "entry_wf names t h e" using nt_wf_entry [OF wf s(1)] s(2) by auto
  have "entry_wf names ?t h e'"
  proof (cases "ne_data e")
    case (VDirect v)
    then show ?thesis
      using \<open>entry_wf names t h e\<close> store_step_static [OF st]
      by (auto simp: entry_wf_def e' NV_ENTRY_DIRECT_SIZE_def)
  next
    case (VIndirect r)
    note o = wf_indirect_other [OF wf ent VIndirect]
    have "refers_to_direct ?t (r\<lparr>rs_ofs := 0, rs_len := 0\<rparr>)"
      using o store_step_entry_of [OF wf st o(1)] by (simp add: refers_to_direct_entry_of)
    with VIndirect \<open>entry_wf names t h e\<close> store_step_static [OF st] show ?thesis
      by (auto simp: entry_wf_def e')
  qed
  with store_step_wf [OF wf st] nr have wf': "nt_wf names ?t" by (simp add: keeps_referents_def)
  have "stored names t h e' ?t" by (rule storedI [OF wf _ st wf']) simp_all
  from stored_view [OF this] nr have "view ?t x = view t x" if "x \<noteq> h" for x using that by blast
  moreover have "view ?t h = None" using store_step_entry_of_same [OF st] by (simp add: view_def e')
  ultimately have "view ?t = (view t)(h := None)" by auto
  with wf' show ?thesis by blast
qed

lemma unset_value_attempt:
  assumes wf: "nt_wf names t" and room: "length (nt_index t) < 65535" and set: "refs_set t h"
    and tot: "refs_total t h < 2 ^ 32"
  shows "\<exists>ok t'. nv_table_unset_value t h mn
             = Inr (ok, if ok then mn else mn + of_nat (refs_total t' h), t') \<and>
           nt_wf names t' \<and> nt_size t' = nt_size t \<and>
           (ok \<longrightarrow> view t' = (view t)(h := None)) \<and>
           (\<not> ok \<longrightarrow> view t' = view t \<and> refs_total t' h \<le> refs_total t h \<and> refs_set t' h \<and>
              length (nt_index t') = length (nt_index t) \<and> nv_table_get_available t' < refs_total t' h) \<and>
           (refs_total t h \<le> nv_table_get_available t \<longrightarrow> ok)"
proof -
  from get_entry [OF nt_wf_sorted [OF wf], of h] obtain ie "is" where
    g: "nv_table_get_entry t h = Inr (slot t h, ie, is)" by blast
  show ?thesis
  proof (cases "slot t h")
    case None
    then have "view t h = None" by (simp add: view_def entry_of_def)
    then have "view t = (view t)(h := None)" by (simp add: fun_upd_idem)
    moreover have "nv_table_unset_value t h mn = Inr (True, mn, t)"
      by (simp add: nv_table_unset_value_def g None)
    ultimately show ?thesis using wf by (intro exI [of _ True] exI [of _ t]) simp
  next
    case (Some ofs)
    from break_references [OF wf room set, of 1 0] obtain t1 where
      b: "nv_table_break_references_to_entry nv_table_add_value t h (slot t h) 0
            = Inr ((of_nat (refs_total t1 h) :: guint32) = 0, of_nat (refs_total t1 h), t1)"
      "broken names t h (length (all_handles t)) t1" "slot t1 h = slot t h" "entry_of t1 h = entry_of t h"
      by (auto simp: nv_table_add_value_def numeral_2_eq_2 simp del: add_value_fuel.simps)
    note bt = broken_total [OF wf b(2)]
    have f: "nt_wf names t1" "view t1 = view t" "nt_size t1 = nt_size t" "length (nt_index t1) = length (nt_index t)"
      using b(2) unfolding broken_def by (metis length_map)+
    have z: "(of_nat (refs_total t1 h) :: guint32) = 0 \<longleftrightarrow> refs_total t1 h = 0"
      using bt(1) tot by (intro of_nat_eq_0_iff) simp
    show ?thesis
    proof (cases "refs_total t1 h = 0")
      case False
      then have "nv_table_unset_value t h mn = Inr (False, mn + of_nat (refs_total t1 h), t1)"
        using b(1) z by (simp add: nv_table_unset_value_def g Some)
      then show ?thesis using False f bt set by (intro exI [of _ False] exI [of _ t1]) auto
    next
      case True
      then have nr: "no_refs t1 h"
        using ref_need_eq_0 [OF nt_wf_shape [OF f(1)]] by (simp add: refs_total_def)
      have s1: "slot t1 h = Some ofs" using b(3) Some by simp
      from nt_wf_entry [OF f(1) s1] obtain e where e: "nt_mem t1 ofs = Some e" by blast
      let ?e = "e\<lparr>ne_unset := True, ne_data := (case ne_data e of
                      VIndirect ref \<Rightarrow> VIndirect (ref\<lparr>rs_ofs := 0, rs_len := 0\<rparr>) | VDirect _ \<Rightarrow> VDirect [])\<rparr>"
      have "nv_table_unset_value t h mn = Inr (True, mn, set_entry t1 ofs ?e)"
        using b(1) z True e by (simp add: nv_table_unset_value_def g Some deref_def Let_def)
      with unset_entry [OF f(1) s1 e nr refl] f show ?thesis
        by (intro exI [of _ True] exI [of _ "set_entry t1 ofs ?e"]) simp
    qed
  qed
qed

section \<open>Adding a reference\<close>

lemma mark_referenced:
  assumes wf: "nt_wf names t" and s: "slot t rh = Some ro" "nt_mem t ro = Some re" "ne_data re = VDirect v"
    and m: "tm = set_entry t ro (re\<lparr>ne_referenced := True\<rparr>)"
  shows "mark_referenced t ro = Inr tm" "nt_wf names tm" "view tm = view t"
    "\<And>x. x \<noteq> rh \<Longrightarrow> entry_of tm x = entry_of t x" "entry_of tm rh = Some (re\<lparr>ne_referenced := True\<rparr>)"
    "slot tm = slot t" "no_refs tm = no_refs t"
proof -
  let ?e = "re\<lparr>ne_referenced := True\<rparr>"
  show "mark_referenced t ro = Inr tm" using s by (simp add: mark_referenced_def deref_def m)
  have st: "store_step t rh ro ?e tm" unfolding m by (rule set_entry_step [OF wf s(1,2)]) simp
  have "entry_wf names t rh re" using nt_wf_entry [OF wf s(1)] s(2) by auto
  then have "entry_wf names tm rh ?e" using s(3) store_step_static [OF st] by (auto simp: entry_wf_def)
  then show wf': "nt_wf names tm" using store_step_wf [OF wf st] s(3) by (simp add: keeps_referents_def)
  show ents: "\<And>x. x \<noteq> rh \<Longrightarrow> entry_of tm x = entry_of t x" by (rule store_step_entry_of [OF wf st])
  show erh: "entry_of tm rh = Some ?e" by (rule store_step_entry_of_same [OF st])
  have e0: "entry_of t rh = Some re" using s by (simp add: entry_of_def)
  have "stored names t rh ?e tm" by (rule storedI [OF wf _ st wf']) (simp_all add: m)
  from stored_view [OF this] e0 have "view tm x = view t x" if "x \<noteq> rh" for x
    using that by (simp add: direct_value_def)
  moreover have "view tm rh = view t rh" using erh e0 s(3) by (simp add: view_def content_def)
  ultimately show "view tm = view t" by (intro ext) metis
  show "slot tm = slot t" by (simp add: m)
  show "no_refs tm = no_refs t"
  proof
    fix h
    have "refers tm h x f \<longleftrightarrow> refers t h x f" for x f
      using ents erh e0 s(3) by (cases "x = rh") (auto simp: refers_def)
    then show "no_refs tm h = no_refs t h" by (simp add: no_refs_refers)
  qed
qed

text \<open>The value of a slice of the value of another handle.\<close>

definition slice_value :: "NVTable \<Rightarrow> NVReferencedSlice \<Rightarrow> bytes" where
  "slice_value t r = slice_of r (map_option fst (view t (rs_handle r)))"

lemma slice_value_direct:
  assumes "entry_of t (rs_handle r) = Some re" "ne_data re = VDirect v"
  shows "slice_value t r = slice_of r (direct_value (entry_of t (rs_handle r)))"
  using assms by (simp add: slice_value_def view_def direct_value_def content_def)

lemma stored_view_indirect:
  assumes "stored names t h e t'" "no_refs t h" "ne_data e = VIndirect r" "\<not> ne_unset e"
    and "rs_handle r \<noteq> h" "entry_of t (rs_handle r) = Some re" "ne_data re = VDirect v"
  shows "view t' = (view t)(h \<mapsto> (slice_value t r, ne_type e))"
proof
  fix x
  have "entry_of t' h = Some e" "entry_of t' (rs_handle r) = Some re" using assms(1,5,6) by (auto simp: stored_def)
  then show "view t' x = ((view t)(h \<mapsto> (slice_value t r, ne_type e))) x"
    using assms(2-4) stored_view [OF assms(1), of x] slice_value_direct [OF assms(6,7)] assms(6)
    by (cases "x = h") (simp_all add: view_def content_def)
qed

lemma set_entry_commute:
  "ofs \<noteq> ofs' \<Longrightarrow> set_entry (set_entry t ofs e) ofs' e' = set_entry (set_entry t ofs' e') ofs e"
  by (simp add: set_entry_def fun_upd_twist)

lemma set_entry_allocated:
  "ofs \<noteq> ofs' \<Longrightarrow> set_entry (allocated t ofs raw) ofs' e' = allocated (set_entry t ofs' e') ofs raw"
  by (simp add: set_entry_def allocated_def fun_upd_twist)

definition indirect_need :: "bytes \<Rightarrow> nat" where
  "indirect_need name = NV_TABLE_BOUND (NV_ENTRY_INDIRECT_SIZE (length name)) + 8"

definition indirect_cost :: "NVTable \<Rightarrow> NVHandle \<Rightarrow> bytes \<Rightarrow> nat" where
  "indirect_cost t h name = NV_TABLE_BOUND (NV_ENTRY_INDIRECT_SIZE (length name)) + dyn_cost t h"

lemma set_indirect_in_place:
  assumes wf: "nt_wf names t" and s: "slot t h = Some ofs" "nt_mem t ofs = Some old"
    and rs: "slot t (rs_handle r) = Some ro" "nt_mem t ro = Some re" "ne_data re = VDirect v"
    and hr: "h \<noteq> rs_handle r" and nr: "no_refs t h" and len: "unat (rs_ofs r) + unat (rs_len r) < 2 ^ 32"
    and fits: "NV_ENTRY_INDIRECT_SIZE (length name) \<le> ne_alloc_len old"
    and name: "\<not> nv_table_is_handle_static t h \<Longrightarrow> name = names h"
  shows "\<exists>t1 t'. nv_table_set_indirect_entry t h ofs name r type = Inr t1 \<and> mark_referenced t1 ro = Inr t' \<and>
           nt_wf names t' \<and> nt_size t' = nt_size t \<and> nv_table_get_available t' = nv_table_get_available t \<and>
           view t' = (view t)(h \<mapsto> (slice_value t r, type))"
proof -
  define tm where "tm = set_entry t ro (re\<lparr>ne_referenced := True\<rparr>)"
  note m = mark_referenced [OF wf rs tm_def]
  let ?e = "old\<lparr>ne_type := type, ne_unset := False, ne_name := stored_name t h (names h), ne_data := VIndirect r\<rparr>"
  have ewf: "entry_wf names t h old" using nt_wf_entry [OF wf s(1)] s(2) by auto
  have ne: "ofs \<noteq> ro" using nt_wf_inj [OF wf s(1)] rs(1) hr by auto
  have oldname: "ne_name old = stored_name t h (names h)" using ewf by (simp add: entry_wf_def)
  have sz: "NV_ENTRY_INDIRECT_SIZE (length (stored_name t h (names h))) \<le> ne_alloc_len old"
    using fits name by (auto simp: NV_ENTRY_INDIRECT_SIZE_def)
  have set: "nv_table_set_indirect_entry t h ofs name r type = Inr (set_entry t ofs ?e)"
    using s sz oldname name
    by (cases "ne_data old") (auto simp: nv_table_set_indirect_entry_def deref_def store_indirect_def Let_def)
  have mk: "mark_referenced (set_entry t ofs ?e) ro = Inr (set_entry tm ofs ?e)"
    using rs ne by (simp add: mark_referenced_def deref_def tm_def set_entry_commute)
  have sm: "slot tm h = Some ofs" "nt_mem tm ofs = Some old"
    using s ne by (simp_all add: m(6) tm_def)
  have st: "store_step tm h ofs ?e (set_entry tm ofs ?e)" by (rule set_entry_step [OF m(2) sm]) simp
  have "refers_to_direct (set_entry tm ofs ?e) r"
    using store_step_entry_of [OF m(2) st hr [symmetric]] m(5) rs(3) by (simp add: refers_to_direct_entry_of)
  then have "entry_wf names (set_entry tm ofs ?e) h ?e"
    using sz len by (simp add: entry_wf_def nv_table_is_handle_static_def tm_def)
  with store_step_wf [OF m(2) st] nr m(7) have wf': "nt_wf names (set_entry tm ofs ?e)"
    by (simp add: keeps_referents_def)
  have "stored names tm h ?e (set_entry tm ofs ?e)" by (rule storedI [OF m(2) _ st wf']) simp_all
  from stored_view_indirect [OF this _ _ _ hr [symmetric] m(5), of v] nr m(3,7) rs(3)
  have "view (set_entry tm ofs ?e) = (view t)(h \<mapsto> (slice_value t r, type))"
    by (simp add: slice_value_def)
  with set mk wf' show ?thesis
    by (intro exI [of _ "set_entry t ofs ?e"] exI [of _ "set_entry tm ofs ?e"]) (simp add: tm_def)
qed

lemma add_indirect_new_entry:
  assumes wf: "nt_wf names t" and h: "h \<noteq> 0"
    and rs: "slot t (rs_handle r) = Some ro" "nt_mem t ro = Some re" "ne_data re = VDirect v"
    and hr: "h \<noteq> rs_handle r" and nr: "no_refs t h" and len: "unat (rs_ofs r) + unat (rs_len r) < 2 ^ 32"
    and ref: "index_ref t h ie is" and room: "length (nt_index t) < 65535"
    and name: "\<not> nv_table_is_handle_static t h \<Longrightarrow> name = names h"
  shows "\<exists>ok t'. add_indirect_new_entry t h name r type is_new ie is ro mem mn
             = Inr (ok, is_new, if ok then mn else mn + mem, t') \<and>
           nt_wf names t' \<and> nt_size t' = nt_size t \<and>
           (ok \<longrightarrow> view t' = (view t)(h \<mapsto> (slice_value t r, type)) \<and>
              nv_table_get_available t \<le> nv_table_get_available t' + indirect_cost t h name \<and>
              (\<forall>x. x \<noteq> h \<longrightarrow> slot t' x = slot t x \<and>
                 map_option ne_data (entry_of t' x) = map_option ne_data (entry_of t x)) \<and>
              (index_handles (nt_index t') = index_handles (nt_index t) \<or>
               slot t h = None \<and> \<not> nv_table_is_handle_static t h \<and> length (nt_index t') = Suc (length (nt_index t))) \<and>
              length (nt_static_entries t') = length (nt_static_entries t)) \<and>
           (\<not> ok \<longrightarrow> same_content t t' \<and> nv_table_get_available t < indirect_cost t h name)"
proof -
  let ?n = "NV_ENTRY_INDIRECT_SIZE (length name)"
  let ?name = "stored_name t h (names h)"
  from alloc_index_entry [OF nt_wf_shape [OF wf] ref h room] obtain ok1 ie1 t1 where
    al: "alloc_index_entry t h ie is = Inr (ok1, ie1, t1)" and same: "same_content t t1" and sh: "nt_shape t1"
    and sz: "nt_size t1 = nt_size t"
    and ok1: "ok1 \<longrightarrow> index_ready t1 h ie1 \<and> nv_table_get_available t \<le> nv_table_get_available t1 + dyn_cost t h"
    and no1: "\<not> ok1 \<longrightarrow> t1 = t \<and> nv_table_get_available t < dyn_cost t h"
    and ix: "index_handles (nt_index t1) = index_handles (nt_index t) \<or>
        slot t h = None \<and> \<not> nv_table_is_handle_static t h \<and> length (nt_index t1) = Suc (length (nt_index t))" by blast
  have stat: "nv_table_is_handle_static t1 = nv_table_is_handle_static t"
    using same by (intro is_handle_static_cong) (simp add: same_content_def)
  have wf1: "nt_wf names t1" by (rule same_content_wf [OF wf same sh])
  have rs1: "slot t1 (rs_handle r) = Some ro" "nt_mem t1 ro = Some re"
    using rs same by (simp_all add: same_content_def)
  show ?thesis
  proof (cases "ok1 \<and> nv_table_alloc_check t1 (NV_TABLE_BOUND ?n)")
    case False
    then have "add_indirect_new_entry t h name r type is_new ie is ro mem mn = Inr (False, is_new, mn + mem, t1)"
      by (auto simp: add_indirect_new_entry_def al nv_table_alloc_value_def Let_def)
    moreover have "nv_table_get_available t < indirect_cost t h name"
      using False ok1 no1 by (auto simp: indirect_cost_def nv_table_alloc_check_def)
    ultimately show ?thesis using wf1 sz same by (intro exI [of _ False] exI [of _ t1]) simp
  next
    case True
    define tm where "tm = set_entry t1 ro (re\<lparr>ne_referenced := True\<rparr>)"
    note m = mark_referenced [OF wf1 rs1 rs(3) tm_def]
    let ?ofs = "nt_used t1 + NV_TABLE_BOUND ?n"
    let ?raw = "\<lparr>ne_referenced = False, ne_unset = False, ne_type = 0, ne_name = [],
                 ne_alloc_len = NV_TABLE_BOUND ?n, ne_data = VDirect []\<rparr>"
    let ?e = "?raw\<lparr>ne_type := type, ne_name := ?name, ne_data := VIndirect r\<rparr>"
    have av: "NV_TABLE_BOUND ?n \<le> nv_table_get_available tm"
      using True by (simp add: nv_table_alloc_check_def tm_def)
    have shm: "nt_shape tm" by (rule nt_wf_shape [OF m(2)])
    have ready: "index_ready tm h ie1"
      using ok1 True by (simp add: index_ready_def tm_def nv_table_is_handle_static_def)
    have "0 < ?n" by (simp add: NV_ENTRY_INDIRECT_SIZE_def)
    from bind_new_entry [OF shm h ready av this, of ?e ?ofs ?raw] obtain t' where t':
      "nv_table_set_table_entry (set_entry (allocated tm ?ofs ?raw) ?ofs ?e) h ?ofs ie1 = Inr t'"
      "store_step tm h ?ofs ?e t'" "nt_size t' = nt_size tm"
      "index_handles (nt_index t') = index_handles (nt_index tm)"
      "nv_table_get_available t' + NV_TABLE_BOUND ?n = nv_table_get_available tm" by (auto simp: tm_def)
    have ne: "?ofs \<noteq> ro" using nt_wf_entry [OF wf1 rs1(1)] NV_TABLE_BOUND_ge [of ?n] \<open>0 < ?n\<close> by auto
    have "length ?name \<le> length name" using name by auto
    then have fits: "NV_ENTRY_INDIRECT_SIZE (length ?name) \<le> NV_TABLE_BOUND ?n"
      using NV_TABLE_BOUND_ge [of ?n] by (simp add: NV_ENTRY_INDIRECT_SIZE_def)
    have set: "nv_table_set_indirect_entry (allocated t1 ?ofs ?raw) h ?ofs name r type
        = Inr (set_entry (allocated t1 ?ofs ?raw) ?ofs ?e)"
      using fits name stat
      by (cases "nv_table_is_handle_static t h")
        (simp_all add: nv_table_set_indirect_entry_def deref_def store_indirect_def Let_def)
    have mk: "mark_referenced (set_entry (allocated t1 ?ofs ?raw) ?ofs ?e) ro
        = Inr (set_entry (allocated tm ?ofs ?raw) ?ofs ?e)"
      using rs1 ne
      by (simp add: mark_referenced_def deref_def tm_def set_entry_commute [OF ne] set_entry_allocated [OF ne])
    have eval: "add_indirect_new_entry t h name r type is_new ie is ro mem mn = Inr (True, is_new, mn, t')"
      using True set mk t'(1)
      by (simp add: add_indirect_new_entry_def al nv_table_alloc_value_def Let_def allocated_def [symmetric])
    have "refers_to_direct t' r"
      using store_step_entry_of [OF m(2) t'(2) hr [symmetric]] m(5) rs(3) by (simp add: refers_to_direct_entry_of)
    moreover have "nv_table_is_handle_static t' = nv_table_is_handle_static t"
      using store_step_static [OF t'(2)] stat by (simp add: tm_def nv_table_is_handle_static_def fun_eq_iff)
    ultimately have "entry_wf names t' h ?e" using fits len by (simp add: entry_wf_def)
    moreover have "no_refs tm h" using nr m(7) same_content_no_refs [OF same] by simp
    ultimately have wf': "nt_wf names t'"
      using store_step_wf [OF m(2) t'(2)] by (simp add: keeps_referents_def)
    have "stored names tm h ?e t'"
      by (rule storedI [OF m(2) _ t'(2) wf' t'(3) _ t'(4)]) simp_all
    from stored_view_indirect [OF this \<open>no_refs tm h\<close> _ _ hr [symmetric] m(5), of v] rs(3) m(3)
    have "view t' = (view t1)(h \<mapsto> (slice_value t1 r, type))" by (simp add: slice_value_def)
    then have "view t' = (view t)(h \<mapsto> (slice_value t r, type))"
      using same_content_view [OF same] by (simp add: slice_value_def)
    moreover have "nv_table_get_available t \<le> nv_table_get_available t' + indirect_cost t h name"
      using ok1 True t'(5) by (simp add: indirect_cost_def tm_def)
    moreover have "\<forall>x. x \<noteq> h \<longrightarrow> slot t' x = slot t x"
      "length (nt_static_entries t') = length (nt_static_entries t)"
      using t'(2) m(6) same by (simp_all add: store_step_def same_content_def tm_def)
    moreover have "map_option ne_data (entry_of t' x) = map_option ne_data (entry_of t x)" if "x \<noteq> h" for x
    proof -
      have "entry_of t (rs_handle r) = Some re" using rs by (simp add: entry_of_def)
      then show ?thesis
        using store_step_entry_of [OF m(2) t'(2) that] m(4) [of x] m(5) same_content_entry_of [OF same]
        by (cases "x = rs_handle r") simp_all
    qed
    moreover have "index_handles (nt_index t') = index_handles (nt_index t) \<or>
        slot t h = None \<and> \<not> nv_table_is_handle_static t h \<and> length (nt_index t') = Suc (length (nt_index t))"
    proof -
      have e: "index_handles (nt_index t') = index_handles (nt_index t1)" using t'(4) by (simp add: tm_def)
      then have "length (nt_index t') = length (nt_index t1)" by (metis length_map)
      with e ix show ?thesis by simp
    qed
    ultimately show ?thesis using eval wf' t'(3) sz by (intro exI [of _ True] exI [of _ t']) (simp add: tm_def)
  qed
qed

lemma copy_slice:
  assumes "unat (rs_ofs r) + unat (rs_len r) < 2 ^ 32"
  shows "(let (ofs, len) = (if unat (rs_ofs r) > length v then (0, 0)
                            else (int (unat (rs_ofs r)),
                                  min (int (unat (rs_ofs r + rs_len r))) (int (length v)) - int (unat (rs_ofs r))))
          in if len < 0 then Inl InvalidAccess else f (take (nat len) (drop (nat ofs) v)))
       = f (take (unat (rs_len r)) (drop (unat (rs_ofs r)) v))"
proof (cases "unat (rs_ofs r) \<le> length v")
  case True
  have s: "unat (rs_ofs r + rs_len r) = unat (rs_ofs r) + unat (rs_len r)"
    by (rule unat_plus_no_wrap) (use assms in simp)
  have "\<not> unat (rs_ofs r) > length v" using True by simp
  then show ?thesis
    by (simp only: if_False Let_def prod.case s min_diff_nonneg [OF True] nat_int take_min_drop [OF True])
qed (simp add: Let_def)

lemma copy_referenced_value:
  assumes wf: "nt_wf names t" and s: "slot t (rs_handle r) = Some ro"
    and len: "unat (rs_ofs r) + unat (rs_len r) < 2 ^ 32"
  shows "nv_table_copy_referenced_value t (Some ro) h name r type want mn
       = nv_table_add_value t h name (slice_value t r) type want mn"
proof -
  from nt_wf_entry [OF wf s] obtain e where e: "nt_mem t ro = Some e" by blast
  have ent: "entry_of t (rs_handle r) = Some e" using s e by (simp add: entry_of_def)
  have "\<exists>v ty. nv_table_resolve_entry t e = Inr (v, ty) \<and>
      take (unat (rs_len r)) (drop (unat (rs_ofs r)) v) = slice_value t r"
  proof (cases "ne_unset e")
    case True
    then show ?thesis
      by (simp add: nv_table_resolve_entry_def slice_value_def slice_of_def view_def ent)
  next
    case False
    then have "nv_table_resolve_entry t e = Inr (content t e, ne_type e)"
      using resolve_indirect [OF wf s e]
      by (cases "ne_data e") (simp_all add: nv_table_resolve_entry_def nv_table_resolve_direct_def content_def)
    with False show ?thesis by (simp add: slice_value_def slice_of_def view_def ent)
  qed
  then obtain v ty where v: "nv_table_resolve_entry t e = Inr (v, ty)"
    "take (unat (rs_len r)) (drop (unat (rs_ofs r)) v) = slice_value t r" by blast
  show ?thesis
    unfolding nv_table_copy_referenced_value_def option.case deref_def e bindO_Inr v(1) prod.case
    using copy_slice [OF len, of v "\<lambda>x. nv_table_add_value t h name x type want mn"] by (simp only: v(2))
qed

lemma slice_value_length:
  assumes "nt_wf names t"
  shows "length (slice_value t r) \<le> NV_TABLE_MAX_BYTES"
proof (cases "view t (rs_handle r)")
  case (Some a)
  then obtain e where "entry_of t (rs_handle r) = Some e" "fst a = content t e"
    by (auto simp: view_def split: option.splits if_splits)
  with content_length [OF assms, of "rs_handle r" e] Some show ?thesis
    by (simp add: slice_value_def slice_of_def)
qed (simp add: slice_value_def slice_of_def)

lemma add_value_indirect_attempt:
  assumes can: "can_store names t h name" and rs: "slot t (rs_handle r) = Some ro"
    and len: "unat (rs_ofs r) + unat (rs_len r) < 2 ^ 32"
    and store: "slot t h \<noteq> None \<or> want \<or> rs_len r \<noteq> 0"
  shows "\<exists>ok new mn' t'. nv_table_add_value_indirect t h name r type want mn = Inr (ok, new, mn', t') \<and>
           nt_wf names t' \<and> nt_size t' = nt_size t \<and>
           (ok \<longrightarrow> view t' = (view t)(h \<mapsto> (slice_value t r, type))) \<and>
           (\<not> ok \<longrightarrow> view t' = view t)"
proof -
  have wf: "nt_wf names t" and h: "h \<noteq> 0" and name: "\<not> nv_table_is_handle_static t h \<Longrightarrow> name = names h"
    and room: "length (nt_index t) < 65535" and set: "refs_set t h" and tot: "refs_total t h < 2 ^ 31"
    using can by (auto simp: can_store_def)
  from get_entry [OF nt_wf_sorted [OF wf], of "rs_handle r"] obtain ie0 is0 where
    g0: "nv_table_get_entry t (rs_handle r) = Inr (Some ro, ie0, is0)" using rs by auto
  from get_entry [OF nt_wf_sorted [OF wf], of h] obtain ie "is" where
    g: "nv_table_get_entry t h = Inr (slot t h, ie, is)" "index_ref t h ie is" by blast
  from nt_wf_entry [OF wf rs] obtain re where re: "nt_mem t ro = Some re" by blast
  show ?thesis
  proof (cases "(\<exists>r'. ne_data re = VIndirect r') \<or> h = rs_handle r")
    case True
    then have "nv_table_add_value_indirect t h name r type want mn
        = nv_table_copy_referenced_value t (Some ro) h name r type want mn"
      using g0 re by (cases "ne_data re") (auto simp: nv_table_add_value_indirect_def deref_def)
    also have "\<dots> = nv_table_add_value t h name (slice_value t r) type want mn"
      by (rule copy_referenced_value [OF wf rs len])
    finally show ?thesis
      using add_value_attempt [OF can, of "slice_value t r" type want mn] slice_value_length [OF wf, of r] by auto
  next
    case False
    then obtain v where v: "ne_data re = VDirect v" and hr: "h \<noteq> rs_handle r" by (cases "ne_data re") auto
    have ere: "entry_of t (rs_handle r) = Some re" using rs re by (simp add: entry_of_def)
    let ?mem = "of_nat (indirect_need name) :: guint32"
    from break_references [OF wf room set, of 1 ?mem] obtain t1 where
      b: "nv_table_break_references_to_entry nv_table_add_value t h (slot t h) ?mem
            = Inr ((of_nat (refs_total t1 h) :: guint32) = 0, ?mem + of_nat (refs_total t1 h), t1)"
      "broken names t h (length (all_handles t)) t1" "slot t1 h = slot t h" "entry_of t1 h = entry_of t h"
      by (auto simp: nv_table_add_value_def numeral_2_eq_2 simp del: add_value_fuel.simps)
    note bt = broken_total [OF wf b(2)]
    have f: "nt_wf names t1" "view t1 = view t" "nt_size t1 = nt_size t"
      "length (nt_static_entries t1) = length (nt_static_entries t)"
      "index_handles (nt_index t1) = index_handles (nt_index t)"
      "slot t1 (rs_handle r) = Some ro" "entry_of t1 (rs_handle r) = Some re"
      using b(2) ere v rs by (auto simp: broken_def)
    have re1: "nt_mem t1 ro = Some re" using f(6,7) by (simp add: entry_of_def)
    have len1: "length (nt_index t1) < 65535" using f(5) room by (metis length_map)
    have stat: "nv_table_is_handle_static t1 = nv_table_is_handle_static t" by (rule is_handle_static_cong [OF f(4)])
    have z: "(of_nat (refs_total t1 h) :: guint32) = 0 \<longleftrightarrow> refs_total t1 h = 0"
      using bt(1) tot by (intro of_nat_eq_0_iff) simp
    have cond: "\<not> (slot t h = None \<and> \<not> want \<and> rs_len r = 0)" using store by blast
    have body: "nv_table_add_value_indirect t h name r type want mn =
        (if refs_total t1 h \<noteq> 0 then Inr (False, False, mn + (?mem + of_nat (refs_total t1 h)), t1)
         else case slot t h of
                None \<Rightarrow> add_indirect_new_entry t1 h name r type want ie is ro (?mem + of_nat (refs_total t1 h)) mn
              | Some ofs \<Rightarrow>
                  bindO (deref t1 ofs) (\<lambda>e.
                    if NV_ENTRY_INDIRECT_SIZE (length name) \<le> ne_alloc_len e
                    then bindO (nv_table_set_indirect_entry t1 h ofs name r type) (\<lambda>self.
                         bindO (mark_referenced self ro) (\<lambda>self. Inr (True, False, mn, self)))
                    else add_indirect_new_entry t1 h name r type False ie is ro (?mem + of_nat (refs_total t1 h)) mn))"
      unfolding nv_table_add_value_indirect_def g0 g(1) bindO_Inr prod.case option.case deref_def [of t] re v NVData.case
        Let_def indirect_need_def [symmetric] b(1) z
      using hr by (simp only: cond if_False simp_thms)
    show ?thesis
    proof (cases "refs_total t1 h = 0")
      case False
      with body f show ?thesis by auto
    next
      case True
      have nr: "no_refs t1 h"
        using True ref_need_eq_0 [OF nt_wf_shape [OF f(1)]] by (simp add: refs_total_def)
      have ir: "index_ref t1 h ie is" using g(2) index_ref_cong [OF f(4,5)] by simp
      have name1: "\<not> nv_table_is_handle_static t1 h \<Longrightarrow> name = names h" using name stat by simp
      have sv: "slice_value t1 r = slice_value t r" by (simp add: slice_value_def f(2))
      have new: "\<exists>ok t'. add_indirect_new_entry t1 h name r type nw ie is ro ?mem mn
             = Inr (ok, nw, if ok then mn else mn + ?mem, t') \<and>
           nt_wf names t' \<and> nt_size t' = nt_size t \<and>
           (ok \<longrightarrow> view t' = (view t)(h \<mapsto> (slice_value t r, type))) \<and> (\<not> ok \<longrightarrow> view t' = view t)" for nw
      proof -
        from add_indirect_new_entry [OF f(1) h f(6) re1 v hr nr len ir len1 name1, of type nw ?mem mn]
        obtain ok t' where t': "add_indirect_new_entry t1 h name r type nw ie is ro ?mem mn
             = Inr (ok, nw, if ok then mn else mn + ?mem, t')" "nt_wf names t'" "nt_size t' = nt_size t1"
          "ok \<longrightarrow> view t' = (view t1)(h \<mapsto> (slice_value t1 r, type))" "\<not> ok \<longrightarrow> same_content t1 t'"
          by blast
        have "\<not> ok \<longrightarrow> view t' = view t1" using t'(5) same_content_view [of t1 t'] by blast
        with t' f(2,3) sv show ?thesis by (intro exI [of _ ok] exI [of _ t']) simp
      qed
      show ?thesis
      proof (cases "slot t h")
        case None
        with body True new [of want] show ?thesis by auto
      next
        case (Some ofs)
        then have s1: "slot t1 h = Some ofs" using b(3) by simp
        from nt_wf_entry [OF f(1) s1] obtain e where e: "nt_mem t1 ofs = Some e" by blast
        show ?thesis
        proof (cases "NV_ENTRY_INDIRECT_SIZE (length name) \<le> ne_alloc_len e")
          case fits: True
          from set_indirect_in_place [OF f(1) s1 e f(6) re1 v hr nr len fits name1, of type] obtain t2 t' where
            "nv_table_set_indirect_entry t1 h ofs name r type = Inr t2" "mark_referenced t2 ro = Inr t'"
            "nt_wf names t'" "nt_size t' = nt_size t1" "view t' = (view t1)(h \<mapsto> (slice_value t1 r, type))" by blast
          with True body Some e f(2,3) sv fits show ?thesis
            by (intro exI [of _ True] exI [of _ False] exI [of _ mn] exI [of _ t']) (simp add: deref_def)
        next
          case fits: False
          with body True Some e new [of False] show ?thesis by (auto simp: deref_def)
        qed
      qed
    qed
  qed
qed

end
