(* ===== verification/NV_Table_Compact.thy ===== *)
theory NV_Table_Compact
  imports NV_Table_Update
begin

text \<open>
  Compaction of a name-value table: it copies the set values into a fresh table of the same size.  When
  every indirect value refers backwards, to a set value with a smaller handle, the copy has exactly the
  values of the original and only their space is taken.
\<close>

section \<open>Adding to a table without an entry for the handle\<close>

lemma fresh_no_refs:
  assumes "nt_wf names t" "slot t h = None"
  shows "no_refs t h"
  by (rule wf_no_refs [OF assms(1)]) (simp add: entry_of_def assms(2))

lemma add_value_fresh:
  assumes wf: "nt_wf names t" and h: "h \<noteq> 0" and fresh: "slot t h = None"
    and name: "\<not> nv_table_is_handle_static t h \<Longrightarrow> name = names h" and room: "length (nt_index t) < 65535"
    and len: "length value \<le> NV_TABLE_MAX_BYTES" and space: "direct_cost t h name value \<le> nv_table_get_available t"
  shows "\<exists>t' e. nv_table_add_value t h name value type False 0 = Inr (True, False, 0, t') \<and>
           stored names t h e t' \<and> ne_data e = VDirect value \<and> view t' = (view t)(h \<mapsto> (value, type)) \<and>
           nv_table_get_available t \<le> nv_table_get_available t' + direct_cost t h name value"
proof -
  note nr = fresh_no_refs [OF wf fresh]
  from get_entry [OF nt_wf_sorted [OF wf], of h] fresh obtain ie "is" where
    g: "nv_table_get_entry t h = Inr (None, ie, is)" "index_ref t h ie is" by auto
  let ?mem = "of_nat (direct_need name value) :: guint32"
  have "nv_table_add_value t h name value type False 0
      = add_value_store t h name value type False (slot t h) ie is ?mem 0"
    using len fresh
    by (simp add: nv_table_add_value_def numeral_2_eq_2 add_value_body_def g(1) Let_def
        nv_table_break_references_to_entry_def direct_need_def)
  moreover from add_value_store [OF wf h nr g(2) room name, of "value" type False ?mem 0] obtain ok t' where
    "add_value_store t h name value type False (slot t h) ie is ?mem 0
       = Inr (ok, False, if ok then 0 else 0 + ?mem, t')"
    "nv_table_get_available t \<le> nv_table_get_available t' + direct_cost t h name value"
    "ok \<longrightarrow> (\<exists>e. stored names t h e t' \<and> ne_data e = VDirect value \<and> ne_type e = type \<and> \<not> ne_unset e)"
    "\<not> ok \<longrightarrow> nv_table_get_available t < direct_cost t h name value" by auto
  moreover from this(4) space have ok by linarith
  ultimately show ?thesis using stored_view_direct [OF _ nr] by fastforce
qed

lemma add_value_indirect_fresh:
  assumes wf: "nt_wf names t" and h: "h \<noteq> 0" and fresh: "slot t h = None"
    and name: "\<not> nv_table_is_handle_static t h \<Longrightarrow> name = names h" and room: "length (nt_index t) < 65535"
    and rs: "entry_of t (rs_handle r) = Some re" "ne_data re = VDirect v"
    and len: "unat (rs_ofs r) + unat (rs_len r) < 2 ^ 32" "rs_len r \<noteq> 0"
    and space: "indirect_cost t h name \<le> nv_table_get_available t"
  shows "\<exists>t'. nv_table_add_value_indirect t h name r type False 0 = Inr (True, False, 0, t') \<and>
           nt_wf names t' \<and> nt_size t' = nt_size t \<and> view t' = (view t)(h \<mapsto> (slice_value t r, type)) \<and>
           nv_table_get_available t \<le> nv_table_get_available t' + indirect_cost t h name \<and>
           (\<forall>x. x \<noteq> h \<longrightarrow> slot t' x = slot t x \<and>
                 map_option ne_data (entry_of t' x) = map_option ne_data (entry_of t x)) \<and>
           (index_handles (nt_index t') = index_handles (nt_index t) \<or>
            \<not> nv_table_is_handle_static t h \<and> length (nt_index t') = Suc (length (nt_index t))) \<and>
           length (nt_static_entries t') = length (nt_static_entries t)"
proof -
  note nr = fresh_no_refs [OF wf fresh]
  from rs(1) obtain ro where ro: "slot t (rs_handle r) = Some ro" "nt_mem t ro = Some re"
    by (auto simp: entry_of_def split: option.splits)
  have hr: "h \<noteq> rs_handle r" using fresh ro(1) by auto
  from get_entry [OF nt_wf_sorted [OF wf], of "rs_handle r"] ro obtain ie0 is0 where
    g0: "nv_table_get_entry t (rs_handle r) = Inr (Some ro, ie0, is0)" by auto
  from get_entry [OF nt_wf_sorted [OF wf], of h] fresh obtain ie "is" where
    g: "nv_table_get_entry t h = Inr (None, ie, is)" "index_ref t h ie is" by auto
  let ?mem = "of_nat (indirect_need name) :: guint32"
  have eq: "nv_table_add_value_indirect t h name r type False 0
      = add_indirect_new_entry t h name r type False ie is ro ?mem 0"
    using hr len(2) ro rs(2)
    by (simp add: nv_table_add_value_indirect_def g0 g(1) deref_def Let_def
        nv_table_break_references_to_entry_def indirect_need_def)
  from add_indirect_new_entry [OF wf h ro rs(2) hr nr len(1) g(2) room name, of type False ?mem 0]
  obtain ok t' where t': "add_indirect_new_entry t h name r type False ie is ro ?mem 0
       = Inr (ok, False, if ok then 0 else 0 + ?mem, t')" "nt_wf names t'" "nt_size t' = nt_size t"
    "ok \<longrightarrow> view t' = (view t)(h \<mapsto> (slice_value t r, type)) \<and>
              nv_table_get_available t \<le> nv_table_get_available t' + indirect_cost t h name \<and>
              (\<forall>x. x \<noteq> h \<longrightarrow> slot t' x = slot t x \<and>
                 map_option ne_data (entry_of t' x) = map_option ne_data (entry_of t x)) \<and>
              (index_handles (nt_index t') = index_handles (nt_index t) \<or>
               slot t h = None \<and> \<not> nv_table_is_handle_static t h \<and> length (nt_index t') = Suc (length (nt_index t))) \<and>
              length (nt_static_entries t') = length (nt_static_entries t)"
    "\<not> ok \<longrightarrow> same_content t t' \<and> nv_table_get_available t < indirect_cost t h name" by blast
  from t'(5) space have ok by linarith
  with t' show ?thesis unfolding eq by (intro exI [of _ t']) auto
qed

section \<open>The order of the handles\<close>

lemma sorted_all_handles:
  assumes "nt_shape t"
  shows "sorted_wrt (<) (all_handles t)"
proof -
  have st: "sorted_wrt (<) (map (\<lambda>i. of_nat (i + 1) :: NVHandle) [0..<length (nt_static_entries t)])"
    unfolding sorted_wrt_map
  proof (rule sorted_wrt_mono_rel [OF _ sorted_wrt_upt])
    fix i j assume "i \<in> set [0..<length (nt_static_entries t)]" "j \<in> set [0..<length (nt_static_entries t)]" "i < j"
    moreover have "length (nt_static_entries t) < 256" using assms by (simp add: nt_shape_def)
    ultimately show "(of_nat (i + 1) :: NVHandle) < of_nat (j + 1)"
      using unat_of_nat_Suc_le [of i] unat_of_nat_Suc_le [of j] by (simp add: word_less_nat_alt del: of_nat_Suc of_nat_add)
  qed
  have apart: "x < y" if "x \<in> set (map (\<lambda>i. of_nat (i + 1) :: NVHandle) [0..<length (nt_static_entries t)])"
    "y \<in> set (index_handles (nt_index t))" for x y
  proof -
    from that(1) obtain i where i: "i < length (nt_static_entries t)" "x = of_nat (i + 1)"
      by (auto simp del: of_nat_Suc of_nat_add)
    have "unat x \<le> length (nt_static_entries t)"
      using i unat_of_nat_Suc_le [of i] assms by (simp add: nt_shape_def del: of_nat_Suc of_nat_add)
    moreover have "length (nt_static_entries t) < unat y" using that(2) assms by (auto simp: nt_shape_def)
    ultimately show ?thesis by (simp add: word_less_nat_alt)
  qed
  show ?thesis
    unfolding all_handles_def sorted_wrt_append using st apart assms
    by (simp add: nt_shape_def index_sorted_def del: of_nat_Suc of_nat_add)
qed

lemma earlier_handle:
  assumes "sorted_wrt (<) (hs :: NVHandle list)" "k < length hs" "x < hs ! k" "x \<in> set hs"
  shows "x \<in> set (take k hs)"
proof -
  from assms(4) obtain j where j: "j < length hs" "hs ! j = x" by (auto simp: in_set_conv_nth)
  have "\<not> k \<le> j"
  proof
    assume "k \<le> j"
    then have "hs ! k \<le> x"
      using sorted_wrt_nth_less [OF assms(1), of k j] j by (cases "k = j") (auto simp: less_imp_le)
    with assms(3) show False by simp
  qed
  with j show ?thesis by (auto simp: in_set_conv_nth intro!: exI [of _ j])
qed

section \<open>The space of the live entries\<close>

definition live_cost :: "NVTable \<Rightarrow> NVHandle \<Rightarrow> nat" where
  "live_cost t x = (case entry_of t x of None \<Rightarrow> 0 | Some e \<Rightarrow> ne_alloc_len e)"

lemma live_cost_total:
  assumes wf: "nt_wf names t"
  shows "sum_list (map (live_cost t) (all_handles t)) \<le> nt_used t"
proof -
  define region where "region x = (case slot t x of None \<Rightarrow> {} | Some ofs \<Rightarrow> {ofs - live_cost t x <.. ofs})" for x
  have card: "card (region x) = live_cost t x" and sub: "region x \<subseteq> {0<..nt_used t}" for x
  proof -
    show "card (region x) = live_cost t x"
    proof (cases "slot t x")
      case (Some ofs)
      from nt_wf_entry [OF wf Some] obtain e where "nt_mem t ofs = Some e" "ne_alloc_len e \<le> ofs" by blast
      with Some show ?thesis by (simp add: region_def live_cost_def entry_of_def)
    qed (simp add: region_def live_cost_def entry_of_def)
    show "region x \<subseteq> {0<..nt_used t}"
    proof (cases "slot t x")
      case (Some ofs)
      from nt_wf_entry [OF wf Some] have "ofs \<le> nt_used t" by blast
      with Some show ?thesis by (auto simp: region_def)
    qed (simp add: region_def)
  qed
  have disj: "region x \<inter> region y = {}" if "x \<noteq> y" for x y
  proof (cases "slot t x = None \<or> slot t y = None")
    case False
    then obtain ox oy where o: "slot t x = Some ox" "slot t y = Some oy" by auto
    from nt_wf_entry [OF wf o(1)] obtain ex where ex: "nt_mem t ox = Some ex" by blast
    from nt_wf_entry [OF wf o(2)] obtain ey where ey: "nt_mem t oy = Some ey" by blast
    from nt_wf_apart [OF wf o ey that] nt_wf_apart [OF wf o(2,1) ex that [symmetric]]
    show ?thesis by (auto simp: region_def o live_cost_def entry_of_def ex ey)
  qed (auto simp: region_def)
  have "sum_list (map (live_cost t) (all_handles t)) = (\<Sum>x \<in> set (all_handles t). card (region x))"
    using distinct_all_handles [OF nt_wf_shape [OF wf]] by (simp add: sum_list_distinct_conv_sum_set card)
  also have "\<dots> = card (\<Union>x \<in> set (all_handles t). region x)"
    using disj finite_subset [OF sub] by (intro card_UN_disjoint [symmetric]) auto
  also have "\<dots> \<le> card {0<..nt_used t}" using sub by (intro card_mono) auto
  finally show ?thesis by simp
qed
section \<open>Compaction\<close>

text \<open>The space the live entry of a handle takes, with its slot of the index.\<close>

abbreviation live_space :: "NVTable \<Rightarrow> NVHandle \<Rightarrow> nat" where
  "live_space t x \<equiv> live_cost t x + dyn_cost t x"

text \<open>Every set indirect entry is a non-empty slice of a set entry with a smaller handle.\<close>

definition refs_backward :: "NVTable \<Rightarrow> bool" where
  "refs_backward t =
     (\<forall>x e r. entry_of t x = Some e \<longrightarrow> \<not> ne_unset e \<longrightarrow> ne_data e = VIndirect r \<longrightarrow>
        rs_len r \<noteq> 0 \<and> rs_handle r < x \<and> view t (rs_handle r) \<noteq> None)"

definition compact_inv :: "(NVHandle \<Rightarrow> bytes) \<Rightarrow> NVTable \<Rightarrow> nat \<Rightarrow> NVTable \<Rightarrow> bool" where
  "compact_inv names old k new =
     (nt_wf names new \<and> nt_size new = nt_size old \<and>
      length (nt_static_entries new) = length (nt_static_entries old) \<and>
      length (nt_index new) \<le> k - length (nt_static_entries old) \<and>
      (\<forall>x \<in> set (take k (all_handles old)). view new x = view old x) \<and>
      (\<forall>x \<in> set (take k (all_handles old)). \<forall>e v. entry_of old x = Some e \<longrightarrow> \<not> ne_unset e \<longrightarrow> ne_data e = VDirect v \<longrightarrow>
         map_option ne_data (entry_of new x) = Some (VDirect v)) \<and>
      (\<forall>x. x \<notin> set (take k (all_handles old)) \<longrightarrow> slot new x = None) \<and>
      nt_size old \<le> nv_table_get_available new + 16 + 4 * length (nt_static_entries old) +
        sum_list (map (live_space old) (take k (all_handles old))))"

lemma live_space_total:
  assumes wf: "nt_wf names t"
  shows "sum_list (map (live_space t) (all_handles t)) + 16 + 4 * length (nt_static_entries t) \<le> nt_size t"
proof -
  have st: "sum_list (map (dyn_cost t) (map (\<lambda>i. of_nat (i + 1)) [0..<length (nt_static_entries t)])) = 0"
    using nt_wf_shape [OF wf]
    by (auto simp: dyn_cost_def nv_table_is_handle_static_def unat_of_nat_Suc_le [unfolded Suc_eq_plus1 [symmetric]]
        nt_shape_def sum_list_eq_0_iff simp del: of_nat_Suc of_nat_add)
  have "map (dyn_cost t) (index_handles (nt_index t)) = map (\<lambda>_. 8) (nt_index t)"
    using nt_wf_shape [OF wf] by (auto simp: dyn_cost_def nv_table_is_handle_static_def nt_shape_def)
  then have "sum_list (map (dyn_cost t) (all_handles t)) = 8 * length (nt_index t)"
    using st by (simp add: all_handles_def sum_list_triv del: map_map of_nat_Suc of_nat_add)
  then have "sum_list (map (live_space t) (all_handles t)) \<le> nt_used t + 8 * length (nt_index t)"
    using live_cost_total [OF wf] by (simp add: sum_list_addf)
  moreover have "nt_used t + nv_table_get_ofs_table_top t \<le> nt_size t"
    using nt_wf_shape [OF wf] by (simp add: nt_shape_def)
  ultimately show ?thesis by (simp add: nv_table_get_ofs_table_top_def)
qed

lemma live_space_fits:
  assumes wf: "nt_wf names old" and inv: "compact_inv names old k new" and k: "k < length (all_handles old)"
  shows "live_space old (all_handles old ! k) \<le> nv_table_get_available new"
proof -
  let ?hs = "all_handles old"
  have "sum_list (map f (take (Suc k) xs)) \<le> sum_list (map f xs)" for f :: "NVHandle \<Rightarrow> nat" and xs
    using sum_list_append [of "map f (take (Suc k) xs)" "map f (drop (Suc k) xs)"] by (simp flip: map_append)
  from this [of "live_space old" ?hs]
  have "sum_list (map (live_space old) (take (Suc k) ?hs)) \<le> sum_list (map (live_space old) ?hs)" .
  with live_space_total [OF wf] inv k show ?thesis
    unfolding compact_inv_def by (simp add: take_Suc_conv_app_nth)
qed

lemma compact_inv_grow:
  assumes inv: "compact_inv names old k new" and k: "k < length (all_handles old)"
    and dist: "distinct (all_handles old)" and h: "h = all_handles old ! k"
    and new': "nt_wf names new'" "nt_size new' = nt_size new"
      "length (nt_static_entries new') = length (nt_static_entries new)"
      "length (nt_index new') \<le> Suc k - length (nt_static_entries old)"
      "\<And>x. x \<noteq> h \<Longrightarrow> slot new' x = slot new x \<and> map_option ne_data (entry_of new' x) = map_option ne_data (entry_of new x)"
      "\<And>x. x \<noteq> h \<Longrightarrow> view new' x = view new x" "view new' h = view old h"
      "nv_table_get_available new \<le> nv_table_get_available new' + live_space old h"
      "\<And>e v. entry_of old h = Some e \<Longrightarrow> \<not> ne_unset e \<Longrightarrow> ne_data e = VDirect v \<Longrightarrow>
         map_option ne_data (entry_of new' h) = Some (VDirect v)"
  shows "compact_inv names old (Suc k) new'"
proof -
  have set: "set (take (Suc k) (all_handles old)) = insert h (set (take k (all_handles old)))"
    using k by (simp add: take_Suc_conv_app_nth h)
  have "nt_size old \<le> nv_table_get_available new' + 16 + 4 * length (nt_static_entries old) +
        sum_list (map (live_space old) (take (Suc k) (all_handles old)))"
    using inv k new'(8) by (simp add: compact_inv_def take_Suc_conv_app_nth h)
  moreover have "\<forall>x \<in> insert h (set (take k (all_handles old))). view new' x = view old x"
  proof
    fix x assume "x \<in> insert h (set (take k (all_handles old)))"
    then show "view new' x = view old x"
      using inv new'(6) [of x] new'(7) by (cases "x = h") (simp_all add: compact_inv_def)
  qed
  moreover have "\<forall>x \<in> insert h (set (take k (all_handles old))). \<forall>e v. entry_of old x = Some e \<longrightarrow> \<not> ne_unset e \<longrightarrow>
      ne_data e = VDirect v \<longrightarrow> map_option ne_data (entry_of new' x) = Some (VDirect v)"
  proof (intro ballI allI impI)
    fix x e v assume x: "x \<in> insert h (set (take k (all_handles old)))"
      and e: "entry_of old x = Some e" "\<not> ne_unset e" "ne_data e = VDirect v"
    show "map_option ne_data (entry_of new' x) = Some (VDirect v)"
      using x e inv new'(5) [of x] new'(9) by (cases "x = h") (simp_all add: compact_inv_def)
  qed
  moreover have "\<forall>x. x \<notin> insert h (set (take k (all_handles old))) \<longrightarrow> slot new' x = None"
    using inv new'(5) by (simp add: compact_inv_def)
  ultimately show ?thesis
    unfolding compact_inv_def set using inv new'(1-4) by (simp add: compact_inv_def)
qed

lemma compact_inv_skip:
  assumes inv: "compact_inv names old k new" and k: "k < length (all_handles old)"
    and dist: "distinct (all_handles old)" and none: "view old (all_handles old ! k) = None"
  shows "compact_inv names old (Suc k) new"
proof (rule compact_inv_grow [OF inv k dist refl])
  have "all_handles old ! k \<notin> set (take k (all_handles old))"
    using dist k by (auto simp: in_set_conv_nth nth_eq_iff_index_eq)
  with inv have "slot new (all_handles old ! k) = None" by (simp add: compact_inv_def)
  then show "view new (all_handles old ! k) = view old (all_handles old ! k)"
    unfolding none by (simp add: view_def entry_of_def)
  show "map_option ne_data (entry_of new (all_handles old ! k)) = Some (VDirect v)"
    if "entry_of old (all_handles old ! k) = Some e" "\<not> ne_unset e" "ne_data e = VDirect v" for e v
    using none that by (simp add: view_def)
qed (use inv in \<open>auto simp: compact_inv_def\<close>)
lemma dynamic_handle_nth:
  assumes "nt_shape t" "k < length (all_handles t)" "\<not> nv_table_is_handle_static t (all_handles t ! k)"
  shows "length (nt_static_entries t) \<le> k"
proof (rule ccontr)
  assume "\<not> length (nt_static_entries t) \<le> k"
  then have k: "k < length (nt_static_entries t)" "length (nt_static_entries t) < 256"
    using assms(1) by (auto simp: nt_shape_def)
  then have "all_handles t ! k = of_nat (k + 1)" by (simp add: all_handles_def nth_append)
  with assms(3) k unat_of_nat_Suc_le [of k] show False
    by (simp add: nv_table_is_handle_static_def del: of_nat_Suc of_nat_add)
qed

lemma compact_step_facts:
  assumes wf: "nt_wf names old" and inv: "compact_inv names old k new" and k: "k < length (all_handles old)"
    and h: "h = all_handles old ! k" and e: "entry_of old h = Some e"
  shows "slot new h = None" "nv_table_is_handle_static new = nv_table_is_handle_static old" "h \<noteq> 0"
    "length (nt_index new) < 65535" "\<not> nv_table_is_handle_static new h \<Longrightarrow> ne_name e = names h"
    "4 dvd ne_alloc_len e" "entry_wf names old h e" "nt_wf names new"
    "index_handles (nt_index t') = index_handles (nt_index new) \<or>
     \<not> nv_table_is_handle_static new h \<and> length (nt_index t') = Suc (length (nt_index new)) \<Longrightarrow>
     length (nt_index t') \<le> Suc k - length (nt_static_entries old)"
proof -
  note sh = nt_wf_shape [OF wf]
  show nwf: "nt_wf names new" using inv by (simp add: compact_inv_def)
  have "h \<notin> set (take k (all_handles old))"
    using distinct_all_handles [OF sh] k h by (auto simp: in_set_conv_nth nth_eq_iff_index_eq)
  then show "slot new h = None" using inv by (simp add: compact_inv_def)
  show stat: "nv_table_is_handle_static new = nv_table_is_handle_static old"
    using inv by (intro is_handle_static_cong) (simp add: compact_inv_def)
  from e obtain ofs where ofs: "slot old h = Some ofs" "nt_mem old ofs = Some e"
    by (auto simp: entry_of_def split: option.splits)
  then show "h \<noteq> 0" by (auto simp: slot_def)
  from nt_wf_entry [OF wf ofs(1)] ofs(2) show "4 dvd ne_alloc_len e" and ewf: "entry_wf names old h e" by auto
  then show "ne_name e = names h" if "\<not> nv_table_is_handle_static new h" using that by (simp add: entry_wf_def stat)
  have "length (nt_index old) < 65536" "length (all_handles old) = length (nt_static_entries old) + length (nt_index old)"
    using sh by (auto simp: nt_shape_def all_handles_def)
  moreover have grown: "length (nt_index new) \<le> k - length (nt_static_entries old)" using inv by (simp add: compact_inv_def)
  ultimately show "length (nt_index new) < 65535" using k by linarith
  assume ix: "index_handles (nt_index t') = index_handles (nt_index new) \<or>
     \<not> nv_table_is_handle_static new h \<and> length (nt_index t') = Suc (length (nt_index new))"
  show "length (nt_index t') \<le> Suc k - length (nt_static_entries old)"
  proof (cases "length (nt_index t') = length (nt_index new)")
    case False
    then have "\<not> nv_table_is_handle_static old h" "length (nt_index t') = Suc (length (nt_index new))"
      using ix stat map_eq_imp_length_eq by auto
    then show ?thesis using dynamic_handle_nth [OF sh k] h grown by simp
  qed (use grown in linarith)
qed

lemma compact_step_direct:
  assumes wf: "nt_wf names old" and inv: "compact_inv names old k new" and k: "k < length (all_handles old)"
    and h: "h = all_handles old ! k" and e: "slot old h = Some ofs" "nt_mem old ofs = Some e" "\<not> ne_unset e"
    and d: "ne_data e = VDirect v"
  shows "\<exists>new'. compact_foreach_entry old h ofs new = Inr (False, new') \<and> compact_inv names old (Suc k) new'"
proof -
  have eo: "entry_of old h = Some e" using e by (simp add: entry_of_def)
  note f = compact_step_facts [OF wf inv k h eo]
  have cost: "direct_cost new h (ne_name e) v \<le> live_space old h"
    using f(6,7) d by (auto simp: direct_cost_def dyn_cost_def f(2) live_cost_def eo entry_wf_def NV_TABLE_BOUND_le_iff)
  with live_space_fits [OF wf inv k] h have space: "direct_cost new h (ne_name e) v \<le> nv_table_get_available new" by simp
  from add_value_fresh [OF f(8,3,1,5,4) direct_length [OF wf eo d] space]
  obtain t' e' where t': "nv_table_add_value new h (ne_name e) v (ne_type e) False 0 = Inr (True, False, 0, t')"
    "stored names new h e' t'" "ne_data e' = VDirect v" "view t' = (view new)(h \<mapsto> (v, ne_type e))"
    "nv_table_get_available new \<le> nv_table_get_available t' + direct_cost new h (ne_name e) v" by blast
  have "compact_foreach_entry old h ofs new = Inr (False, t')"
    by (simp add: compact_foreach_entry_def deref_def e d nv_table_resolve_direct_def t'(1))
  moreover have "compact_inv names old (Suc k) t'"
  proof (rule compact_inv_grow [OF inv k distinct_all_handles [OF nt_wf_shape [OF wf]] h])
    show "view t' h = view old h" by (simp add: t'(4)) (simp add: view_def eo e(3) content_def d)
    show "length (nt_index t') \<le> Suc k - length (nt_static_entries old)"
      using t'(2) by (intro f(9)) (auto simp: stored_def)
  qed (use t' cost in \<open>auto simp: stored_def eo d\<close>)
  ultimately show ?thesis by blast
qed

lemma compact_step_indirect:
  assumes wf: "nt_wf names old" and bw: "refs_backward old" and inv: "compact_inv names old k new"
    and k: "k < length (all_handles old)" and h: "h = all_handles old ! k"
    and e: "slot old h = Some ofs" "nt_mem old ofs = Some e" "\<not> ne_unset e" and d: "ne_data e = VIndirect r"
  shows "\<exists>new'. compact_foreach_entry old h ofs new = Inr (False, new') \<and> compact_inv names old (Suc k) new'"
proof -
  have eo: "entry_of old h = Some e" using e by (simp add: entry_of_def)
  note f = compact_step_facts [OF wf inv k h eo]
  have b: "rs_len r \<noteq> 0" "rs_handle r < h" "view old (rs_handle r) \<noteq> None"
    using bw eo e(3) d by (auto simp: refs_backward_def)
  from f(7) d obtain ro re v where ro: "slot old (rs_handle r) = Some ro" "nt_mem old ro = Some re" "ne_data re = VDirect v"
    and len: "unat (rs_ofs r) + unat (rs_len r) < 2 ^ 32"
    by (auto simp: entry_wf_def refers_to_direct_def)
  then have reo: "entry_of old (rs_handle r) = Some re" by (simp add: entry_of_def)
  with b(3) have reu: "\<not> ne_unset re" by (auto simp: view_def)
  have "rs_handle r \<in> set (take k (all_handles old))"
    using earlier_handle [OF sorted_all_handles [OF nt_wf_shape [OF wf]] k] b(2) h
      slot_in_all_handles [OF nt_wf_shape [OF wf]] ro(1) by simp
  then have "map_option ne_data (entry_of new (rs_handle r)) = Some (VDirect v)" "view new (rs_handle r) = view old (rs_handle r)"
    using inv reo reu ro(3) by (auto simp: compact_inv_def)
  then obtain re' where re': "entry_of new (rs_handle r) = Some re'" "ne_data re' = VDirect v"
    and rv: "slice_value new r = slice_value old r" by (auto simp: slice_value_def)
  have cost: "indirect_cost new h (ne_name e) \<le> live_space old h"
    using f(6,7) d by (auto simp: indirect_cost_def dyn_cost_def f(2) live_cost_def eo entry_wf_def NV_TABLE_BOUND_le_iff)
  with live_space_fits [OF wf inv k] h have space: "indirect_cost new h (ne_name e) \<le> nv_table_get_available new" by simp
  from add_value_indirect_fresh [OF f(8,3,1,5,4) re' len b(1) space] obtain t' where
    t': "nv_table_add_value_indirect new h (ne_name e) r (ne_type e) False 0 = Inr (True, False, 0, t')"
    "nt_wf names t'" "nt_size t' = nt_size new" "view t' = (view new)(h \<mapsto> (slice_value new r, ne_type e))"
    "nv_table_get_available new \<le> nv_table_get_available t' + indirect_cost new h (ne_name e)"
    "\<forall>x. x \<noteq> h \<longrightarrow> slot t' x = slot new x \<and>
       map_option ne_data (entry_of t' x) = map_option ne_data (entry_of new x)"
    "index_handles (nt_index t') = index_handles (nt_index new) \<or>
     \<not> nv_table_is_handle_static new h \<and> length (nt_index t') = Suc (length (nt_index new))"
    "length (nt_static_entries t') = length (nt_static_entries new)" by blast
  have "compact_foreach_entry old h ofs new = Inr (False, t')"
    by (simp add: compact_foreach_entry_def deref_def e d t'(1))
  moreover have "compact_inv names old (Suc k) t'"
  proof (rule compact_inv_grow [OF inv k distinct_all_handles [OF nt_wf_shape [OF wf]] h])
    show "view t' h = view old h"
      by (simp add: t'(4) rv slice_value_direct [OF reo ro(3)]) (simp add: view_def eo e(3) content_def d)
  qed (use t' cost f(9) in \<open>auto simp: eo d\<close>)
  ultimately show ?thesis by blast
qed

lemma compact_init:
  assumes "nt_wf names old" "nt_size old \<le> NV_TABLE_MAX_BYTES"
  shows "\<exists>new. nv_table_init (nt_size old) (length (nt_static_entries old)) = Inr new \<and> compact_inv names old 0 new"
proof -
  let ?new = "\<lparr>nt_size = nt_size old, nt_used = 0, nt_static_entries = replicate (length (nt_static_entries old)) 0,
             nt_index = [], nt_ref_cnt = 1, nt_borrowed = False, nt_mem = (\<lambda>_. None)\<rparr>"
  note sh = nt_wf_shape [OF assms(1)]
  have top: "16 + length (nt_static_entries old) * 4 \<le> nt_size old"
    using sh by (simp add: nt_shape_def nv_table_get_ofs_table_top_def)
  have slots: "slot ?new x = None" for x
    using unat_gt_0 [of x]
    by (cases "x = 0") (auto simp: slot_def slot_ofs_def nv_table_is_handle_static_def simp del: unat_gt_0)
  have nsh: "nt_shape ?new"
    using sh top by (simp add: nt_shape_def nv_table_get_ofs_table_top_def index_sorted_def)
  then have "compact_inv names old 0 ?new"
    using top by (simp add: compact_inv_def nt_wf_def slots [simplified] available nv_table_get_ofs_table_top_def)
  with assms(2) show ?thesis by (simp add: nv_table_init_def)
qed

lemma compact_correct:
  assumes wf: "nt_wf names t" and bw: "refs_backward t"
  shows "\<exists>t'. nv_table_compact t = Inr t' \<and> nt_wf names t' \<and> nt_size t' = nt_size t \<and> view t' = view t \<and>
           nt_size t \<le> nv_table_get_available t' + 16 + 4 * length (nt_static_entries t) +
             sum_list (map (live_space t) (all_handles t))"
proof -
  let ?n = "length (nt_static_entries t) + length (nt_index t)"
  have sh: "nt_shape t" by (rule nt_wf_shape [OF wf])
  have len: "length (all_handles t) = ?n" by (simp add: all_handles_def)
  from sh have "nt_size t \<le> NV_TABLE_MAX_BYTES" by (simp add: nt_shape_def)
  from compact_init [OF wf this] obtain new where
    init: "nv_table_init (nt_size t) (length (nt_static_entries t)) = Inr new" "compact_inv names t 0 new" by blast
  have "\<exists>t'. nv_table_foreach_entry (\<lambda>_. t) (compact_foreach_entry t) new = Inr (False, t') \<and> compact_inv names t ?n t'"
  proof (rule foreach_entry [where P = "compact_inv names t", OF init(2)])
    fix k s assume inv: "compact_inv names t k s" and k: "k < ?n"
    show "compact_inv names t (Suc k) s" if "slot t (all_handles t ! k) = None"
      using compact_inv_skip [OF inv _ distinct_all_handles [OF sh]] k that by (simp add: len view_def entry_of_def)
    fix ofs assume ofs: "slot t (all_handles t ! k) = Some ofs"
    from nt_wf_entry [OF wf ofs] obtain e where e: "nt_mem t ofs = Some e" by blast
    show "\<exists>s'. compact_foreach_entry t (all_handles t ! k) ofs s = Inr (False, s') \<and> compact_inv names t (Suc k) s'"
    proof (cases "ne_unset e")
      case True
      then show ?thesis using compact_inv_skip [OF inv _ distinct_all_handles [OF sh]] k ofs e
        by (simp add: len view_def entry_of_def compact_foreach_entry_def deref_def)
    next
      case False
      then show ?thesis
        using compact_step_direct [OF wf inv _ refl ofs e] compact_step_indirect [OF wf bw inv _ refl ofs e] k
        by (cases "ne_data e") (auto simp: len)
    qed
  qed (use sh in simp)
  then obtain t' where t': "nv_table_foreach_entry (\<lambda>_. t) (compact_foreach_entry t) new = Inr (False, t')"
    "compact_inv names t ?n t'" by blast
  have "view t' x = view t x" for x
  proof (cases "x \<in> set (all_handles t)")
    case False
    then have "slot t x = None" "slot t' x = None"
      using slot_in_all_handles [OF sh, of x] t'(2) by (blast, simp add: compact_inv_def len [symmetric])
    then show ?thesis by (simp add: view_def entry_of_def)
  qed (use t'(2) in \<open>simp add: compact_inv_def len [symmetric]\<close>)
  then show ?thesis
    using t' init(1) by (auto simp: nv_table_compact_def compact_inv_def len [symmetric])
qed

end
