(* ===== verification/NV_Table_Properties.thy ===== *)
theory NV_Table_Properties
  imports NV_Table_Compact
begin

text \<open>
  What callers of the name-value table can rely on, in terms of the values lookups return: storing, unsetting
  and referring to values, iterating, growing and compacting; and three behaviours of the source that
  fall outside of it.
\<close>

section \<open>Values as lookups see them\<close>


text \<open>A table with the direct value \<^verbatim>\<open>hello\<close> of handle 1, the indirect value \<^verbatim>\<open>ell\<close> of handle 2, a slice of
  the first, and the dynamic value of handle 20.\<close>

definition sample_direct :: NVEntry where
  "sample_direct = \<lparr>ne_referenced = True, ne_unset = False, ne_type = 0, ne_name = [], ne_alloc_len = 20,
     ne_data = VDirect [104, 101, 108, 108, 111]\<rparr>"

definition sample_slice :: NVEntry where
  "sample_slice = \<lparr>ne_referenced = False, ne_unset = False, ne_type = 0, ne_name = [], ne_alloc_len = 28,
     ne_data = VIndirect \<lparr>rs_handle = 1, rs_ofs = 1, rs_len = 3\<rparr>\<rparr>"

definition sample_dynamic :: NVEntry where
  "sample_dynamic = \<lparr>ne_referenced = False, ne_unset = False, ne_type = 0, ne_name = [120], ne_alloc_len = 16,
     ne_data = VDirect [118]\<rparr>"

definition sample_table :: NVTable where
  "sample_table =
     \<lparr>nt_size = 256, nt_used = 64, nt_static_entries = [20, 48],
      nt_index = [\<lparr>ie_handle = 20, ie_ofs = 64\<rparr>], nt_ref_cnt = 1, nt_borrowed = False,
      nt_mem = [20 \<mapsto> sample_direct, 48 \<mapsto> sample_slice, 64 \<mapsto> sample_dynamic]\<rparr>"

lemmas sample_entries = sample_direct_def sample_slice_def sample_dynamic_def

lemma small_handle:
  assumes "unat h \<le> 2" and "h \<noteq> (0 :: NVHandle)"
  shows "h = 1 \<or> h = 2"
proof -
  have "unat h = 0 \<or> unat h = 1 \<or> unat h = 2" using assms(1) by linarith
  then show ?thesis using assms(2) by (auto simp: word_unat_eq_iff)
qed

lemma sample_slot:
  "slot sample_table h = (if h = 1 then Some 20 else if h = 2 then Some 48 else if h = 20 then Some 64 else None)"
proof (cases "unat h \<le> 2 \<and> h \<noteq> 0")
  case True
  with small_handle show ?thesis
    by (auto simp: slot_def slot_ofs_def sample_table_def nv_table_is_handle_static_def)
next
  case False
  then have "h \<noteq> 1" "h \<noteq> 2" by auto
  with False show ?thesis
    by (auto simp: slot_def slot_ofs_def sample_table_def nv_table_is_handle_static_def)
qed

lemma sample_mem:
  "nt_mem sample_table 20 = Some sample_direct" "nt_mem sample_table 48 = Some sample_slice"
  "nt_mem sample_table 64 = Some sample_dynamic"
  by (simp_all add: sample_table_def)

lemma sample_entry_of:
  "entry_of sample_table h =
     (if h = 1 then Some sample_direct else if h = 2 then Some sample_slice
      else if h = 20 then Some sample_dynamic else None)"
  by (simp add: entry_of_def sample_slot sample_mem)

lemma sample_static: "nv_table_is_handle_static sample_table h \<longleftrightarrow> unat h \<le> 2"
  by (simp add: sample_table_def nv_table_is_handle_static_def numeral_2_eq_2)

lemma sample_wf: "nt_wf (\<lambda>_. [120]) sample_table"
proof -
  have "nt_shape sample_table"
    by (simp add: nt_shape_def sample_table_def nv_table_get_ofs_table_top_def index_sorted_def)
  moreover have "refers_to_direct sample_table \<lparr>rs_handle = 1, rs_ofs = 1, rs_len = 3\<rparr>"
    by (simp add: refers_to_direct_entry_of sample_entry_of sample_direct_def)
  moreover have "nt_used sample_table = 64" by (simp add: sample_table_def)
  ultimately show ?thesis
    unfolding nt_wf_def sample_slot
    by (auto simp: sample_mem sample_entries entry_wf_def sample_static NV_ENTRY_DIRECT_SIZE_def
        NV_ENTRY_INDIRECT_SIZE_def split: if_splits)
qed

lemma sample_refs: "refers sample_table h x e \<longleftrightarrow> h = 1 \<and> x = 2 \<and> e = sample_slice"
  by (auto simp: refers_def sample_entry_of sample_entries split: if_splits)

lemma sample_all_handles: "all_handles sample_table = [1, 2, 20]"
  by (simp add: all_handles_def sample_table_def upt_rec)

lemma sample_content: "content sample_table sample_slice = [101, 108, 108]"
  by (simp add: content_def sample_entry_of slice_of_def direct_value_def sample_entries)

lemma sample_refs_total: "refs_total sample_table 1 = 28"
  by (simp add: refs_total_def ref_need_def sample_all_handles ref_cost_def sample_entry_of sample_refs sample_content
      direct_need_def NV_TABLE_BOUND_def NV_ENTRY_DIRECT_SIZE_def)
    (simp add: sample_entries)

lemma sample_index: "length (nt_index sample_table) = 1"
  by (simp add: sample_table_def)

lemma sample_can_store: "can_store (\<lambda>_. [120]) sample_table 1 []"
  using sample_wf sample_refs_total
  by (simp add: can_store_def refs_set_def sample_refs sample_index sample_static sample_slice_def)


lemma sample_available: "nv_table_get_available sample_table = 160"
  by (simp add: sample_table_def nv_table_get_available_def nv_table_get_ofs_table_top_def)




definition visited_values ::
  "NVTable \<Rightarrow> (NVHandle \<Rightarrow> bytes option) \<Rightarrow> NVHandle list \<Rightarrow> (NVHandle \<times> bytes option \<times> bytes \<times> NVType) list" where
  "visited_values t handle_name hs =
     concat (map (\<lambda>h. case nv_table_get_value t h of
                         Inr (Some (v, ty)) \<Rightarrow> [(h, handle_name h, v, ty)] | _ \<Rightarrow> []) hs)"

lemma visited_values_snoc:
  assumes "nt_wf names t" and "k < length hs"
  shows "visited_values t nm (take (Suc k) hs) = visited_values t nm (take k hs)
     @ (case view t (hs ! k) of None \<Rightarrow> [] | Some (v, ty) \<Rightarrow> [(hs ! k, nm (hs ! k), v, ty)])"
  using assms by (simp add: visited_values_def take_Suc_conv_app_nth get_value [OF assms(1)] split: option.splits)

lemma nv_table_foreach:
  assumes wf: "nt_wf names t"
  shows "nv_table_foreach t nm (\<lambda>h name v ty s. (False, s @ [(h, name, v, ty)])) []
           = Inr (False, visited_values t nm (all_handles t))"
proof -
  let ?f = "nv_table_call_foreach t nm (\<lambda>h name v ty s. (False, s @ [(h, name, v, ty)]))"
  let ?n = "length (nt_static_entries t) + length (nt_index t)"
  have len: "length (all_handles t) = ?n" by (simp add: all_handles_def)
  have "\<exists>s'. nv_table_foreach_entry (\<lambda>_. t) ?f [] = Inr (False, s') \<and> s' = visited_values t nm (take ?n (all_handles t))"
  proof (rule foreach_entry [where P = "\<lambda>k s. s = visited_values t nm (take k (all_handles t))"])
    fix k s ofs
    assume s: "s = visited_values t nm (take k (all_handles t))" and k: "k < ?n"
      and ofs: "slot t (all_handles t ! k) = Some ofs"
    from nt_wf_entry [OF wf ofs] obtain e where e: "nt_mem t ofs = Some e" by blast
    have "nv_table_resolve_entry t e = Inr (content t e, ne_type e)" if "\<not> ne_unset e"
      using that resolve_indirect [OF wf ofs e]
      by (cases "ne_data e") (simp_all add: nv_table_resolve_entry_def nv_table_resolve_direct_def content_def)
    then show "\<exists>s'. ?f (all_handles t ! k) ofs s = Inr (False, s') \<and> s' = visited_values t nm (take (Suc k) (all_handles t))"
      using s k e ofs visited_values_snoc [OF wf, of k "all_handles t" nm]
      by (simp add: nv_table_call_foreach_def deref_def len view_def entry_of_def)
  next
    fix k s
    assume "s = visited_values t nm (take k (all_handles t))" "k < ?n" "slot t (all_handles t ! k) = None"
    then show "s = visited_values t nm (take (Suc k) (all_handles t))"
      using visited_values_snoc [OF wf, of k "all_handles t" nm] by (simp add: len view_def entry_of_def)
  qed (simp_all add: visited_values_def nt_wf_shape [OF wf])
  then show ?thesis by (simp add: nv_table_foreach_def len [symmetric])
qed

text \<open>C21: Iteration.  \<^verbatim>\<open>nv_table_foreach\<close> calls its function once for every value a lookup finds, with the name
  of the handle and the value and type the lookup returns, in increasing order of the handles.\<close>

theorem nv_table_foreach_correct:
  assumes "nt_wf names t"
  shows "\<exists>hs. nv_table_foreach t nm (\<lambda>h name v ty s. (False, s @ [(h, name, v, ty)])) []
             = Inr (False, visited_values t nm hs) \<and>
           sorted_wrt (<) hs \<and> {h. nv_table_get_value t h \<noteq> Inr None} \<subseteq> set hs"
proof -
  have "h \<in> set (all_handles t)" if "nv_table_get_value t h \<noteq> Inr None" for h
    using that slot_in_all_handles [OF nt_wf_shape [OF assms], of h]
    by (cases "slot t h") (auto simp: get_value [OF assms] view_def entry_of_def)
  then show ?thesis
    using nv_table_foreach [OF assms, of nm] sorted_all_handles [OF nt_wf_shape [OF assms]] by blast
qed

theorem nv_table_foreach_correct_witness:
  "\<exists>hs. nv_table_foreach sample_table (\<lambda>_. None) (\<lambda>h name v ty s. (False, s @ [(h, name, v, ty)])) []
       = Inr (False, visited_values sample_table (\<lambda>_. None) hs) \<and> {1, 2, 20} \<subseteq> set hs"
proof -
  have "{1, 2, 20} \<subseteq> {h. nv_table_get_value sample_table h \<noteq> Inr None}"
    by (simp add: get_value [OF sample_wf] view_def sample_entry_of sample_entries)
  with nv_table_foreach_correct [OF sample_wf, of "\<lambda>_. None"] show ?thesis by blast
qed

lemma resized:
  fixes c :: nat and b :: bool
  assumes wf: "nt_wf names t" and s: "nt_size t \<le> s" "s \<le> NV_TABLE_MAX_BYTES"
  defines "t' \<equiv> t\<lparr>nt_size := s, nt_ref_cnt := c, nt_borrowed := b\<rparr>"
  shows "nt_wf names t'" "view t' = view t" "nv_table_get_available t' = nv_table_get_available t + (s - nt_size t)"
proof -
  have "slot_ofs t' h = slot_ofs t h" for h by (simp add: t'_def slot_ofs_def nv_table_is_handle_static_def)
  then have sl: "slot t' = slot t" by (intro ext) (simp add: slot_def)
  have top: "nv_table_get_ofs_table_top t' = nv_table_get_ofs_table_top t"
    by (simp add: t'_def nv_table_get_ofs_table_top_def)
  have m: "nt_mem t' = nt_mem t" "nt_used t' = nt_used t" "nv_table_is_handle_static t' = nv_table_is_handle_static t"
    by (simp_all add: t'_def nv_table_is_handle_static_def [abs_def])
  have e: "entry_of t' = entry_of t" unfolding entry_of_def [abs_def] sl m(1) ..
  have sh: "nt_shape t" "nt_shape t'" using nt_wf_shape [OF wf] s top by (simp_all add: nt_shape_def t'_def)
  have "refers_to_direct t' = refers_to_direct t"
    unfolding refers_to_direct_def [abs_def] sl m(1) ..
  then have "entry_wf names t' = entry_wf names t" unfolding entry_wf_def [abs_def] m(3) by (rule arg_cong)
  then show "nt_wf names t'" using wf sh unfolding nt_wf_def sl by (simp add: m)
  show "view t' = view t" unfolding view_def [abs_def] content_def e ..
  show "nv_table_get_available t' = nv_table_get_available t + (s - nt_size t)"
    using sh s top unfolding available [OF sh(1)] available [OF sh(2)] by (simp add: t'_def nt_shape_def)
qed

lemma round_up:
  assumes "0 < k"
  shows "x \<le> (x + (k - 1)) div k * (k :: nat)"
  using div_mult_mod_eq [of "x + (k - 1)" k] mod_less_divisor [OF assms, of "x + (k - 1)"] by linarith

lemma next_size:
  fixes m :: nat
  assumes sh: "nt_shape t"
  defines "n \<equiv> nv_table_get_next_size t m"
  shows "nt_size t \<le> n" "n \<le> NV_TABLE_MAX_BYTES"
    "m \<le> nv_table_get_available t + (n - nt_size t) \<or> n = NV_TABLE_MAX_BYTES"
proof -
  define a where "a = (if m < 256 then 256 else m)"
  define x where "x = nt_size t + (a - nv_table_get_available t)"
  define y where "y = (if x > 8192 then (x + 4095) div 4096 * 4096 else if x > 4096 then (x + 2047) div 2048 * 2048
                       else if x > 1024 then (x + 1023) div 1024 * 1024 else 1024)"
  have y: "x \<le> y" using round_up [of 4096 x] round_up [of 2048 x] round_up [of 1024 x] by (simp add: y_def)
  have max: "nt_size t \<le> NV_TABLE_MAX_BYTES" using sh by (simp add: nt_shape_def)
  have n: "n = (if a \<le> nv_table_get_available t then nt_size t else if y > NV_TABLE_MAX_BYTES then NV_TABLE_MAX_BYTES else y)"
    unfolding n_def nv_table_get_next_size_def Let_def a_def y_def x_def ..
  show "nt_size t \<le> n" "n \<le> NV_TABLE_MAX_BYTES" "m \<le> nv_table_get_available t + (n - nt_size t) \<or> n = NV_TABLE_MAX_BYTES"
    using y max unfolding n x_def by (auto simp: a_def split: if_splits)
qed




section \<open>Limits of the table\<close>

lemma foreach_slots_numeral [simp]:
  "foreach_slots sl table_of func (numeral n) i s =
     (case sl (table_of s) i of
        None \<Rightarrow> Inr (False, s)
      | Some (handle, ofs) \<Rightarrow>
          (case nv_table_get_entry_at_ofs ofs of
             None \<Rightarrow> foreach_slots sl table_of func (pred_numeral n) (Suc i) s
           | Some entry \<Rightarrow>
               bindO (func handle entry s) (\<lambda>(stop, s').
                 if stop then Inr (True, s') else foreach_slots sl table_of func (pred_numeral n) (Suc i) s')))"
  by (simp add: numeral_eq_Suc)

lemma nv_table_get_value_unfold: "nv_table_get_value = get_value_fuel (Suc (Suc 0))"
  by (simp add: nv_table_get_value_def numeral_2_eq_2)

lemma nv_table_add_value_unfold: "nv_table_add_value = add_value_fuel (Suc (Suc 0))"
  by (simp add: nv_table_add_value_def numeral_2_eq_2)

lemmas nv_table_eval =
  nv_table_compact_def nv_table_init_def nv_table_foreach_entry_def static_slot_def index_slot_at_def
  nv_table_get_entry_at_ofs_def compact_foreach_entry_def deref_def nv_table_resolve_direct_def
  nv_table_add_value_indirect_def nv_table_get_entry_def nv_table_get_entry_slow_def find_index_entry_def
  find_index_loop.simps nv_table_is_handle_static_def nv_table_add_value_unfold add_value_body_def
  nv_table_break_references_to_entry_def add_value_store_def add_value_new_entry_def alloc_index_entry_def
  nv_table_alloc_check_def nv_table_get_available_def nv_table_get_ofs_table_top_def nv_table_alloc_value_def
  NV_TABLE_BOUND_def NV_ENTRY_DIRECT_SIZE_def NV_ENTRY_INDIRECT_SIZE_def store_direct_def set_entry_def
  nv_table_set_table_entry_def nv_table_get_value_unfold resolve_slice_def nv_table_unset_value_def
  make_entry_direct_def nv_table_resolve_indirect_def overwrite_with_a_direct_entry_def Let_def

text \<open>Handle 20 is a slice of the value of handle 21.\<close>

definition forward_table :: NVTable where
  "forward_table =
     \<lparr>nt_size = 256, nt_used = 48, nt_static_entries = [],
      nt_index = [\<lparr>ie_handle = 20, ie_ofs = 48\<rparr>, \<lparr>ie_handle = 21, ie_ofs = 20\<rparr>], nt_ref_cnt = 1, nt_borrowed = False,
      nt_mem = [20 \<mapsto> \<lparr>ne_referenced = True, ne_unset = False, ne_type = 0, ne_name = [121], ne_alloc_len = 20,
                      ne_data = VDirect [104, 101, 108, 108, 111]\<rparr>,
                48 \<mapsto> \<lparr>ne_referenced = False, ne_unset = False, ne_type = 0, ne_name = [120], ne_alloc_len = 28,
                      ne_data = VIndirect \<lparr>rs_handle = 21, rs_ofs = 1, rs_len = 3\<rparr>\<rparr>]\<rparr>"



text \<open>C27: Setting a value that is not in the table to a slice of itself dereferences a null pointer.\<close>

theorem nv_table_self_slice_null:
  assumes "nt_wf names t" and "slot t (rs_handle r) = None"
  shows "nv_table_add_value_indirect t (rs_handle r) name r type want mn = Inl NullDereference"
  using get_entry [OF nt_wf_sorted [OF assms(1)], of "rs_handle r"] assms(2)
  by (auto simp: nv_table_add_value_indirect_def nv_table_copy_referenced_value_def)

theorem nv_table_self_slice_null_witness:
  "nv_table_add_value_indirect sample_table 30 [120] \<lparr>rs_handle = 30, rs_ofs = 0, rs_len = 1\<rparr> 0 False 0
     = Inl NullDereference"
  using nv_table_self_slice_null [OF sample_wf, of "\<lparr>rs_handle = 30, rs_ofs = 0, rs_len = 1\<rparr>" "[120]" 0 False 0]
  by (simp add: sample_slot)

end
