(* ===== verification/NV_Registry.thy ===== *)
theory NV_Registry
  imports NV_Table
begin

text \<open>
  The registry of names, \<^verbatim>\<open>lib/logmsg/nvtable.c\<close> and \<^verbatim>\<open>nvhandle-descriptors.c\<close>: it gives every name
  a handle, the position of its descriptor in a growing array, and finds the handle by name in a hash
  table.  Readers index the array without taking the lock, possibly through a pointer to the block it had
  before it was expanded; the old blocks are kept.
\<close>

section \<open>The array of descriptors\<close>

record NVHandleDesc =
  hd_name :: bytes
  hd_flags :: guint16
  hd_name_len :: byte

text \<open>\<open>da_data\<close> is the block of \<^verbatim>\<open>allocated_len\<close> slots; \<open>None\<close> is a slot that was not written yet.\<close>

record NVHandleDescArray =
  da_data :: "NVHandleDesc option list"
  da_len :: nat
  da_old_buffers :: "NVHandleDesc option list list"

definition nvhandle_desc_array_new :: "nat \<Rightarrow> NVHandleDescArray" where
  "nvhandle_desc_array_new reserved_size =
     \<lparr>da_data = replicate reserved_size None, da_len = 0, da_old_buffers = []\<rparr>"

definition nvhandle_desc_array_expand :: "NVHandleDescArray \<Rightarrow> NVHandleDescArray" where
  "nvhandle_desc_array_expand self =
     (let new_alloc = length (da_data self) * 2;
          new_data = take (da_len self) (da_data self) @ replicate (new_alloc - da_len self) None
      in self\<lparr>da_old_buffers := da_old_buffers self @ [da_data self], da_data := new_data\<rparr>)"

definition nvhandle_desc_array_append :: "NVHandleDescArray \<Rightarrow> NVHandleDesc \<Rightarrow> NVHandleDescArray outcome" where
  "nvhandle_desc_array_append self desc =
     (let self = (if da_len self = length (da_data self) then nvhandle_desc_array_expand self else self)
      in if da_len self < length (da_data self)
         then Inr (self\<lparr>da_data := (da_data self)[da_len self := Some desc], da_len := da_len self + 1\<rparr>)
         else Inl InvalidAccess)"

definition nvhandle_desc_array_index :: "NVHandleDesc option list \<Rightarrow> nat \<Rightarrow> NVHandleDesc outcome" where
  "nvhandle_desc_array_index data i =
     (if i < length data then (case data ! i of Some d \<Rightarrow> Inr d | None \<Rightarrow> Inl InvalidAccess)
      else Inl InvalidAccess)"

section \<open>The registry\<close>

record NVRegistry =
  nr_names :: NVHandleDescArray
  nr_name_map :: "bytes \<rightharpoonup> guint32"
  nr_nvhandle_max_value :: guint32

abbreviation (input) NVHANDLE_DESC_ARRAY_INITIAL_SIZE :: nat where
  "NVHANDLE_DESC_ARRAY_INITIAL_SIZE \<equiv> 256"

abbreviation (input) NVHANDLE_MAX_VALUE :: guint32 where
  "NVHANDLE_MAX_VALUE \<equiv> 0xFFFFFFFF"

text \<open>A stored handle of 0 is a \<^verbatim>\<open>NULL\<close> pointer, which a lookup cannot tell from a missing name.\<close>

definition name_map_lookup :: "NVRegistry \<Rightarrow> bytes \<Rightarrow> guint32" where
  "name_map_lookup self name = (case nr_name_map self name of None \<Rightarrow> 0 | Some p \<Rightarrow> p)"

definition nv_registry_get_handle :: "NVRegistry \<Rightarrow> bytes \<Rightarrow> NVHandle" where
  "nv_registry_get_handle self name = name_map_lookup self name"

definition nv_registry_alloc_handle :: "NVRegistry \<Rightarrow> bytes \<Rightarrow> (NVHandle \<times> NVRegistry) outcome" where
  "nv_registry_alloc_handle self name =
     (let p = name_map_lookup self name
      in if p \<noteq> 0 then Inr (p, self)
         else if length name = 0 then Inr (0, self)
         else if length name > 255 then Inr (0, self)
         else if da_len (nr_names self) \<ge> unat (nr_nvhandle_max_value self) then Inr (0, self)
         else let stored = \<lparr>hd_name = name, hd_flags = 0, hd_name_len = of_nat (length name)\<rparr>
              in bindO (nvhandle_desc_array_append (nr_names self) stored) (\<lambda>names.
                   let res = of_nat (da_len names)
                   in Inr (res, self\<lparr>nr_names := names, nr_name_map := (nr_name_map self)(name \<mapsto> res)\<rparr>)))"

definition nv_registry_add_alias :: "NVRegistry \<Rightarrow> NVHandle \<Rightarrow> bytes \<Rightarrow> NVRegistry" where
  "nv_registry_add_alias self handle alias = self\<lparr>nr_name_map := (nr_name_map self)(alias \<mapsto> handle)\<rparr>"

definition nv_registry_add_predefined :: "NVRegistry \<Rightarrow> NVHandle \<Rightarrow> bytes \<Rightarrow> NVRegistry outcome" where
  "nv_registry_add_predefined self handle name =
     bindO (nv_registry_alloc_handle self name) (\<lambda>(allocated_handle, self).
       g_assert (handle = allocated_handle) (Inr self))"

definition nv_registry_assert_next_handle :: "NVRegistry \<Rightarrow> NVHandle \<Rightarrow> NVRegistry outcome" where
  "nv_registry_assert_next_handle self handle =
     g_assert (unat handle = da_len (nr_names self) + 1) (Inr self)"

definition nv_registry_set_handle_flags :: "NVRegistry \<Rightarrow> NVHandle \<Rightarrow> guint16 \<Rightarrow> NVRegistry outcome" where
  "nv_registry_set_handle_flags self handle flags =
     (if handle = 0 then Inr self
      else bindO (nvhandle_desc_array_index (da_data (nr_names self)) (unat (handle - 1))) (\<lambda>stored.
             Inr (self\<lparr>nr_names := (nr_names self)\<lparr>da_data :=
                    (da_data (nr_names self))[unat (handle - 1) := Some (stored\<lparr>hd_flags := flags\<rparr>)]\<rparr>\<rparr>)))"

fun alloc_static_names :: "bytes list \<Rightarrow> NVRegistry \<Rightarrow> NVRegistry outcome" where
  "alloc_static_names [] self = Inr self"
| "alloc_static_names (name # static_names) self =
     bindO (nv_registry_alloc_handle self name) (\<lambda>(_, self). alloc_static_names static_names self)"

definition nv_registry_new :: "bytes list \<Rightarrow> guint32 \<Rightarrow> NVRegistry outcome" where
  "nv_registry_new static_names nvhandle_max_value =
     alloc_static_names static_names
       \<lparr>nr_names = nvhandle_desc_array_new NVHANDLE_DESC_ARRAY_INITIAL_SIZE, nr_name_map = (\<lambda>_. None),
        nr_nvhandle_max_value = nvhandle_max_value\<rparr>"

definition nv_registry_get_handle_flags :: "NVRegistry \<Rightarrow> NVHandle \<Rightarrow> guint16 outcome" where
  "nv_registry_get_handle_flags self handle =
     (if handle = 0 then Inr 0
      else bindO (nvhandle_desc_array_index (da_data (nr_names self)) (unat (handle - 1))) (\<lambda>stored.
             Inr (hd_flags stored)))"

text \<open>The name together with the length the caller gets: \<open>None\<close> is \<^verbatim>\<open>NULL\<close>, with length 0.\<close>

abbreviation (input) str_None :: bytes where
  "str_None \<equiv> [0x4E, 0x6F, 0x6E, 0x65]"

definition nv_registry_get_handle_name :: "NVRegistry \<Rightarrow> NVHandle \<Rightarrow> (bytes option \<times> nat) outcome" where
  "nv_registry_get_handle_name self handle =
     (if handle = 0 then Inr (Some str_None, 4)
      else if unat (handle - 1) \<ge> da_len (nr_names self) then Inr (None, 0)
      else bindO (nvhandle_desc_array_index (da_data (nr_names self)) (unat (handle - 1))) (\<lambda>stored.
             Inr (Some (hd_name stored), unat (hd_name_len stored))))"

section \<open>The invariant\<close>

text \<open>
  The block has room for the length, its slots below the length are written, and every block a reader may
  still hold agrees with it on names, as far as that block is written.
\<close>

definition same_name :: "NVHandleDesc option \<Rightarrow> NVHandleDesc option \<Rightarrow> bool" where
  "same_name d d' =
     (case d of None \<Rightarrow> True
      | Some s \<Rightarrow> (case d' of None \<Rightarrow> False | Some s' \<Rightarrow> hd_name s' = hd_name s \<and> hd_name_len s' = hd_name_len s))"

lemma same_name_refl [simp]: "same_name d d"
  by (simp add: same_name_def split: option.split)

definition desc_array_wf :: "NVHandleDescArray \<Rightarrow> bool" where
  "desc_array_wf a =
     (0 < length (da_data a) \<and> da_len a \<le> length (da_data a) \<and>
      (\<forall>i < da_len a. da_data a ! i \<noteq> None) \<and>
      (\<forall>b \<in> set (da_old_buffers a). length b \<le> da_len a \<and> (\<forall>i < length b. b ! i \<noteq> None \<and> same_name (b ! i) (da_data a ! i))))"

definition handle_desc :: "NVRegistry \<Rightarrow> NVHandle \<Rightarrow> NVHandleDesc option" where
  "handle_desc r h =
     (if h = 0 \<or> da_len (nr_names r) < unat h then None else da_data (nr_names r) ! (unat h - 1))"

definition registry_wf :: "NVRegistry \<Rightarrow> bool" where
  "registry_wf r =
     (desc_array_wf (nr_names r) \<and> da_len (nr_names r) \<le> unat (nr_nvhandle_max_value r) \<and>
      (\<forall>h d. handle_desc r h = Some d \<longrightarrow>
         hd_name d \<noteq> [] \<and> length (hd_name d) \<le> 255 \<and> unat (hd_name_len d) = length (hd_name d) \<and>
         nr_name_map r (hd_name d) = Some h) \<and>
      (\<forall>n h. nr_name_map r n = Some h \<longrightarrow> handle_desc r h \<noteq> None))"

lemma unat_handle_minus: "h \<noteq> 0 \<Longrightarrow> unat (h - 1 :: NVHandle) = unat h - 1"
  by (metis One_nat_def Suc_pred unat_1 unat_gt_0 unat_minus_le Suc_leI)

lemma handle_desc_Some_iff:
  assumes "desc_array_wf (nr_names r)"
  shows "handle_desc r h = None \<longleftrightarrow> h = 0 \<or> da_len (nr_names r) < unat h"
proof (cases "h = 0 \<or> da_len (nr_names r) < unat h")
  case False
  then have "0 < unat h" "unat h - 1 < da_len (nr_names r)" by (auto simp: unat_gt_0) (metis diff_less less_numeral_extra(1) not_less order_le_less_trans unat_gt_0 linorder_neqE_nat Suc_pred' not_less_eq)
  with False assms show ?thesis by (auto simp: handle_desc_def desc_array_wf_def)
qed (simp add: handle_desc_def)

lemma index_handle_desc:
  assumes "desc_array_wf (nr_names r)" "handle_desc r h = Some d"
  shows "nvhandle_desc_array_index (da_data (nr_names r)) (unat (h - 1)) = Inr d"
proof -
  have h: "h \<noteq> 0" "unat h \<le> da_len (nr_names r)" using assms(2) by (auto simp: handle_desc_def split: if_splits)
  then have "unat h - 1 < length (da_data (nr_names r))"
    using assms(1) unat_gt_0 [of h] by (auto simp: desc_array_wf_def simp del: unat_gt_0)
  with h assms(2) show ?thesis by (simp add: nvhandle_desc_array_index_def unat_handle_minus handle_desc_def)
qed

lemma get_handle_name:
  assumes "registry_wf r" "handle_desc r h = Some d"
  shows "nv_registry_get_handle_name r h = Inr (Some (hd_name d), length (hd_name d))"
proof -
  have h: "h \<noteq> 0" "unat h \<le> da_len (nr_names r)" using assms(2) by (auto simp: handle_desc_def split: if_splits)
  then have "unat (h - 1) < da_len (nr_names r)" using unat_gt_0 [of h] by (simp add: unat_handle_minus del: unat_gt_0)
  moreover have "unat (hd_name_len d) = length (hd_name d)" using assms by (simp add: registry_wf_def)
  ultimately show ?thesis
    using h index_handle_desc [of r h d] assms by (simp add: nv_registry_get_handle_name_def registry_wf_def)
qed

lemma get_handle_flags:
  assumes "registry_wf r" "handle_desc r h = Some d"
  shows "nv_registry_get_handle_flags r h = Inr (hd_flags d)"
  using index_handle_desc [of r h d] assms
  by (auto simp: nv_registry_get_handle_flags_def registry_wf_def handle_desc_def)

section \<open>Appending a descriptor\<close>

lemma desc_array_append:
  assumes "desc_array_wf a"
  shows "\<exists>a'. nvhandle_desc_array_append a d = Inr a' \<and> desc_array_wf a' \<and> da_len a' = Suc (da_len a) \<and>
           (\<forall>i < da_len a. da_data a' ! i = da_data a ! i) \<and> da_data a' ! da_len a = Some d"
proof (cases "da_len a = length (da_data a)")
  case False
  let ?a = "a\<lparr>da_data := (da_data a)[da_len a := Some d], da_len := da_len a + 1\<rparr>"
  have l: "da_len a < length (da_data a)" using False assms by (simp add: desc_array_wf_def)
  have "desc_array_wf ?a" using assms l by (auto simp: desc_array_wf_def nth_list_update less_Suc_eq)
  moreover have "nvhandle_desc_array_append a d = Inr ?a" using l by (simp add: nvhandle_desc_array_append_def)
  ultimately show ?thesis using l by simp
next
  case True
  let ?n = "length (da_data a)"
  let ?b = "nvhandle_desc_array_expand a"
  let ?a = "?b\<lparr>da_data := (da_data ?b)[?n := Some d], da_len := Suc ?n\<rparr>"
  have b: "da_data ?b = da_data a @ replicate ?n None" "da_len ?b = ?n" "da_old_buffers ?b = da_old_buffers a @ [da_data a]"
    using True by (simp_all add: nvhandle_desc_array_expand_def Let_def mult_2_right)
  have n: "0 < ?n" using assms by (simp add: desc_array_wf_def)
  have old: "\<forall>b \<in> set (da_old_buffers a). length b \<le> ?n \<and> (\<forall>i < length b. b ! i \<noteq> None \<and> same_name (b ! i) (da_data a ! i))"
    and written: "\<forall>i < ?n. da_data a ! i \<noteq> None" using assms True by (simp_all add: desc_array_wf_def)
  have "desc_array_wf ?a"
    unfolding desc_array_wf_def
  proof (intro conjI ballI allI impI)
    fix buf assume buf: "buf \<in> set (da_old_buffers ?a)"
    show "length buf \<le> da_len ?a" using buf old by (auto simp: b dest: bspec)
    fix i assume i: "i < length buf"
    show "buf ! i \<noteq> None" using buf old written i by (auto simp: b)
    show "same_name (buf ! i) (da_data ?a ! i)" using buf old i by (fastforce simp: b nth_list_update nth_append)
  qed (use n written in \<open>auto simp: b nth_list_update nth_append less_Suc_eq Suc_le_eq\<close>)
  moreover have "nvhandle_desc_array_append a d = Inr ?a"
    using True n by (simp add: nvhandle_desc_array_append_def b)
  ultimately show ?thesis using True n by (intro exI [of _ ?a]) (auto simp: b nth_list_update nth_append)
qed

lemma alloc_handle_known:
  assumes "registry_wf r" "nr_name_map r name = Some h"
  shows "nv_registry_alloc_handle r name = Inr (h, r)"
proof -
  have "handle_desc r h \<noteq> None" using assms unfolding registry_wf_def by blast
  then have "h \<noteq> 0" by (auto simp: handle_desc_def)
  with assms(2) show ?thesis by (simp add: nv_registry_alloc_handle_def name_map_lookup_def)
qed

definition name_accepted :: "NVRegistry \<Rightarrow> bytes \<Rightarrow> bool" where
  "name_accepted r name =
     (name \<noteq> [] \<and> length name \<le> 255 \<and> da_len (nr_names r) < unat (nr_nvhandle_max_value r))"

lemma alloc_handle_new:
  assumes wf: "registry_wf r" and new: "nr_name_map r name = None" and ok: "name_accepted r name"
  shows "\<exists>r'. nv_registry_alloc_handle r name = Inr (of_nat (Suc (da_len (nr_names r))), r') \<and> registry_wf r' \<and>
           nr_name_map r' = (nr_name_map r)(name \<mapsto> of_nat (Suc (da_len (nr_names r)))) \<and>
           handle_desc r' = (handle_desc r)(of_nat (Suc (da_len (nr_names r))) \<mapsto>
             \<lparr>hd_name = name, hd_flags = 0, hd_name_len = of_nat (length name)\<rparr>) \<and>
           da_len (nr_names r') = Suc (da_len (nr_names r)) \<and>
           nr_nvhandle_max_value r' = nr_nvhandle_max_value r"
proof -
  let ?d = "\<lparr>hd_name = name, hd_flags = 0, hd_name_len = of_nat (length name)\<rparr>"
  let ?n = "da_len (nr_names r)"
  let ?h = "of_nat (Suc ?n) :: NVHandle"
  from wf have awf: "desc_array_wf (nr_names r)" by (simp add: registry_wf_def)
  from desc_array_append [OF awf, of ?d] obtain a where
    a: "nvhandle_desc_array_append (nr_names r) ?d = Inr a" "desc_array_wf a" "da_len a = Suc ?n"
    "\<forall>i < ?n. da_data a ! i = da_data (nr_names r) ! i" "da_data a ! ?n = Some ?d" by blast
  let ?r = "r\<lparr>nr_names := a, nr_name_map := (nr_name_map r)(name \<mapsto> ?h)\<rparr>"
  have ev: "nv_registry_alloc_handle r name = Inr (?h, ?r)"
    using new ok a(1,3) by (auto simp: nv_registry_alloc_handle_def name_map_lookup_def name_accepted_def Let_def)
  have "unat (nr_nvhandle_max_value r) < 2 ^ 32" using unsigned_less [of "nr_nvhandle_max_value r"] by simp
  then have uh: "unat ?h = Suc ?n" using ok by (simp add: name_accepted_def unat_of_nat del: of_nat_Suc)
  then have h0: "?h \<noteq> 0" by auto
  have desc: "handle_desc ?r = (handle_desc r)(?h \<mapsto> ?d)"
  proof
    fix x :: NVHandle
    have "unat x = Suc ?n \<longleftrightarrow> x = ?h" using uh by (metis word_unat_eq_iff)
    then show "handle_desc ?r x = ((handle_desc r)(?h \<mapsto> ?d)) x"
      using a(3-5) h0 unat_gt_0 [of x]
      by (cases "unat x < Suc (Suc ?n)")
        (auto simp: handle_desc_def uh less_Suc_eq not_less simp del: of_nat_Suc unat_gt_0)
  qed
  have "length name \<le> 255" "name \<noteq> []" using ok by (auto simp: name_accepted_def)
  moreover from this have "unat (of_nat (length name) :: byte) = length name" by (simp add: unat_of_nat)
  moreover have "handle_desc r ?h = None" by (simp add: handle_desc_def uh del: of_nat_Suc)
  ultimately have "registry_wf ?r"
    using wf new ok a(2,3) unfolding registry_wf_def desc
    by (auto simp: name_accepted_def simp del: of_nat_Suc)
  with ev desc a(3) show ?thesis by simp
qed

lemma alloc_handle_wf:
  assumes "registry_wf r"
  shows "\<exists>h r'. nv_registry_alloc_handle r name = Inr (h, r') \<and> registry_wf r'"
proof (cases "nr_name_map r name")
  case None
  show ?thesis
  proof (cases "name_accepted r name")
    case True
    from alloc_handle_new [OF assms None True] show ?thesis by blast
  next
    case False
    then have "nv_registry_alloc_handle r name = Inr (0, r)"
      using None by (auto simp: nv_registry_alloc_handle_def name_map_lookup_def name_accepted_def Let_def not_less not_le)
    with assms show ?thesis by blast
  qed
qed (use alloc_handle_known [OF assms] assms in blast)

lemma alloc_static_names_wf:
  assumes "registry_wf r"
  shows "\<exists>r'. alloc_static_names names r = Inr r' \<and> registry_wf r'"
  using assms
proof (induction names arbitrary: r)
  case (Cons name names)
  from alloc_handle_wf [OF Cons.prems, of name] Cons.IH show ?case by fastforce
qed simp

section \<open>Flags and aliases\<close>

lemma set_handle_flags:
  assumes wf: "registry_wf r" and d: "handle_desc r h = Some d"
  shows "\<exists>r'. nv_registry_set_handle_flags r h flags = Inr r' \<and> registry_wf r' \<and> nr_name_map r' = nr_name_map r \<and>
           handle_desc r' = (handle_desc r)(h \<mapsto> d\<lparr>hd_flags := flags\<rparr>) \<and>
           da_len (nr_names r') = da_len (nr_names r) \<and> nr_nvhandle_max_value r' = nr_nvhandle_max_value r"
proof -
  let ?i = "unat h - 1"
  let ?d = "d\<lparr>hd_flags := flags\<rparr>"
  let ?r = "r\<lparr>nr_names := (nr_names r)\<lparr>da_data := (da_data (nr_names r))[?i := Some ?d]\<rparr>\<rparr>"
  have awf: "desc_array_wf (nr_names r)" using wf by (simp add: registry_wf_def)
  have h: "h \<noteq> 0" "unat h \<le> da_len (nr_names r)" "da_data (nr_names r) ! ?i = Some d"
    using d by (auto simp: handle_desc_def split: if_splits)
  have u: "0 < unat h" using h(1) by (simp add: unat_gt_0)
  have i: "?i < length (da_data (nr_names r))" using awf h(2) u by (auto simp: desc_array_wf_def)
  have ev: "nv_registry_set_handle_flags r h flags = Inr ?r"
    using index_handle_desc [OF awf d] h(1) by (simp add: nv_registry_set_handle_flags_def unat_handle_minus)
  have desc: "handle_desc ?r = (handle_desc r)(h \<mapsto> ?d)"
  proof
    fix x
    have "unat x - 1 = ?i \<longleftrightarrow> x = h" if "x \<noteq> 0"
      using that u unat_gt_0 [of x] word_unat_eq_iff [of x h] by (auto simp del: unat_gt_0)
    then show "handle_desc ?r x = ((handle_desc r)(h \<mapsto> ?d)) x"
      using h i by (auto simp: handle_desc_def nth_list_update)
  qed
  have "same_name b (Some ?d) = same_name b (Some d)" for b by (simp add: same_name_def split: option.split)
  then have "desc_array_wf (nr_names ?r)"
    using awf h(3) i by (auto simp: desc_array_wf_def nth_list_update) metis
  then have "registry_wf ?r"
    using wf d unfolding registry_wf_def desc by auto
  with ev desc show ?thesis by simp
qed

lemma add_alias:
  assumes "registry_wf r" "handle_desc r h \<noteq> None" "nr_name_map r alias = None"
  shows "registry_wf (nv_registry_add_alias r h alias)"
    "handle_desc (nv_registry_add_alias r h alias) = handle_desc r"
    "nr_name_map (nv_registry_add_alias r h alias) = (nr_name_map r)(alias \<mapsto> h)"
proof -
  show desc: "handle_desc (nv_registry_add_alias r h alias) = handle_desc r"
    by (rule ext) (simp add: nv_registry_add_alias_def handle_desc_def)
  show map: "nr_name_map (nv_registry_add_alias r h alias) = (nr_name_map r)(alias \<mapsto> h)"
    by (simp add: nv_registry_add_alias_def)
  have "hd_name d \<noteq> alias" if "handle_desc r x = Some d" for x d
    using that assms(1,3) unfolding registry_wf_def by (metis option.distinct(1))
  then show "registry_wf (nv_registry_add_alias r h alias)"
    using assms unfolding registry_wf_def desc map by (auto simp: nv_registry_add_alias_def)
qed

section \<open>Correctness\<close>


definition empty_registry :: NVRegistry where
  "empty_registry = \<lparr>nr_names = nvhandle_desc_array_new 1, nr_name_map = (\<lambda>_. None), nr_nvhandle_max_value = 2\<rparr>"

lemma empty_registry_wf: "registry_wf empty_registry"
  by (simp add: empty_registry_def registry_wf_def desc_array_wf_def nvhandle_desc_array_new_def handle_desc_def unat_gt_0
      word_less_nat_alt [symmetric] flip: word_gt_0)



definition two_names :: NVRegistry where
  "two_names = projr (alloc_static_names [[0x48], [0x49]] empty_registry)"


end
