(* ===== verification/Log_Message_Names.thy ===== *)
theory Log_Message_Names
  imports NV_Registry
begin

text \<open>
  The names and types of the values of a log message, \<^verbatim>\<open>lib/logmsg/logmsg.c\<close> and \<^verbatim>\<open>logmsg.h\<close>: the
  built-in handles, the set-up of the registry with the macros and the 256 match variables, the flags of a
  handle, and the textual form of value types.
\<close>

unbundle bit_operations_syntax

section \<open>Strings\<close>

abbreviation cstr :: "string \<Rightarrow> bytes" where
  "cstr s \<equiv> map of_char s"

text \<open>The digits \<^verbatim>\<open>%d\<close> prints for a number that is not negative.\<close>

fun decimal :: "nat \<Rightarrow> bytes" where
  "decimal n = (if n < 10 then [0x30 + of_nat n] else decimal (n div 10) @ [0x30 + of_nat (n mod 10)])"

declare decimal.simps [simp del]

definition decimal_value :: "bytes \<Rightarrow> nat" where
  "decimal_value s = foldl (\<lambda>a c. a * 10 + (unat c - 48)) 0 s"

lemma decimal_value_decimal: "decimal_value (decimal n) = n"
proof (induction n rule: decimal.induct)
  case (1 n)
  have d: "unat (0x30 + of_nat k :: byte) = 48 + k" if "k < 10" for k
    using that by (subst unat_plus_no_wrap) (simp_all add: unat_of_nat)
  show ?case
  proof (cases "n < 10")
    case True
    then show ?thesis using d [of n] by (simp add: decimal.simps [of n] decimal_value_def)
  next
    case False
    then have "decimal n = decimal (n div 10) @ [0x30 + of_nat (n mod 10)]" by (simp add: decimal.simps [of n])
    then show ?thesis using 1 [OF False] d [of "n mod 10"] by (simp add: decimal_value_def)
  qed
qed

lemma decimal_inject [simp]: "decimal m = decimal n \<longleftrightarrow> m = n"
  by (metis decimal_value_decimal)

lemma decimal_not_Nil [simp]: "decimal n \<noteq> []"
  by (subst decimal.simps) simp

lemma length_decimal: "n < 1000 \<Longrightarrow> length (decimal n) \<le> 3"
  by (simp add: decimal.simps [of n] decimal.simps [of "n div 10"] decimal.simps [of "n div 10 div 10"])

section \<open>Built-in handles and flags\<close>

abbreviation (input) LM_V_NONE :: NVHandle where "LM_V_NONE \<equiv> 0"
abbreviation (input) LM_V_HOST :: NVHandle where "LM_V_HOST \<equiv> 1"
abbreviation (input) LM_V_HOST_FROM :: NVHandle where "LM_V_HOST_FROM \<equiv> 2"
abbreviation (input) LM_V_MESSAGE :: NVHandle where "LM_V_MESSAGE \<equiv> 3"
abbreviation (input) LM_V_PROGRAM :: NVHandle where "LM_V_PROGRAM \<equiv> 4"
abbreviation (input) LM_V_PID :: NVHandle where "LM_V_PID \<equiv> 5"
abbreviation (input) LM_V_MSGID :: NVHandle where "LM_V_MSGID \<equiv> 6"
abbreviation (input) LM_V_SOURCE :: NVHandle where "LM_V_SOURCE \<equiv> 7"
abbreviation (input) LM_V_LEGACY_MSGHDR :: NVHandle where "LM_V_LEGACY_MSGHDR \<equiv> 8"
abbreviation (input) LM_V_MAX :: nat where "LM_V_MAX \<equiv> 9"
abbreviation (input) LM_V_PREDEFINED_MAX :: NVHandle where "LM_V_PREDEFINED_MAX \<equiv> 16"

abbreviation (input) LM_VF_SDATA :: guint16 where "LM_VF_SDATA \<equiv> 0x0001"
abbreviation (input) LM_VF_MATCH :: guint16 where "LM_VF_MATCH \<equiv> 0x0002"
abbreviation (input) LM_VF_MACRO :: guint16 where "LM_VF_MACRO \<equiv> 0x0004"

abbreviation (input) LOGMSG_MAX_MATCHES :: nat where "LOGMSG_MAX_MATCHES \<equiv> 256"

definition builtin_value_names :: "bytes list" where
  "builtin_value_names =
     [cstr ''HOST'', cstr ''HOST_FROM'', cstr ''MESSAGE'', cstr ''PROGRAM'', cstr ''PID'', cstr ''MSGID'',
      cstr ''SOURCE'', cstr ''LEGACY_MSGHDR'', cstr ''__RESERVED_LM_V_MAX'']"

definition logmsg_sd_prefix :: bytes where
  "logmsg_sd_prefix = cstr ''.SDATA.''"

definition log_msg_is_handle_macro :: "NVRegistry \<Rightarrow> NVHandle \<Rightarrow> bool outcome" where
  "log_msg_is_handle_macro reg handle =
     bindO (nv_registry_get_handle_flags reg handle) (\<lambda>flags. Inr (flags AND LM_VF_MACRO \<noteq> 0))"

definition log_msg_is_handle_sdata :: "NVRegistry \<Rightarrow> NVHandle \<Rightarrow> bool outcome" where
  "log_msg_is_handle_sdata reg handle =
     bindO (nv_registry_get_handle_flags reg handle) (\<lambda>flags. Inr (flags AND LM_VF_SDATA \<noteq> 0))"

definition log_msg_is_handle_match :: "NVRegistry \<Rightarrow> NVHandle \<Rightarrow> bool outcome" where
  "log_msg_is_handle_match reg handle =
     bindO (nv_registry_get_handle_flags reg handle) (\<lambda>flags. Inr (flags AND LM_VF_MATCH \<noteq> 0))"

definition log_msg_is_handle_referencable_from_an_indirect_value :: "NVRegistry \<Rightarrow> NVHandle \<Rightarrow> bool outcome" where
  "log_msg_is_handle_referencable_from_an_indirect_value reg handle =
     (if handle = LM_V_NONE then Inr False
      else bindO (log_msg_is_handle_macro reg handle) (\<lambda>macro.
             if macro then Inr False
             else bindO (log_msg_is_handle_match reg handle) (\<lambda>match. Inr (\<not> match))))"

definition log_msg_is_handle_settable_with_an_indirect_value :: "NVHandle \<Rightarrow> bool" where
  "log_msg_is_handle_settable_with_an_indirect_value handle = (unat handle \<ge> LM_V_MAX)"

text \<open>\<^verbatim>\<open>strncmp(a, b, n) == 0\<close> on strings without NUL bytes.\<close>

definition strncmp_eq :: "bytes \<Rightarrow> bytes \<Rightarrow> nat \<Rightarrow> bool" where
  "strncmp_eq a b n = (take n a = take n b)"

text \<open>\<open>value_name[6]\<close> is the sixth byte, or the terminating NUL of a shorter string.\<close>

definition log_msg_get_value_handle :: "NVRegistry \<Rightarrow> bytes \<Rightarrow> (NVHandle \<times> NVRegistry) outcome" where
  "log_msg_get_value_handle reg value_name =
     bindO (nv_registry_alloc_handle reg value_name) (\<lambda>(handle, reg).
       if strncmp_eq value_name logmsg_sd_prefix (length logmsg_sd_prefix) \<and> (value_name @ [0]) ! 6 \<noteq> 0
       then bindO (nv_registry_set_handle_flags reg handle LM_VF_SDATA) (\<lambda>reg. Inr (handle, reg))
       else Inr (handle, reg))"

text \<open>\<open>strchr\<close> gives the rest of the string from the first dot; \<^verbatim>\<open>NULL\<close> is the empty list.\<close>

definition strchr_dot :: "bytes \<Rightarrow> bytes" where
  "strchr_dot s = dropWhile (\<lambda>c. c \<noteq> 0x2E) s"

lemma length_strchr_dot: "length (strchr_dot s) \<le> length s"
  by (simp add: strchr_dot_def length_dropWhile_le)

function inner_dots :: "bytes \<Rightarrow> nat" where
  "inner_dots dot = (if length dot > 1 then 1 + inner_dots (strchr_dot (tl dot)) else 0)"
  by auto
termination
proof (relation "measure length")
  fix dot :: bytes assume "length dot > 1"
  then show "(strchr_dot (tl dot), dot) \<in> measure length"
    using length_strchr_dot [of "tl dot"] by simp
qed simp

declare inner_dots.simps [simp del]

definition log_msg_is_value_name_valid :: "bytes \<Rightarrow> bool" where
  "log_msg_is_value_name_valid value =
     (if strncmp_eq value logmsg_sd_prefix (length logmsg_sd_prefix)
      then inner_dots (strchr_dot value) \<ge> 3 else True)"

section \<open>Value types\<close>

abbreviation (input) LM_VT_STRING :: NVType where "LM_VT_STRING \<equiv> 0"
abbreviation (input) LM_VT_NULL :: NVType where "LM_VT_NULL \<equiv> 8"

text \<open>Slots of the array without an initialiser are \<^verbatim>\<open>NULL\<close>.\<close>

definition value_type_names :: "(NVType \<times> bytes) list" where
  "value_type_names =
     [(0, cstr ''string''), (1, cstr ''json''), (2, cstr ''boolean''), (3, cstr ''compat-int32''),
      (4, cstr ''int''), (5, cstr ''double''), (6, cstr ''datetime''), (7, cstr ''list''),
      (8, cstr ''null''), (9, cstr ''bytes''), (10, cstr ''protobuf''), (255, cstr ''none'')]"

definition log_msg_value_type_to_str :: "NVType \<Rightarrow> bytes option" where
  "log_msg_value_type_to_str self = map_of value_type_names self"

definition log_msg_value_type_from_str :: "bytes \<Rightarrow> NVType option" where
  "log_msg_value_type_from_str in_str =
     (if in_str = cstr ''string'' then Some 0
      else if in_str = cstr ''json'' \<or> in_str = cstr ''literal'' then Some 1
      else if in_str = cstr ''boolean'' then Some 2
      else if in_str = cstr ''int32'' \<or> in_str = cstr ''int'' \<or> in_str = cstr ''int64'' \<or> in_str = cstr ''integer''
      then Some 4
      else if in_str = cstr ''double'' \<or> in_str = cstr ''float'' then Some 5
      else if in_str = cstr ''datetime'' then Some 6
      else if in_str = cstr ''list'' then Some 7
      else if in_str = cstr ''null'' then Some 8
      else if in_str = cstr ''bytes'' then Some 9
      else if in_str = cstr ''protobuf'' then Some 10
      else if in_str = cstr ''none'' then Some 255
      else None)"

section \<open>Setting up the registry\<close>

text \<open>
  The table of macros is the argument \<open>macros\<close>, a list of names and ids.  The handles of the match variables,
  \<^verbatim>\<open>match_handles\<close>, are part of the result.
\<close>

fun add_aliases :: "(NVHandle \<times> bytes) list \<Rightarrow> NVRegistry \<Rightarrow> NVRegistry" where
  "add_aliases [] reg = reg"
| "add_aliases ((handle, alias) # rest) reg = add_aliases rest (nv_registry_add_alias reg handle alias)"

fun add_predefined_names :: "(NVHandle \<times> bytes) list \<Rightarrow> NVRegistry \<Rightarrow> NVRegistry outcome" where
  "add_predefined_names [] reg = Inr reg"
| "add_predefined_names ((handle, name) # rest) reg =
     bindO (nv_registry_add_predefined reg handle name) (\<lambda>reg. add_predefined_names rest reg)"

fun register_macros :: "(bytes \<times> nat) list \<Rightarrow> NVRegistry \<Rightarrow> (NVHandle list \<times> NVRegistry) outcome" where
  "register_macros [] reg = Inr ([], reg)"
| "register_macros ((name, mid) # rest) reg =
     (let handle = nv_registry_get_handle reg name
      in bindO (if handle = 0
                then bindO (nv_registry_alloc_handle reg name) (\<lambda>(handle, reg).
                     bindO (nv_registry_set_handle_flags reg handle (of_nat (mid * 256) + LM_VF_MACRO)) (\<lambda>reg.
                       Inr (handle, reg)))
                else Inr (handle, reg)) (\<lambda>(handle, reg).
         bindO (register_macros rest reg) (\<lambda>(handles, reg). Inr (handle # handles, reg))))"

fun register_matches :: "nat list \<Rightarrow> NVRegistry \<Rightarrow> (NVHandle list \<times> NVRegistry) outcome" where
  "register_matches [] reg = Inr ([], reg)"
| "register_matches (i # rest) reg =
     bindO (nv_registry_alloc_handle reg (decimal i)) (\<lambda>(handle, reg).
     bindO (nv_registry_set_handle_flags reg handle (of_nat (i * 256) + LM_VF_MATCH)) (\<lambda>reg.
     bindO (register_matches rest reg) (\<lambda>(handles, reg). Inr (handle # handles, reg))))"

definition log_msg_registry_init ::
  "(bytes \<times> nat) list \<Rightarrow> (NVHandle list \<times> NVHandle list \<times> NVRegistry) outcome" where
  "log_msg_registry_init macros =
     bindO (nv_registry_new builtin_value_names NVHANDLE_MAX_VALUE) (\<lambda>reg.
     let reg = add_aliases [(LM_V_MESSAGE, cstr ''MSG''), (LM_V_MESSAGE, cstr ''MSGONLY''),
                            (LM_V_HOST, cstr ''FULLHOST''), (LM_V_HOST_FROM, cstr ''FULLHOST_FROM'')] reg
     in bindO (add_predefined_names [(10, cstr ''RAWMSG''), (11, cstr ''TRANSPORT''), (12, cstr ''MSGFORMAT''),
                                     (13, cstr ''FILE_NAME''), (14, cstr ''PEERIP''), (15, cstr ''PEERPORT'')] reg) (\<lambda>reg.
        bindO (nv_registry_assert_next_handle reg LM_V_PREDEFINED_MAX) (\<lambda>reg.
        bindO (register_macros macros reg) (\<lambda>(macro_handles, reg).
        bindO (register_matches [0..<LOGMSG_MAX_MATCHES] reg) (\<lambda>(match_handles, reg).
          Inr (macro_handles, match_handles, reg))))))"

definition log_msg_get_match_handle :: "NVHandle list \<Rightarrow> int \<Rightarrow> NVHandle" where
  "log_msg_get_match_handle match_handles idx =
     (if 0 \<le> idx \<and> idx < int LOGMSG_MAX_MATCHES then match_handles ! nat idx else LM_V_NONE)"

text \<open>The difference of the two handles is taken in 32 bits and read as a signed integer.\<close>

definition log_msg_get_match_index :: "NVHandle list \<Rightarrow> NVHandle \<Rightarrow> nat outcome" where
  "log_msg_get_match_index match_handles handle =
     (let idx = sint (handle - match_handles ! 0)
      in g_assert (0 \<le> idx \<and> idx < int LOGMSG_MAX_MATCHES) (Inr (nat idx)))"

section \<open>The registry after the set-up\<close>

text \<open>\<open>n\<close> handles are allocated, under the names of \<open>N\<close>, and there is room for \<open>k\<close> more.\<close>

definition reg_state :: "nat \<Rightarrow> bytes set \<Rightarrow> nat \<Rightarrow> NVRegistry \<Rightarrow> bool" where
  "reg_state n N k r =
     (registry_wf r \<and> da_len (nr_names r) = n \<and> dom (nr_name_map r) = N \<and>
      n + k \<le> unat (nr_nvhandle_max_value r))"

definition usable_name :: "bytes \<Rightarrow> bool" where
  "usable_name s = (s \<noteq> [] \<and> length s \<le> 255)"

lemma reg_state_alloc:
  assumes "reg_state n N (Suc k) r" "name \<notin> N" "usable_name name"
  shows "\<exists>r' d. nv_registry_alloc_handle r name = Inr (of_nat (Suc n), r') \<and> reg_state (Suc n) (insert name N) k r' \<and>
           handle_desc r' = (handle_desc r)(of_nat (Suc n) \<mapsto> d) \<and> hd_name d = name"
proof -
  have "nr_name_map r name = None" "name_accepted r name"
    using assms by (auto simp: reg_state_def name_accepted_def usable_name_def)
  from alloc_handle_new [OF _ this] assms(1) obtain r' where
    "nv_registry_alloc_handle r name = Inr (of_nat (Suc n), r')" "reg_state (Suc n) (insert name N) k r'"
    "handle_desc r' = (handle_desc r)(of_nat (Suc n) \<mapsto>
       \<lparr>hd_name = name, hd_flags = 0, hd_name_len = of_nat (length name)\<rparr>)"
    by (auto simp: reg_state_def simp del: of_nat_Suc)
  then show ?thesis by (intro exI conjI) (assumption+, simp)
qed

lemma reg_state_flags:
  assumes "reg_state n N k r" "handle_desc r h = Some d"
  shows "\<exists>r'. nv_registry_set_handle_flags r h flags = Inr r' \<and> reg_state n N k r' \<and>
           handle_desc r' = (handle_desc r)(h \<mapsto> d\<lparr>hd_flags := flags\<rparr>)"
  using set_handle_flags [of r h d flags] assms by (auto simp: reg_state_def)

lemma alloc_static_names:
  assumes "reg_state n N (length names + k) r" "distinct names" "set names \<inter> N = {}" "\<forall>s \<in> set names. usable_name s"
  shows "\<exists>r'. alloc_static_names names r = Inr r' \<and> reg_state (n + length names) (N \<union> set names) k r'"
  using assms
proof (induction names arbitrary: n N r)
  case (Cons name names)
  then obtain r1 where r1: "nv_registry_alloc_handle r name = Inr (of_nat (Suc n), r1)"
    "reg_state (Suc n) (insert name N) (length names + k) r1"
    using reg_state_alloc [of n N "length names + k" r name] by auto
  from Cons.IH [OF r1(2)] Cons.prems r1(1) show ?case by auto
qed simp

lemma add_aliases:
  assumes "reg_state n N k r" "distinct (map snd as)" "set (map snd as) \<inter> N = {}"
    and "\<forall>(h, _) \<in> set as. 0 < unat h \<and> unat h \<le> n"
  shows "reg_state n (N \<union> set (map snd as)) k (add_aliases as r)"
  using assms
proof (induction as arbitrary: N r)
  case (Cons a as)
  obtain h al where a: "a = (h, al)" by (cases a)
  have "handle_desc r h \<noteq> None" "nr_name_map r al = None" "registry_wf r"
    using Cons.prems handle_desc_Some_iff [of r h] by (auto simp: a reg_state_def registry_wf_def)
  from add_alias [OF this(3,1,2)] Cons.prems(1)
  have "reg_state n (insert al N) k (nv_registry_add_alias r h al)"
    by (simp add: reg_state_def) (simp add: nv_registry_add_alias_def)
  from Cons.IH [OF this] Cons.prems show ?case by (auto simp: a)
qed simp

lemma add_predefined_names:
  assumes "reg_state n N (length ps + k) r" "distinct (map snd ps)" "set (map snd ps) \<inter> N = {}"
    and "\<forall>s \<in> set (map snd ps). usable_name s" "map fst ps = map (\<lambda>i. of_nat (Suc i)) [n..<n + length ps]"
  shows "\<exists>r'. add_predefined_names ps r = Inr r' \<and> reg_state (n + length ps) (N \<union> set (map snd ps)) k r'"
  using assms
proof (induction ps arbitrary: n N r)
  case (Cons p ps)
  obtain h name where p: "p = (h, name)" by (cases p)
  have h: "h = of_nat (Suc n)" and rest: "map fst ps = map (\<lambda>i. of_nat (Suc i)) [Suc n..<Suc n + length ps]"
    using Cons.prems(5) upt_conv_Cons [of n "n + length (p # ps)"] by (simp_all add: p del: of_nat_Suc upt_Suc)
  from Cons.prems obtain r1 where r1: "nv_registry_alloc_handle r name = Inr (of_nat (Suc n), r1)"
    "reg_state (Suc n) (insert name N) (length ps + k) r1"
    using reg_state_alloc [of n N "length ps + k" r name] by (auto simp: p)
  from Cons.IH [OF r1(2) _ _ _ rest] Cons.prems r1(1) h
  show ?case by (auto simp: p nv_registry_add_predefined_def simp del: of_nat_Suc)
qed simp

lemma register_macros:
  assumes "reg_state n N (length ms + k) r" "\<forall>(s, _) \<in> set ms. usable_name s"
  shows "\<exists>hs r' n' N'. register_macros ms r = Inr (hs, r') \<and> reg_state n' N' k r' \<and> n \<le> n' \<and>
           N' \<subseteq> N \<union> set (map fst ms)"
  using assms
proof (induction ms arbitrary: n N r)
  case (Cons m ms)
  obtain name mid where m: "m = (name, mid)" by (cases m)
  show ?case
  proof (cases "name \<in> N")
    case True
    then obtain h where h: "nr_name_map r name = Some h" using Cons.prems(1) by (auto simp: reg_state_def)
    then have "h \<noteq> 0" using Cons.prems(1) unfolding reg_state_def registry_wf_def by (metis handle_desc_def)
    moreover have "reg_state n N (length ms + k) r" using Cons.prems(1) by (simp add: reg_state_def)
    from Cons.IH [OF this] Cons.prems(2) obtain hs r' n' N' where "register_macros ms r = Inr (hs, r')"
      "reg_state n' N' k r'" "n \<le> n'" "N' \<subseteq> N \<union> set (map fst ms)" by auto
    ultimately show ?thesis
      using h by (auto simp: m nv_registry_get_handle_def name_map_lookup_def)
  next
    case False
    then have z: "nv_registry_get_handle r name = 0"
      using Cons.prems(1) by (auto simp: reg_state_def nv_registry_get_handle_def name_map_lookup_def split: option.split)
    from reg_state_alloc [of n N "length ms + k" r name] Cons.prems False obtain r1 d where
      r1: "nv_registry_alloc_handle r name = Inr (of_nat (Suc n), r1)"
      "reg_state (Suc n) (insert name N) (length ms + k) r1" "handle_desc r1 (of_nat (Suc n)) = Some d"
      by (auto simp: m simp del: of_nat_Suc)
    from reg_state_flags [OF r1(2,3), of "of_nat (mid * 256) + LM_VF_MACRO"] obtain r2 where
      r2: "nv_registry_set_handle_flags r1 (of_nat (Suc n)) (of_nat (mid * 256) + LM_VF_MACRO) = Inr r2"
      "reg_state (Suc n) (insert name N) (length ms + k) r2" by blast
    from Cons.IH [OF r2(2)] Cons.prems(2) obtain hs r' n' N' where "register_macros ms r2 = Inr (hs, r')"
      "reg_state n' N' k r'" "Suc n \<le> n'" "N' \<subseteq> insert name N \<union> set (map fst ms)" by auto
    with z r1(1) r2(1) show ?thesis
      by (intro exI [of _ "of_nat (Suc n) # hs"] exI [of _ r'] exI [of _ n'] exI [of _ N'])
        (simp add: m del: of_nat_Suc of_nat_mult)
  qed
qed auto

definition match_desc :: "NVRegistry \<Rightarrow> NVHandle \<Rightarrow> nat \<Rightarrow> bool" where
  "match_desc r h i =
     (\<exists>d. handle_desc r h = Some d \<and> hd_name d = decimal i \<and> hd_flags d = of_nat (i * 256) + LM_VF_MATCH)"

lemma register_matches:
  assumes "reg_state n N (length is) r" "distinct is" "\<forall>i \<in> set is. i < 256 \<and> decimal i \<notin> N"
  shows "\<exists>r'. register_matches is r = Inr (map (\<lambda>j. of_nat (Suc (n + j))) [0..<length is], r') \<and> registry_wf r' \<and>
           (\<forall>j < length is. match_desc r' (of_nat (Suc (n + j))) (is ! j)) \<and>
           (\<forall>h. unat h \<le> n \<longrightarrow> handle_desc r' h = handle_desc r h)"
  using assms
proof (induction "is" arbitrary: n N r)
  case (Cons i js)
  have use: "usable_name (decimal i)" using Cons.prems(3) length_decimal [of i] by (simp add: usable_name_def)
  from reg_state_alloc [of n N "length js" r "decimal i"] Cons.prems use obtain r1 d where
    r1: "nv_registry_alloc_handle r (decimal i) = Inr (of_nat (Suc n), r1)"
    "reg_state (Suc n) (insert (decimal i) N) (length js) r1"
    "handle_desc r1 = (handle_desc r)(of_nat (Suc n) \<mapsto> d)" "hd_name d = decimal i" by (auto simp del: of_nat_Suc)
  then have d1: "handle_desc r1 (of_nat (Suc n)) = Some d" by simp
  from reg_state_flags [OF r1(2) d1, of "of_nat (i * 256) + LM_VF_MATCH"] obtain r2 where
    r2: "nv_registry_set_handle_flags r1 (of_nat (Suc n)) (of_nat (i * 256) + LM_VF_MATCH) = Inr r2"
    "reg_state (Suc n) (insert (decimal i) N) (length js) r2"
    "handle_desc r2 = (handle_desc r1)(of_nat (Suc n) \<mapsto> d\<lparr>hd_flags := of_nat (i * 256) + LM_VF_MATCH\<rparr>)" by blast
  have "\<forall>j \<in> set js. j < 256 \<and> decimal j \<notin> insert (decimal i) N" using Cons.prems(2,3) by auto
  from Cons.IH [OF r2(2) _ this] Cons.prems(2) obtain r' where
    r': "register_matches js r2 = Inr (map (\<lambda>j. of_nat (Suc (Suc n + j))) [0..<length js], r')" "registry_wf r'"
    "\<forall>j < length js. match_desc r' (of_nat (Suc (Suc n + j))) (js ! j)"
    "\<forall>h. unat h \<le> Suc n \<longrightarrow> handle_desc r' h = handle_desc r2 h" by (auto simp del: of_nat_Suc of_nat_add)
  have "Suc n < 2 ^ 32"
    using r2(2) unsigned_less [of "nr_nvhandle_max_value r2", where 'a = nat] by (auto simp: reg_state_def)
  then have u: "unat (of_nat (Suc n) :: NVHandle) = Suc n" by (simp add: unat_of_nat del: of_nat_Suc)
  then have "match_desc r' (of_nat (Suc n)) i" using r'(4) r1(4) by (simp add: match_desc_def r2(3) del: of_nat_Suc of_nat_mult)
  then have "\<forall>j < length (i # js). match_desc r' (of_nat (Suc (n + j))) ((i # js) ! j)"
    using r'(3) by (auto simp: less_Suc_eq_0_disj simp del: of_nat_Suc of_nat_add)
  moreover have "handle_desc r' h = handle_desc r h" if "unat h \<le> n" for h
    using that r'(4) u by (auto simp: r2(3) r1(3) simp del: of_nat_Suc)
  moreover have "map (\<lambda>j. of_nat (Suc (n + j)) :: NVHandle) [0..<length (i # js)]
      = of_nat (Suc n) # map (\<lambda>j. of_nat (Suc (Suc n + j))) [0..<length js]"
    by (simp add: map_upt_Suc del: upt_Suc of_nat_Suc of_nat_add)
  ultimately show ?case
    using r1(1) r2(1) r'(1,2) by (simp del: of_nat_Suc of_nat_add of_nat_mult upt_Suc)
qed (auto simp: reg_state_def)

section \<open>Correctness\<close>

lemma hd_decimal: "hd (decimal n) \<le> 0x39"
proof (induction n rule: decimal.induct)
  case (1 n)
  show ?case
  proof (cases "n < 10")
    case True
    have "unat (0x30 + of_nat n :: byte) = 48 + n"
      using True by (subst unat_plus_no_wrap) (simp_all add: unat_of_nat)
    with True show ?thesis by (simp add: decimal.simps [of n] word_le_nat_alt)
  next
    case False
    then show ?thesis using 1 [OF False] by (subst decimal.simps) (simp add: hd_append)
  qed
qed

definition initial_names :: "bytes set" where
  "initial_names = set builtin_value_names \<union>
     {cstr ''MSG'', cstr ''MSGONLY'', cstr ''FULLHOST'', cstr ''FULLHOST_FROM'', cstr ''RAWMSG'', cstr ''TRANSPORT'',
      cstr ''MSGFORMAT'', cstr ''FILE_NAME'', cstr ''PEERIP'', cstr ''PEERPORT''}"

lemma decimal_not_initial: "decimal i \<notin> initial_names"
proof
  assume "decimal i \<in> initial_names"
  moreover have "\<forall>s \<in> initial_names. \<not> hd s \<le> 0x39" by (simp add: initial_names_def builtin_value_names_def)
  ultimately show False using hd_decimal [of i] by blast
qed

lemma registry_new:
  "\<exists>r. nv_registry_new builtin_value_names NVHANDLE_MAX_VALUE = Inr r \<and>
     reg_state 9 (set builtin_value_names) (2 ^ 32 - 1 - 9) r"
proof -
  let ?r = "\<lparr>nr_names = nvhandle_desc_array_new NVHANDLE_DESC_ARRAY_INITIAL_SIZE, nr_name_map = (\<lambda>_. None),
        nr_nvhandle_max_value = NVHANDLE_MAX_VALUE\<rparr>"
  have "registry_wf ?r"
    by (simp add: registry_wf_def desc_array_wf_def nvhandle_desc_array_new_def handle_desc_def unat_gt_0
        flip: word_gt_0)
  then have "reg_state 0 {} (length builtin_value_names + (2 ^ 32 - 1 - 9)) ?r"
    by (simp add: reg_state_def nvhandle_desc_array_new_def builtin_value_names_def)
  moreover have "distinct builtin_value_names" "\<forall>s \<in> set builtin_value_names. usable_name s"
    by (simp_all add: builtin_value_names_def usable_name_def)
  moreover have "length builtin_value_names = 9" by (simp add: builtin_value_names_def)
  ultimately show ?thesis
    using alloc_static_names [of 0 "{}" builtin_value_names "2 ^ 32 - 1 - 9" ?r] by (simp add: nv_registry_new_def)
qed

lemma registry_predefined:
  assumes "reg_state 9 (set builtin_value_names) (2 ^ 32 - 1 - 9) r"
  shows "\<exists>r'. add_predefined_names [(10, cstr ''RAWMSG''), (11, cstr ''TRANSPORT''), (12, cstr ''MSGFORMAT''),
                (13, cstr ''FILE_NAME''), (14, cstr ''PEERIP''), (15, cstr ''PEERPORT'')]
              (add_aliases [(LM_V_MESSAGE, cstr ''MSG''), (LM_V_MESSAGE, cstr ''MSGONLY''),
                (LM_V_HOST, cstr ''FULLHOST''), (LM_V_HOST_FROM, cstr ''FULLHOST_FROM'')] r) = Inr r' \<and>
           reg_state 15 initial_names (2 ^ 32 - 1 - 15) r'"
proof -
  let ?as = "[(LM_V_MESSAGE, cstr ''MSG''), (LM_V_MESSAGE, cstr ''MSGONLY''), (LM_V_HOST, cstr ''FULLHOST''),
    (LM_V_HOST_FROM, cstr ''FULLHOST_FROM'')]"
  let ?ps = "[(10, cstr ''RAWMSG''), (11, cstr ''TRANSPORT''), (12, cstr ''MSGFORMAT''),
                (13, cstr ''FILE_NAME''), (14, cstr ''PEERIP''), (15, cstr ''PEERPORT'')] :: (NVHandle \<times> bytes) list"
  let ?N = "set builtin_value_names \<union> set (map snd ?as)"
  have N: "?N \<union> set (map snd ?ps) = initial_names" by (auto simp: initial_names_def)
  have "reg_state 9 ?N (2 ^ 32 - 1 - 9) (add_aliases ?as r)"
    by (rule add_aliases [OF assms]) (simp_all add: builtin_value_names_def)
  then have "reg_state 9 ?N (length ?ps + (2 ^ 32 - 1 - 15)) (add_aliases ?as r)" by simp
  from add_predefined_names [OF this]
  have "\<exists>r'. add_predefined_names ?ps (add_aliases ?as r) = Inr r' \<and>
      reg_state (9 + length ?ps) (?N \<union> set (map snd ?ps)) (2 ^ 32 - 1 - 15) r'"
    by (simp add: builtin_value_names_def usable_name_def upt_rec [of "n" for n :: nat] del: add_aliases.simps add_predefined_names.simps)
  then show ?thesis unfolding N by simp
qed


definition sample_macros :: "(bytes \<times> nat) list" where
  "sample_macros = [(cstr ''DATE'', 11), (cstr ''HOST'', 60)]"


lemma value_types_read_back:
  "list_all (\<lambda>(t, s). log_msg_value_type_from_str s = (if t = 3 then None else Some t)) value_type_names"
  by (simp add: value_type_names_def log_msg_value_type_from_str_def)

text \<open>C23: Every value type that has a textual form is read back from it, except for the 32-bit integer that only
  old serialized messages hold: its name is not accepted.\<close>

theorem value_type_roundtrip:
  "log_msg_value_type_to_str t = Some s \<Longrightarrow>
   log_msg_value_type_from_str s = (if t = 3 then None else Some t)"
  using value_types_read_back by (fastforce simp: log_msg_value_type_to_str_def list_all_iff dest: map_of_SomeD)

theorem value_type_roundtrip_witness:
  "log_msg_value_type_to_str 10 = Some (cstr ''protobuf'') \<and>
   log_msg_value_type_from_str (cstr ''protobuf'') = Some 10"
  using value_type_roundtrip [of 10 "cstr ''protobuf''"]
  by (simp add: log_msg_value_type_to_str_def value_type_names_def)

text \<open>C28: A name that is just the prefix \<open>.SDATA.\<close>, with no further character, is flagged as structured data:
  the test for an additional character looks at the last byte of the prefix.\<close>

theorem bare_sdata_prefix_flagged:
  assumes "registry_wf r" "nr_name_map r logmsg_sd_prefix = None" "name_accepted r logmsg_sd_prefix"
  shows "\<exists>h r'. log_msg_get_value_handle r logmsg_sd_prefix = Inr (h, r') \<and> log_msg_is_handle_sdata r' h = Inr True"
proof -
  from alloc_handle_new [OF assms] obtain h r1 d where
    r1: "nv_registry_alloc_handle r logmsg_sd_prefix = Inr (h, r1)" "registry_wf r1" "handle_desc r1 h = Some d"
    by (auto simp del: of_nat_Suc)
  from set_handle_flags [OF r1(2,3), of LM_VF_SDATA] obtain r2 where
    r2: "nv_registry_set_handle_flags r1 h LM_VF_SDATA = Inr r2" "registry_wf r2"
    "handle_desc r2 h = Some (d\<lparr>hd_flags := LM_VF_SDATA\<rparr>)" by auto
  have "(logmsg_sd_prefix @ [0]) ! 6 \<noteq> 0" by (simp add: logmsg_sd_prefix_def)
  with r1(1) r2(1) get_handle_flags [OF r2(2,3)] show ?thesis
    by (simp add: log_msg_get_value_handle_def strncmp_eq_def log_msg_is_handle_sdata_def)
qed

theorem bare_sdata_prefix_flagged_witness:
  "\<exists>h r'. log_msg_get_value_handle empty_registry logmsg_sd_prefix = Inr (h, r') \<and>
     log_msg_is_handle_sdata r' h = Inr True"
  by (rule bare_sdata_prefix_flagged [OF empty_registry_wf])
    (simp_all add: empty_registry_def name_accepted_def logmsg_sd_prefix_def nvhandle_desc_array_new_def)

lemma inner_dots_strchr:
  "inner_dots (strchr_dot s) = length (filter (\<lambda>c. c = 0x2E) (butlast s))"
proof (induction "length s" arbitrary: s rule: less_induct)
  case less
  show ?case
  proof (cases s)
    case (Cons c cs)
    show ?thesis
    proof (cases "c = 0x2E")
      case False
      then have "strchr_dot s = strchr_dot cs" by (simp add: Cons strchr_dot_def)
      then show ?thesis using less [of cs] False by (simp add: Cons strchr_dot_def inner_dots.simps [of "[]"])
    next
      case True
      then have "strchr_dot s = s" by (simp add: Cons strchr_dot_def)
      then show ?thesis using less [of cs] True by (simp add: Cons inner_dots.simps [of "0x2E # cs"])
    qed
  qed (simp add: strchr_dot_def inner_dots.simps)
qed

text \<open>A name is valid unless it starts with \<open>.SDATA.\<close> and has fewer than three dots that are followed by
  another character.\<close>

lemma value_name_valid_iff:
  "log_msg_is_value_name_valid s \<longleftrightarrow>
     \<not> (\<exists>rest. s = logmsg_sd_prefix @ rest) \<or> 3 \<le> length (filter (\<lambda>c. c = 0x2E) (butlast s))"
proof -
  have "strncmp_eq s logmsg_sd_prefix (length logmsg_sd_prefix) \<longleftrightarrow> (\<exists>rest. s = logmsg_sd_prefix @ rest)"
    by (auto simp: strncmp_eq_def) (metis append_take_drop_id)
  then show ?thesis by (auto simp: log_msg_is_value_name_valid_def inner_dots_strchr)
qed

end
