(* ===== verification/Log_Message_Ack.thy ===== *)
theory Log_Message_Ack
  imports Ack_Types
begin

unbundle bit_operations_syntax

text \<open>
  Reference and acknowledgement counting of a log message, \<^verbatim>\<open>lib/logmsg/logmsg.h\<close> and \<^verbatim>\<open>logmsg.c\<close>.  One
  32-bit integer holds four fields: 15 bits of references, 15 bits of expected acknowledgements, the abort
  flag and the suspend flag.  It is only changed by a compare-and-exchange loop, so every update is one
  atomic step from the value it read to the value it wrote.
\<close>

section \<open>The fields\<close>

definition LOGMSG_REFCACHE_REF_TO_VALUE :: "guint32 \<Rightarrow> guint32" where
  "LOGMSG_REFCACHE_REF_TO_VALUE x = push_bit 0 x AND 0x00007FFF"

definition LOGMSG_REFCACHE_ACK_TO_VALUE :: "guint32 \<Rightarrow> guint32" where
  "LOGMSG_REFCACHE_ACK_TO_VALUE x = push_bit 15 x AND 0x3FFF8000"

definition LOGMSG_REFCACHE_ABORT_TO_VALUE :: "guint32 \<Rightarrow> guint32" where
  "LOGMSG_REFCACHE_ABORT_TO_VALUE x = push_bit 30 x AND 0x40000000"

definition LOGMSG_REFCACHE_SUSPEND_TO_VALUE :: "guint32 \<Rightarrow> guint32" where
  "LOGMSG_REFCACHE_SUSPEND_TO_VALUE x = push_bit 31 x AND 0x80000000"

definition LOGMSG_REFCACHE_VALUE_TO_REF :: "guint32 \<Rightarrow> guint32" where
  "LOGMSG_REFCACHE_VALUE_TO_REF x = drop_bit 0 (x AND 0x00007FFF)"

definition LOGMSG_REFCACHE_VALUE_TO_ACK :: "guint32 \<Rightarrow> guint32" where
  "LOGMSG_REFCACHE_VALUE_TO_ACK x = drop_bit 15 (x AND 0x3FFF8000)"

definition LOGMSG_REFCACHE_VALUE_TO_ABORT :: "guint32 \<Rightarrow> guint32" where
  "LOGMSG_REFCACHE_VALUE_TO_ABORT x = drop_bit 30 (x AND 0x40000000)"

definition LOGMSG_REFCACHE_VALUE_TO_SUSPEND :: "guint32 \<Rightarrow> guint32" where
  "LOGMSG_REFCACHE_VALUE_TO_SUSPEND x = drop_bit 31 (x AND 0x80000000)"

section \<open>Operations\<close>

text \<open>The old value, which the caller gets, and the new one.\<close>

definition log_msg_update_ack_and_ref_and_abort_and_suspended ::
  "guint32 \<Rightarrow> guint32 \<Rightarrow> guint32 \<Rightarrow> guint32 \<Rightarrow> guint32 \<Rightarrow> guint32 \<times> guint32" where
  "log_msg_update_ack_and_ref_and_abort_and_suspended self add_ref add_ack add_abort add_suspend =
     (let old_value = self;
          new_value = old_value;
          new_value = (new_value AND NOT 0x00007FFF)
            + LOGMSG_REFCACHE_REF_TO_VALUE (LOGMSG_REFCACHE_VALUE_TO_REF old_value + add_ref);
          new_value = (new_value AND NOT 0x3FFF8000)
            + LOGMSG_REFCACHE_ACK_TO_VALUE (LOGMSG_REFCACHE_VALUE_TO_ACK old_value + add_ack);
          new_value = (new_value AND NOT 0x40000000)
            + LOGMSG_REFCACHE_ABORT_TO_VALUE (LOGMSG_REFCACHE_VALUE_TO_ABORT old_value OR add_abort);
          new_value = (new_value AND NOT 0x80000000)
            + LOGMSG_REFCACHE_SUSPEND_TO_VALUE (LOGMSG_REFCACHE_VALUE_TO_SUSPEND old_value OR add_suspend)
      in (old_value, new_value))"

definition log_msg_update_ack_and_ref :: "guint32 \<Rightarrow> guint32 \<Rightarrow> guint32 \<Rightarrow> guint32 \<times> guint32" where
  "log_msg_update_ack_and_ref self add_ref add_ack =
     log_msg_update_ack_and_ref_and_abort_and_suspended self add_ref add_ack 0 0"

definition log_msg_ref :: "guint32 \<Rightarrow> guint32 outcome" where
  "log_msg_ref self =
     (let (old_value, self) = log_msg_update_ack_and_ref self 1 0
      in g_assert (LOGMSG_REFCACHE_VALUE_TO_REF old_value \<ge> 1) (Inr self))"

text \<open>\<open>True\<close> when the last reference is gone and the message is freed.\<close>

definition log_msg_unref :: "guint32 \<Rightarrow> (bool \<times> guint32) outcome" where
  "log_msg_unref self =
     (let (old_value, self) = log_msg_update_ack_and_ref self (- 1) 0
      in g_assert (LOGMSG_REFCACHE_VALUE_TO_REF old_value \<ge> 1)
           (Inr (LOGMSG_REFCACHE_VALUE_TO_REF old_value = 1, self)))"

definition log_msg_add_ack :: "guint32 \<Rightarrow> bool \<Rightarrow> guint32" where
  "log_msg_add_ack self ack_needed =
     (if ack_needed then snd (log_msg_update_ack_and_ref self 0 1) else self)"

definition IS_ACK_ABORTED :: "AckType \<Rightarrow> guint32" where
  "IS_ACK_ABORTED x = (if x = AT_ABORTED then 1 else 0)"

definition IS_ACK_SUSPENDED :: "AckType \<Rightarrow> guint32" where
  "IS_ACK_SUSPENDED x = (if x = AT_SUSPENDED then 1 else 0)"

definition ack_and_ref_and_abort_and_suspend_to_acktype :: "guint32 \<Rightarrow> AckType" where
  "ack_and_ref_and_abort_and_suspend_to_acktype value =
     (if LOGMSG_REFCACHE_VALUE_TO_SUSPEND value = 1 then AT_SUSPENDED
      else if LOGMSG_REFCACHE_VALUE_TO_ABORT value = 1 then AT_ABORTED
      else AT_PROCESSED)"

text \<open>The new value, and the type the \<^verbatim>\<open>ack_func\<close> of the message is called with, if it is called.\<close>

definition log_msg_ack :: "guint32 \<Rightarrow> bool \<Rightarrow> AckType \<Rightarrow> guint32 \<times> AckType option" where
  "log_msg_ack self ack_needed ack_type =
     (if ack_needed
      then let (old_value, self) = log_msg_update_ack_and_ref_and_abort_and_suspended self 0 (- 1)
                 (IS_ACK_ABORTED ack_type) (IS_ACK_SUSPENDED ack_type)
           in (self,
               if LOGMSG_REFCACHE_VALUE_TO_ACK old_value = 1
               then (if ack_type = AT_SUSPENDED then Some AT_SUSPENDED
                     else if ack_type = AT_ABORTED then Some AT_ABORTED
                     else Some (ack_and_ref_and_abort_and_suspend_to_acktype old_value))
               else None)
      else (self, None))"

text \<open>Acknowledge, then drop the reference: \<^verbatim>\<open>log_msg_drop\<close>.\<close>

definition log_msg_drop :: "guint32 \<Rightarrow> bool \<Rightarrow> AckType \<Rightarrow> (bool \<times> guint32 \<times> AckType option) outcome" where
  "log_msg_drop self ack_needed ack_type =
     (let (self, call) = log_msg_ack self ack_needed ack_type
      in bindO (log_msg_unref self) (\<lambda>(free, self). Inr (free, self, call)))"

section \<open>Reading and writing a field\<close>

definition field :: "nat \<Rightarrow> nat \<Rightarrow> guint32 \<Rightarrow> guint32" where
  "field k n v = take_bit n (drop_bit k v)"

definition with_field :: "nat \<Rightarrow> nat \<Rightarrow> guint32 \<Rightarrow> guint32 \<Rightarrow> guint32" where
  "with_field k n x v = (v AND NOT (push_bit k (mask n))) + (push_bit k x AND push_bit k (mask n))"

lemma with_field_or:
  "with_field k n x v = (v AND NOT (push_bit k (mask n))) OR (push_bit k x AND push_bit k (mask n))"
  unfolding with_field_def by (rule disjunctive_add) (auto simp: bit_simps)

lemma bit_guint32_less [simp]: "bit (v :: guint32) n \<Longrightarrow> n < 32"
  using bit_imp_le_length [of v n] by simp

lemma bit_with_field:
  assumes "k + n \<le> 32"
  shows "bit (with_field k n x v) i \<longleftrightarrow> (if k \<le> i \<and> i < k + n then bit x (i - k) else bit v i)"
proof -
  have "bit x (i - k) \<Longrightarrow> k \<le> i \<Longrightarrow> i < k + n \<Longrightarrow> i < 32" using assms by simp
  then show ?thesis
    using assms unfolding with_field_or by (auto simp: bit_simps dest: bit_guint32_less)
qed

lemma bit_field: "bit (field k n v) i \<longleftrightarrow> i < n \<and> bit v (k + i)"
  by (auto simp: field_def bit_simps)

lemma field_with_field:
  assumes "k + n \<le> 32"
  shows "field k n (with_field k n x v) = take_bit n x"
  using assms by (intro bit_eqI) (auto simp: bit_field bit_with_field bit_simps)

lemma field_with_other_field:
  assumes "k' + n' \<le> 32" and "k + n \<le> k' \<or> k' + n' \<le> k"
  shows "field k n (with_field k' n' x v) = field k n v"
  using assms by (intro bit_eqI) (auto simp: bit_field bit_with_field)

lemma refcache_masks:
  "(0x00007FFF :: guint32) = push_bit 0 (mask 15)" "(0x3FFF8000 :: guint32) = push_bit 15 (mask 15)"
  "(0x40000000 :: guint32) = push_bit 30 (mask 1)" "(0x80000000 :: guint32) = push_bit 31 (mask 1)"
  by (simp_all add: mask_eq_exp_minus_1 push_bit_eq_mult)

lemma drop_masked: "drop_bit k (v AND push_bit k (mask n)) = field k n (v :: guint32)"
  by (intro bit_eqI) (auto simp: bit_simps bit_field dest: bit_guint32_less)

lemma refcache_fields:
  "LOGMSG_REFCACHE_VALUE_TO_REF v = field 0 15 v" "LOGMSG_REFCACHE_VALUE_TO_ACK v = field 15 15 v"
  "LOGMSG_REFCACHE_VALUE_TO_ABORT v = field 30 1 v" "LOGMSG_REFCACHE_VALUE_TO_SUSPEND v = field 31 1 v"
  unfolding LOGMSG_REFCACHE_VALUE_TO_REF_def LOGMSG_REFCACHE_VALUE_TO_ACK_def LOGMSG_REFCACHE_VALUE_TO_ABORT_def
    LOGMSG_REFCACHE_VALUE_TO_SUSPEND_def refcache_masks by (rule drop_masked)+

lemma update_fields:
  "log_msg_update_ack_and_ref_and_abort_and_suspended v r a b s =
     (v, with_field 31 1 (field 31 1 v OR s) (with_field 30 1 (field 30 1 v OR b)
           (with_field 15 15 (field 15 15 v + a) (with_field 0 15 (field 0 15 v + r) v))))"
  unfolding log_msg_update_ack_and_ref_and_abort_and_suspended_def Let_def refcache_fields
    LOGMSG_REFCACHE_REF_TO_VALUE_def LOGMSG_REFCACHE_ACK_TO_VALUE_def LOGMSG_REFCACHE_ABORT_TO_VALUE_def
    LOGMSG_REFCACHE_SUSPEND_TO_VALUE_def refcache_masks with_field_def ..

section \<open>The counters as numbers\<close>

record msg_counts =
  mc_ref :: nat
  mc_ack :: nat
  mc_abort :: bool
  mc_suspend :: bool

definition counts :: "guint32 \<Rightarrow> msg_counts" where
  "counts v = \<lparr>mc_ref = unat (field 0 15 v), mc_ack = unat (field 15 15 v),
               mc_abort = (field 30 1 v = 1), mc_suspend = (field 31 1 v = 1)\<rparr>"

lemma unat_field_less: "unat (field k n v) < 2 ^ n"
proof -
  have "field k n v = take_bit n (field k n v)" by (simp add: field_def)
  then have "unat (field k n v) = take_bit n (unat (field k n v))" by (metis unsigned_take_bit_eq)
  then show ?thesis by (metis take_bit_nat_less_exp)
qed

lemma take_field_add:
  assumes "n \<le> 32"
  shows "unat (take_bit n (x + y :: guint32)) = (unat x + unat y) mod 2 ^ n"
proof -
  have "unat (take_bit n (x + y)) = take_bit n (unat (x + y))" by (rule unsigned_take_bit_eq)
  also have "\<dots> = (unat x + unat y) mod 2 ^ 32 mod 2 ^ n"
    by (simp add: take_bit_eq_mod unat_word_ariths(1))
  finally have "unat (take_bit n (x + y)) = (unat x + unat y) mod 2 ^ 32 mod 2 ^ n" .
  then show ?thesis using assms by (simp only: mod_mod_cancel [OF le_imp_power_dvd])
qed

lemma field_1: "field k 1 v = (if bit v k then 1 else 0)"
  by (intro bit_eqI) (auto simp: bit_field bit_1_iff)

lemma or_flag:
  "take_bit 1 (field k 1 v) OR take_bit 1 (if b then 1 else 0) = 1 \<longleftrightarrow> field k 1 v = 1 \<or> b"
  unfolding field_1 by (cases "bit v k"; cases b) simp_all

lemma update_counts:
  assumes "log_msg_update_ack_and_ref_and_abort_and_suspended v r a (if b then 1 else 0) (if s then 1 else 0) = (old, v')"
  shows "old = v"
    and "counts v' = \<lparr>mc_ref = (mc_ref (counts v) + unat r) mod 2 ^ 15, mc_ack = (mc_ack (counts v) + unat a) mod 2 ^ 15,
           mc_abort = (mc_abort (counts v) \<or> b), mc_suspend = (mc_suspend (counts v) \<or> s)\<rparr>"
proof -
  from assms have e: "old = v" "v' = with_field 31 1 (field 31 1 v OR (if s then 1 else 0))
      (with_field 30 1 (field 30 1 v OR (if b then 1 else 0))
        (with_field 15 15 (field 15 15 v + a) (with_field 0 15 (field 0 15 v + r) v)))"
    unfolding update_fields prod.inject by blast+
  show "old = v" by (rule e)
  show "counts v' = \<lparr>mc_ref = (mc_ref (counts v) + unat r) mod 2 ^ 15, mc_ack = (mc_ack (counts v) + unat a) mod 2 ^ 15,
           mc_abort = (mc_abort (counts v) \<or> b), mc_suspend = (mc_suspend (counts v) \<or> s)\<rparr>"
    unfolding e(2) counts_def
    by (simp add: field_with_field field_with_other_field take_field_add or_flag del: One_nat_def split del: if_split)
qed

section \<open>Runs\<close>

datatype msg_op = MsgRef | MsgUnref | MsgAddAck | MsgAck AckType

text \<open>The message is freed, or its \<^verbatim>\<open>ack_func\<close> is called.\<close>

datatype msg_call = FreeMessage | AckFunc AckType

definition msg_step :: "msg_op \<Rightarrow> guint32 \<Rightarrow> (msg_call list \<times> guint32) outcome" where
  "msg_step ins v =
     (case ins of
        MsgRef \<Rightarrow> bindO (log_msg_ref v) (\<lambda>v'. Inr ([], v'))
      | MsgUnref \<Rightarrow> bindO (log_msg_unref v) (\<lambda>(free, v'). Inr (if free then [FreeMessage] else [], v'))
      | MsgAddAck \<Rightarrow> Inr ([], log_msg_add_ack v True)
      | MsgAck ty \<Rightarrow>
          (let (v', call) = log_msg_ack v True ty
           in Inr (case call of None \<Rightarrow> [] | Some ty' \<Rightarrow> [AckFunc ty'], v')))"

fun msg_run :: "msg_op list \<Rightarrow> guint32 \<Rightarrow> (msg_call list \<times> guint32) outcome" where
  "msg_run [] v = Inr ([], v)"
| "msg_run (ins # ops) v =
     bindO (msg_step ins v) (\<lambda>(calls, v').
       bindO (msg_run ops v') (\<lambda>(calls', v''). Inr (calls @ calls', v'')))"

text \<open>The specification on numbers and flags.  An operation is defined when a reference is held and the
  counter it increments is below its maximum.\<close>

definition final_type :: "AckType \<Rightarrow> msg_counts \<Rightarrow> AckType" where
  "final_type ty c =
     (if ty = AT_SUSPENDED \<or> ty = AT_ABORTED then ty
      else if mc_suspend c then AT_SUSPENDED
      else if mc_abort c then AT_ABORTED
      else AT_PROCESSED)"

definition spec_step :: "msg_op \<Rightarrow> msg_counts \<Rightarrow> (msg_call list \<times> msg_counts) option" where
  "spec_step ins c =
     (case ins of
        MsgRef \<Rightarrow>
          (if 1 \<le> mc_ref c \<and> mc_ref c < 32767 then Some ([], c\<lparr>mc_ref := mc_ref c + 1\<rparr>) else None)
      | MsgUnref \<Rightarrow>
          (if 1 \<le> mc_ref c
           then Some (if mc_ref c = 1 then [FreeMessage] else [], c\<lparr>mc_ref := mc_ref c - 1\<rparr>) else None)
      | MsgAddAck \<Rightarrow> (if mc_ack c < 32767 then Some ([], c\<lparr>mc_ack := mc_ack c + 1\<rparr>) else None)
      | MsgAck ty \<Rightarrow>
          (if 1 \<le> mc_ack c
           then Some (if mc_ack c = 1 then [AckFunc (final_type ty c)] else [],
                      c\<lparr>mc_ack := mc_ack c - 1, mc_abort := (mc_abort c \<or> ty = AT_ABORTED),
                        mc_suspend := (mc_suspend c \<or> ty = AT_SUSPENDED)\<rparr>)
           else None))"

fun spec_run :: "msg_op list \<Rightarrow> msg_counts \<Rightarrow> (msg_call list \<times> msg_counts) option" where
  "spec_run [] c = Some ([], c)"
| "spec_run (ins # ops) c =
     Option.bind (spec_step ins c) (\<lambda>(calls, c').
       Option.bind (spec_run ops c') (\<lambda>(calls', c''). Some (calls @ calls', c'')))"

lemma counts_bounds: "mc_ref (counts v) < 2 ^ 15" "mc_ack (counts v) < 2 ^ 15"
  unfolding counts_def using unat_field_less [of _ 15 v] by simp_all

lemma minus_one_mod:
  assumes "1 \<le> n" and "n < 2 ^ 15"
  shows "(n + unat (- 1 :: guint32)) mod 2 ^ 15 = n - 1"
proof -
  have "unat (- 1 :: guint32) = 2 ^ 15 * 2 ^ 17 - 1" by (simp add: unsigned_minus_1_eq_mask mask_eq_exp_minus_1)
  then have "n + unat (- 1 :: guint32) = (n - 1) + 2 ^ 15 * 2 ^ 17" using assms(1) by simp
  moreover have "((n - 1) + 2 ^ 15 * 2 ^ 17) mod 2 ^ 15 = n - 1"
    using mod_mult_self2 [of "n - 1" "2 ^ 15" "2 ^ 17"] assms by simp
  ultimately show ?thesis by presburger
qed

lemma update_ack_and_ref:
  assumes "log_msg_update_ack_and_ref v r a = (old, v')"
  shows "old = v"
    and "counts v' = (counts v)\<lparr>mc_ref := (mc_ref (counts v) + unat r) mod 2 ^ 15,
           mc_ack := (mc_ack (counts v) + unat a) mod 2 ^ 15\<rparr>"
  using update_counts [of v r a False False old v'] assms by (simp_all add: log_msg_update_ack_and_ref_def)

lemma unat_refcache:
  "unat (LOGMSG_REFCACHE_VALUE_TO_REF v) = mc_ref (counts v)" "unat (LOGMSG_REFCACHE_VALUE_TO_ACK v) = mc_ack (counts v)"
  "(LOGMSG_REFCACHE_VALUE_TO_ABORT v = 1) = mc_abort (counts v)"
  "(LOGMSG_REFCACHE_VALUE_TO_SUSPEND v = 1) = mc_suspend (counts v)"
  by (simp_all add: refcache_fields counts_def)

lemma refcache_eq:
  "LOGMSG_REFCACHE_VALUE_TO_REF v \<ge> 1 \<longleftrightarrow> mc_ref (counts v) \<ge> 1"
  "LOGMSG_REFCACHE_VALUE_TO_REF v = 1 \<longleftrightarrow> mc_ref (counts v) = 1"
  "LOGMSG_REFCACHE_VALUE_TO_ACK v = 1 \<longleftrightarrow> mc_ack (counts v) = 1"
  by (simp_all add: word_le_nat_alt word_unat_eq_iff unat_refcache)

lemma msg_step_refines:
  assumes "spec_step ins (counts v) = Some (calls, c)"
  shows "\<exists>v'. msg_step ins v = Inr (calls, v') \<and> counts v' = c"
proof (cases ins)
  case MsgRef
  obtain old v' where u: "log_msg_update_ack_and_ref v 1 0 = (old, v')" by fastforce
  show ?thesis
    using assms update_ack_and_ref [OF u] counts_bounds(2) [of v]
    by (auto simp: MsgRef spec_step_def msg_step_def log_msg_ref_def u refcache_eq split: if_splits)
next
  case MsgUnref
  obtain old v' where u: "log_msg_update_ack_and_ref v (- 1) 0 = (old, v')" by fastforce
  show ?thesis
    using assms update_ack_and_ref [OF u] counts_bounds [of v] minus_one_mod [of "mc_ref (counts v)"]
    by (auto simp: MsgUnref spec_step_def msg_step_def log_msg_unref_def u refcache_eq split: if_splits)
next
  case MsgAddAck
  obtain old v' where u: "log_msg_update_ack_and_ref v 0 1 = (old, v')" by fastforce
  show ?thesis
    using assms update_ack_and_ref [OF u] counts_bounds(1) [of v]
    by (auto simp: MsgAddAck spec_step_def msg_step_def log_msg_add_ack_def u split: if_splits)
next
  case (MsgAck ty)
  obtain old v' where u: "log_msg_update_ack_and_ref_and_abort_and_suspended v 0 (- 1)
      (if ty = AT_ABORTED then 1 else 0) (if ty = AT_SUSPENDED then 1 else 0) = (old, v')" by fastforce
  have "log_msg_ack v True ty = (v', if mc_ack (counts v) = 1 then Some (final_type ty (counts v)) else None)"
    unfolding log_msg_ack_def IS_ACK_ABORTED_def IS_ACK_SUSPENDED_def u Let_def prod.case if_True refcache_eq
      update_counts(1) [OF u] ack_and_ref_and_abort_and_suspend_to_acktype_def unat_refcache final_type_def
    by simp
  then show ?thesis
    using assms update_counts(2) [OF u] counts_bounds [of v] minus_one_mod [of "mc_ack (counts v)"]
    by (auto simp: MsgAck spec_step_def msg_step_def split: if_splits)
qed

lemma msg_run_refines:
  assumes "spec_run ops (counts v) = Some (calls, c)"
  shows "\<exists>v'. msg_run ops v = Inr (calls, v') \<and> counts v' = c"
  using assms
proof (induction ops arbitrary: v calls)
  case (Cons ins ops)
  from Cons.prems obtain c1 cc1 cc2 where s: "spec_step ins (counts v) = Some (cc1, c1)"
    "spec_run ops c1 = Some (cc2, c)" "calls = cc1 @ cc2" by (auto simp: bind_eq_Some_conv)
  from msg_step_refines [OF s(1)] obtain v1 where v1: "msg_step ins v = Inr (cc1, v1)" "counts v1 = c1" by blast
  from Cons.IH [of v1 cc2] s v1 show ?case by auto
qed simp

section \<open>Properties\<close>

text \<open>C9: The packed word of a message implements two counters and two flags.  For any interleaving of atomic
  reference, unreference, add-acknowledgement and acknowledge operations in which a reference is held,
  no more acknowledgements arrive than were added, and no counter exceeds 32767, the source never fails
  an assertion, calls the acknowledgement function exactly when the last expected acknowledgement
  arrives, frees the message exactly when the last reference is dropped, and no field disturbs another.\<close>

theorem message_counters_refine:
  assumes "spec_run ops (counts v) = Some (calls, c)"
  shows "\<exists>v'. msg_run ops v = Inr (calls, v') \<and> counts v' = c"
  using assms by (rule msg_run_refines)

definition example_msg_ops :: "msg_op list" where
  "example_msg_ops = [MsgAddAck, MsgRef, MsgAddAck, MsgAck AT_SUSPENDED, MsgUnref, MsgAck AT_PROCESSED, MsgUnref]"

theorem message_counters_refine_witness:
  "\<exists>v'. msg_run example_msg_ops 1 = Inr ([AckFunc AT_SUSPENDED, FreeMessage], v') \<and> mc_ref (counts v') = 0"
proof -
  have "counts 1 = \<lparr>mc_ref = 1, mc_ack = 0, mc_abort = False, mc_suspend = False\<rparr>"
    by (simp add: counts_def field_def)
  then have "spec_run example_msg_ops (counts 1) = Some ([AckFunc AT_SUSPENDED, FreeMessage],
      \<lparr>mc_ref = 0, mc_ack = 0, mc_abort = False, mc_suspend = True\<rparr>)"
    by (simp add: example_msg_ops_def spec_step_def final_type_def)
  from message_counters_refine [OF this] show ?thesis by auto
qed

fun acks_in :: "msg_op list \<Rightarrow> AckType list" where
  "acks_in [] = []"
| "acks_in (MsgAck ty # ops) = ty # acks_in ops"
| "acks_in (_ # ops) = acks_in ops"

fun ack_calls :: "msg_call list \<Rightarrow> AckType list" where
  "ack_calls [] = []"
| "ack_calls (AckFunc ty # calls) = ty # ack_calls calls"
| "ack_calls (FreeMessage # calls) = ack_calls calls"

definition combined_type :: "msg_counts \<Rightarrow> AckType list \<Rightarrow> AckType" where
  "combined_type c ts =
     (if last ts = AT_SUSPENDED \<or> last ts = AT_ABORTED then last ts
      else if mc_suspend c \<or> AT_SUSPENDED \<in> set ts then AT_SUSPENDED
      else if mc_abort c \<or> AT_ABORTED \<in> set ts then AT_ABORTED
      else AT_PROCESSED)"

lemma ack_calls_append [simp]: "ack_calls (xs @ ys) = ack_calls xs @ ack_calls ys"
  by (induction xs rule: ack_calls.induct) simp_all

lemma spec_run_acked:
  assumes "spec_run ops c = Some (calls, c')" and "MsgAddAck \<notin> set ops" and "mc_ack c = length (acks_in ops)"
  shows "ack_calls calls = (if acks_in ops = [] then [] else [combined_type c (acks_in ops)]) \<and> mc_ack c' = 0"
  using assms
proof (induction ops arbitrary: c calls)
  case (Cons ins ops)
  from Cons.prems(1) obtain c1 cc1 cc2 where s: "spec_step ins c = Some (cc1, c1)"
    "spec_run ops c1 = Some (cc2, c')" "calls = cc1 @ cc2" by (auto simp: bind_eq_Some_conv)
  show ?case
  proof (cases ins)
    case (MsgAck ty)
    with s(1) Cons.prems(3) have "mc_ack c1 = length (acks_in ops)" by (auto simp: spec_step_def split: if_splits)
    from Cons.IH [OF s(2) _ this] Cons.prems(2) s(1,3) Cons.prems(3) MsgAck show ?thesis
      by (cases ty; cases "acks_in ops")
        (auto simp: spec_step_def final_type_def combined_type_def split: if_splits)
  qed (use Cons.IH [OF s(2)] Cons.prems s in
      \<open>auto simp: spec_step_def combined_type_def split: if_splits\<close>)
qed simp

text \<open>C10: The source of a message is told once, and a failure is never reported as a success.  When as many
  acknowledgements are expected as arrive, interleaved with any references and unreferences, the
  acknowledgement function is called exactly once.  It is called with \<^verbatim>\<open>AT_PROCESSED\<close> only if no
  acknowledgement was \<^verbatim>\<open>AT_SUSPENDED\<close> or \<^verbatim>\<open>AT_ABORTED\<close>, with the type of the last one if
  that is one of the two, and otherwise suspension wins over abortion.\<close>

theorem message_acked_once:
  assumes "spec_run ops (counts v) = Some (calls, c)" and "MsgAddAck \<notin> set ops" and "acks_in ops \<noteq> []"
    and "mc_ack (counts v) = length (acks_in ops)"
  shows "\<exists>v'. msg_run ops v = Inr (calls, v') \<and> ack_calls calls = [combined_type (counts v) (acks_in ops)] \<and>
           (combined_type (counts v) (acks_in ops) = AT_PROCESSED \<longleftrightarrow>
              \<not> mc_abort (counts v) \<and> \<not> mc_suspend (counts v) \<and>
              AT_SUSPENDED \<notin> set (acks_in ops) \<and> AT_ABORTED \<notin> set (acks_in ops))"
proof -
  have "ty \<notin> set (acks_in ops) \<Longrightarrow> last (acks_in ops) \<noteq> ty" for ty
    using last_in_set [OF assms(3)] by blast
  then show ?thesis
    using msg_run_refines [OF assms(1)] spec_run_acked [OF assms(1,2,4)] assms(3)
    by (auto simp: combined_type_def)
qed

theorem message_acked_once_witness:
  "\<exists>calls v'. msg_run [MsgAck AT_ABORTED, MsgRef, MsgAck AT_PROCESSED] 65537 = Inr (calls, v') \<and>
     ack_calls calls = [AT_ABORTED]"
proof -
  let ?ops = "[MsgAck AT_ABORTED, MsgRef, MsgAck AT_PROCESSED]"
  have c: "counts 65537 = \<lparr>mc_ref = 1, mc_ack = 2, mc_abort = False, mc_suspend = False\<rparr>"
    by (simp add: counts_def field_def drop_bit_eq_div take_bit_eq_mod)
  then have "spec_run ?ops (counts 65537) = Some ([AckFunc AT_ABORTED],
      \<lparr>mc_ref = 2, mc_ack = 0, mc_abort = True, mc_suspend = False\<rparr>)"
    by (simp add: spec_step_def final_type_def)
  from message_acked_once [OF this] c show ?thesis by (auto simp: combined_type_def)
qed

text \<open>C29: A message cannot have more than 32767 references: one more wraps the field to zero without an
  assertion, and dropping any of them then aborts.\<close>

theorem message_references_wrap:
  assumes "mc_ref (counts v) = 32767"
  shows "\<exists>v'. log_msg_ref v = Inr v' \<and> counts v' = (counts v)\<lparr>mc_ref := 0\<rparr> \<and> log_msg_unref v' = Inl AssertionFailed"
proof -
  obtain old v' where u: "log_msg_update_ack_and_ref v 1 0 = (old, v')" by fastforce
  have c: "log_msg_ref v = Inr v'" "counts v' = (counts v)\<lparr>mc_ref := 0\<rparr>"
    using assms update_ack_and_ref [OF u] counts_bounds(2) [of v]
    by (simp_all add: log_msg_ref_def u refcache_eq)
  obtain old2 v2 where u2: "log_msg_update_ack_and_ref v' (- 1) 0 = (old2, v2)" by fastforce
  have "log_msg_unref v' = Inl AssertionFailed"
    using update_ack_and_ref(1) [OF u2] c by (simp add: log_msg_unref_def u2 refcache_eq g_assert_def)
  with c show ?thesis by blast
qed

theorem message_references_wrap_witness:
  "\<exists>v'. log_msg_ref 32767 = Inr v' \<and> mc_ref (counts v') = 0 \<and> log_msg_unref v' = Inl AssertionFailed"
proof -
  have "mc_ref (counts 32767) = 32767" by (simp add: counts_def field_def take_bit_eq_mod)
  from message_references_wrap [OF this] show ?thesis by auto
qed

end
