(* ===== verification/Spec2Isabelle.thy ===== *)
theory Spec2Isabelle
  imports Consecutive_Ack_Tracker Instant_Ack_Tracker Batched_Ack_Tracker Log_Queue_Fifo NV_Table_Properties
    Log_Message_Names Log_Message_Ack
begin

text \<open>
  Verification library for the message path of AxoSyslog: the containers, queues, trackers, tables
  and codecs a log message passes through between a source and a destination.
\<close>

end
